(* ===== verification/Prelude.thy ===== *)
theory Prelude
  imports Main "HOL-Library.Word"
begin

text \<open>
  Shared vocabulary of the development: bytes and the C character classes, the
  conversions between C integer types, decimal numerals as \<^verbatim>\<open>printf("%d")\<close>
  writes them and as the digit loops of the library read them back, and a few
  list lemmas.  Bytes are \<^typ>\<open>char\<close> (eight bits), byte strings are
  \<^typ>\<open>string\<close>; pointers into a buffer are indices.
\<close>

named_theorems c_arith \<open>conversions between C integer types under their bounds\<close>
named_theorems ascii \<open>numeric values of characters\<close>

section \<open>Characters\<close>

abbreviation CR :: char where "CR \<equiv> CHR 0x0D"
abbreviation LF :: char where "LF \<equiv> CHR 0x0A"
abbreviation NUL :: char where "NUL \<equiv> CHR 0x00"
abbreviation CRLF :: string where "CRLF \<equiv> [CR, LF]"

definition ord :: "char \<Rightarrow> nat" where
  "ord c = of_char c"

definition isdigit :: "char \<Rightarrow> bool" where
  "isdigit c = (48 \<le> ord c \<and> ord c \<le> 57)"

definition isspace :: "char \<Rightarrow> bool" where
  "isspace c = (ord c = 32 \<or> 9 \<le> ord c \<and> ord c \<le> 13)"

definition isprint :: "char \<Rightarrow> bool" where
  "isprint c = (32 \<le> ord c \<and> ord c \<le> 126)"

definition c_tolower :: "char \<Rightarrow> char" where
  "c_tolower c = (if 65 \<le> ord c \<and> ord c \<le> 90 then char_of (ord c + 32) else c)"

definition c_toupper :: "char \<Rightarrow> char" where
  "c_toupper c = (if 97 \<le> ord c \<and> ord c \<le> 122 then char_of (ord c - 32) else c)"

lemma ord_less: "ord c < 256"
  unfolding ord_def using nat_of_char_less_256 by simp

lemma ord_inject [simp]: "ord c = ord d \<longleftrightarrow> c = d"
  by (simp add: ord_def)

lemma ord_char_of: "n < 256 \<Longrightarrow> ord (char_of n) = n"
  by (simp add: ord_def)

lemma char_of_ord [simp]: "char_of (ord c) = c"
  by (simp add: ord_def)

section \<open>C integers\<close>

text \<open>Conversion of an integer value to \<^verbatim>\<open>int\<close>, \<^verbatim>\<open>long long\<close> and
  \<^verbatim>\<open>uint32_t\<close> on the supported platforms (two's complement).\<close>

definition c_int :: "int \<Rightarrow> int" where
  "c_int x = (x + 2147483648) mod 4294967296 - 2147483648"

definition c_llong :: "int \<Rightarrow> int" where
  "c_llong x = (x + 9223372036854775808) mod 18446744073709551616 - 9223372036854775808"

definition u32 :: "nat \<Rightarrow> nat" where
  "u32 n = n mod 4294967296"

definition c_size :: "int \<Rightarrow> nat" where
  "c_size x = nat (x mod 18446744073709551616)"

lemma c_int_id [c_arith]: "- 2147483648 \<le> x \<Longrightarrow> x < 2147483648 \<Longrightarrow> c_int x = x"
  by (simp add: c_int_def)

lemma c_int_0 [simp]: "c_int 0 = 0"
  by (simp add: c_int_def)

lemma c_int_range: "- 2147483648 \<le> c_int x \<and> c_int x < 2147483648"
proof -
  have "0 \<le> (x + 2147483648) mod 4294967296 \<and> (x + 2147483648) mod 4294967296 < 4294967296"
    by simp
  then show ?thesis unfolding c_int_def by linarith
qed

lemma c_llong_id [c_arith]:
  "- 9223372036854775808 \<le> x \<Longrightarrow> x < 9223372036854775808 \<Longrightarrow> c_llong x = x"
  by (simp add: c_llong_def)

lemma u32_id [c_arith]: "n < 4294967296 \<Longrightarrow> u32 n = n"
  by (simp add: u32_def)

lemma u32_less: "u32 n < 4294967296"
  by (simp add: u32_def)

lemma c_size_id [c_arith]: "0 \<le> x \<Longrightarrow> x < 18446744073709551616 \<Longrightarrow> c_size x = nat x"
  by (simp add: c_size_def)

lemma c_size_of_nat [c_arith]: "n < 18446744073709551616 \<Longrightarrow> c_size (int n) = n"
  by (simp add: c_size_def nat_mod_distrib)

section \<open>Decimal numerals\<close>

definition digit :: "nat \<Rightarrow> char" where
  "digit d = char_of (48 + d)"

definition digit_val :: "char \<Rightarrow> nat" where
  "digit_val c = ord c - 48"

definition hexdig :: "nat \<Rightarrow> char" where
  "hexdig n = (if n < 10 then digit n else char_of (87 + n))"

fun dec :: "nat \<Rightarrow> string" where
  "dec n = (if n < 10 then [digit n] else dec (n div 10) @ [digit (n mod 10)])"

declare dec.simps [simp del]

definition dec_int :: "int \<Rightarrow> string" where
  "dec_int i = (if i < 0 then CHR ''-'' # dec (nat (- i)) else dec (nat i))"

definition dval :: "nat \<Rightarrow> string \<Rightarrow> nat" where
  "dval a s = foldl (\<lambda>a c. a * 10 + digit_val c) a s"

lemma ord_digit [simp]: "d < 10 \<Longrightarrow> ord (digit d) = 48 + d"
  by (simp add: digit_def ord_char_of)

lemma isdigit_digit [simp]: "d < 10 \<Longrightarrow> isdigit (digit d)"
  by (simp add: isdigit_def)

lemma digit_val_digit [simp]: "d < 10 \<Longrightarrow> digit_val (digit d) = d"
  by (simp add: digit_val_def)

lemma digit_of_digit_val: "isdigit c \<Longrightarrow> digit (digit_val c) = c"
  by (simp add: isdigit_def digit_val_def digit_def)

lemma digit_val_less: "isdigit c \<Longrightarrow> digit_val c < 10"
  by (auto simp: isdigit_def digit_val_def)

lemma isdigit_chars [ascii, simp]:
  "isdigit CR = False" "isdigit LF = False" "isdigit NUL = False"
  "isdigit (CHR ''-'') = False" "isdigit (CHR ''+'') = False"
  "isdigit (CHR ''$'') = False" "isdigit (CHR ''*'') = False"
  by (simp_all add: isdigit_def ord_def)

lemma digit_numeral [ascii]:
  "digit 0 = CHR ''0''" "digit 1 = CHR ''1''" "digit (Suc 0) = CHR ''1''" "digit 2 = CHR ''2''"
  "digit 3 = CHR ''3''" "digit 4 = CHR ''4''" "digit 5 = CHR ''5''" "digit 6 = CHR ''6''"
  "digit 7 = CHR ''7''" "digit 8 = CHR ''8''" "digit 9 = CHR ''9''"
  by (simp_all add: digit_def char_of_def bit_0)

lemma dec_nonempty [simp]: "dec n \<noteq> []"
  by (subst dec.simps) simp

lemma dec_digits: "c \<in> set (dec n) \<Longrightarrow> isdigit c"
proof (induction n rule: dec.induct)
  case (1 n)
  then show ?case
    by (cases "n < 10") (simp_all add: dec.simps [of n], auto)
qed

lemma dval_Nil [simp]: "dval a [] = a"
  by (simp add: dval_def)

lemma dval_Cons [simp]: "dval a (c # s) = dval (a * 10 + digit_val c) s"
  by (simp add: dval_def)

lemma dval_append [simp]: "dval a (s @ t) = dval (dval a s) t"
  by (simp add: dval_def)

lemma dval_mono: "a \<le> dval a s"
proof (induction s arbitrary: a)
  case (Cons c s)
  have "a \<le> a * 10 + digit_val c" by simp
  also have "\<dots> \<le> dval (a * 10 + digit_val c) s" by (rule Cons)
  finally show ?case by simp
qed simp

lemma dval_dec [simp]: "dval 0 (dec n) = n"
proof (induction n rule: dec.induct)
  case (1 n)
  then show ?case
    by (cases "n < 10") (simp_all add: dec.simps [of n])
qed

lemma dec_inject [simp]: "dec m = dec n \<longleftrightarrow> m = n"
  by (metis dval_dec)

lemma dec_no_CR: "CR \<notin> set (dec n)" and dec_no_LF: "LF \<notin> set (dec n)"
  using dec_digits isdigit_chars by blast+

end
