(* ===== verification/Sds.thy ===== *)
theory Sds
  imports Prelude
begin

text \<open>
  Model of the dynamic strings of \<^verbatim>\<open>sds.h\<close> and \<^verbatim>\<open>sds.c\<close>: the header with its 32-bit
  \<^verbatim>\<open>len\<close> and \<^verbatim>\<open>free\<close> fields and the bytes of the block that follow it, the terminator
  included.  The environment says which allocation sizes succeed and what uninitialised
  bytes contain.  An operation returns a string, the null pointer of a failed allocation,
  or a memory error.  The interface \<open>byte_string\<close> is what the reply reader and the
  command formatters rely on.
\<close>

section \<open>Blocks and results\<close>

record menv =
  can_alloc :: "nat \<Rightarrow> bool"
  junk :: "nat \<Rightarrow> char"

datatype 'a ptr = Ptr 'a | Null | Crash

text \<open>Passing a null pointer on to the next operation is a memory error.\<close>

fun use :: "'a ptr \<Rightarrow> ('a \<Rightarrow> 'b ptr) \<Rightarrow> 'b ptr" where
  "use (Ptr x) f = f x"
| "use Null f = Crash"
| "use Crash f = Crash"

text \<open>Checking for null first and returning it.\<close>

fun check :: "'a ptr \<Rightarrow> ('a \<Rightarrow> 'b ptr) \<Rightarrow> 'b ptr" where
  "check (Ptr x) f = f x"
| "check Null f = Null"
| "check Crash f = Crash"

definition poke :: "string \<Rightarrow> nat \<Rightarrow> string \<Rightarrow> string option" where
  "poke b i xs =
     (if i + length xs \<le> length b then Some (take i b @ xs @ drop (i + length xs) b) else None)"

definition grow :: "menv \<Rightarrow> nat \<Rightarrow> string \<Rightarrow> string" where
  "grow e n b = take n b @ map (junk e) [length b..<n]"

text \<open>The characters of a C string stop at the first zero byte.\<close>

definition cstr :: "string \<Rightarrow> string" where
  "cstr t = takeWhile (\<lambda>c. c \<noteq> NUL) t"

record sds =
  slen :: int
  sfree :: int
  sbuf :: string

definition sdslen :: "sds \<Rightarrow> nat" where
  "sdslen s = c_size (slen s)"

definition sdsavail :: "sds \<Rightarrow> nat" where
  "sdsavail s = c_size (sfree s)"

section \<open>Operations\<close>

definition sdsnewlen :: "menv \<Rightarrow> string option \<Rightarrow> nat \<Rightarrow> sds ptr" where
  "sdsnewlen e init initlen =
     (if can_alloc e (8 + initlen + 1) then
        Ptr \<lparr> slen = c_int (int initlen), sfree = 0,
              sbuf = (case init of Some t \<Rightarrow> take initlen t | None \<Rightarrow> replicate initlen NUL) @ [NUL] \<rparr>
      else Null)"

definition sdsempty :: "menv \<Rightarrow> sds ptr" where
  "sdsempty e = sdsnewlen e (Some []) 0"

definition sdsnew :: "menv \<Rightarrow> string option \<Rightarrow> sds ptr" where
  "sdsnew e init =
     (let initlen = (case init of None \<Rightarrow> 0 | Some t \<Rightarrow> length (cstr t)) in sdsnewlen e init initlen)"

definition sdsdup :: "menv \<Rightarrow> sds \<Rightarrow> sds ptr" where
  "sdsdup e s = sdsnewlen e (Some (sbuf s)) (sdslen s)"

definition sdsupdatelen :: "sds \<Rightarrow> sds" where
  "sdsupdatelen s =
     (let reallen = c_int (int (length (cstr (sbuf s)))) in
      s\<lparr>sfree := c_int (sfree s + (slen s - reallen)), slen := reallen\<rparr>)"

definition sdsclear :: "sds \<Rightarrow> sds ptr" where
  "sdsclear s =
     (case poke (sbuf s) 0 [NUL] of
        None \<Rightarrow> Crash
      | Some b \<Rightarrow> Ptr (s\<lparr>sfree := c_int (sfree s + slen s), slen := 0, sbuf := b\<rparr>))"

definition sdsMakeRoomFor :: "menv \<Rightarrow> sds \<Rightarrow> nat \<Rightarrow> sds ptr" where
  "sdsMakeRoomFor e s addlen =
     (if sdsavail s \<ge> addlen then Ptr s
      else
        (let len = sdslen s;
             newlen = len + addlen;
             newlen = (if newlen < 1048576 then newlen * 2 else newlen + 1048576) in
         if can_alloc e (8 + newlen + 1) then
           Ptr (s\<lparr>sfree := c_int (int newlen - int len), sbuf := grow e (newlen + 1) (sbuf s)\<rparr>)
         else Null))"

text \<open>A failed reallocation is not checked here.\<close>

definition sdsRemoveFreeSpace :: "menv \<Rightarrow> sds \<Rightarrow> sds ptr" where
  "sdsRemoveFreeSpace e s =
     (if can_alloc e (8 + sdslen s + 1) then
        Ptr (s\<lparr>sfree := 0, sbuf := grow e (sdslen s + 1) (sbuf s)\<rparr>)
      else Crash)"

definition sdsAllocSize :: "sds \<Rightarrow> nat" where
  "sdsAllocSize s = c_size (8 + slen s + sfree s + 1)"

text \<open>\<open>Crash\<close> is also a failed assertion.\<close>

definition sdsIncrLen :: "sds \<Rightarrow> int \<Rightarrow> sds ptr" where
  "sdsIncrLen s incr =
     (if sfree s < incr then Crash
      else
        (let l = c_int (slen s + incr); f = c_int (sfree s - incr) in
         if f < 0 \<or> l < 0 then Crash
         else case poke (sbuf s) (nat l) [NUL] of
           None \<Rightarrow> Crash
         | Some b \<Rightarrow> Ptr (s\<lparr>slen := l, sfree := f, sbuf := b\<rparr>)))"

definition sdsgrowzero :: "menv \<Rightarrow> sds \<Rightarrow> nat \<Rightarrow> sds ptr" where
  "sdsgrowzero e s len =
     (let curlen = sdslen s in
      if len \<le> curlen then Ptr s
      else check (sdsMakeRoomFor e s (len - curlen)) (\<lambda>s.
        case poke (sbuf s) curlen (replicate (len - curlen + 1) NUL) of
          None \<Rightarrow> Crash
        | Some b \<Rightarrow>
            (let totlen = c_size (slen s + sfree s) in
             Ptr (s\<lparr>slen := c_int (int len), sfree := c_int (int totlen - int len), sbuf := b\<rparr>))))"

definition sdscatlen :: "menv \<Rightarrow> sds \<Rightarrow> string \<Rightarrow> sds ptr" where
  "sdscatlen e s t =
     (let curlen = sdslen s; len = length t in
      check (sdsMakeRoomFor e s len) (\<lambda>s.
        case poke (sbuf s) curlen t of
          None \<Rightarrow> Crash
        | Some b \<Rightarrow>
            (case poke b (curlen + len) [NUL] of
               None \<Rightarrow> Crash
             | Some b \<Rightarrow>
                 Ptr (s\<lparr>slen := c_int (int (curlen + len)), sfree := c_int (sfree s - int len),
                        sbuf := b\<rparr>))))"

definition sdscat :: "menv \<Rightarrow> sds \<Rightarrow> string \<Rightarrow> sds ptr" where
  "sdscat e s t = sdscatlen e s (cstr t)"

definition sdscatsds :: "menv \<Rightarrow> sds \<Rightarrow> sds \<Rightarrow> sds ptr" where
  "sdscatsds e s t = sdscatlen e s (take (sdslen t) (sbuf t))"

definition sdscpylen :: "menv \<Rightarrow> sds \<Rightarrow> string \<Rightarrow> sds ptr" where
  "sdscpylen e s t =
     (let len = length t; totlen = c_size (sfree s + slen s) in
      check (if totlen < len then sdsMakeRoomFor e s (c_size (int len - slen s)) else Ptr s) (\<lambda>s.
        (let totlen = c_size (sfree s + slen s) in
         case poke (sbuf s) 0 t of
           None \<Rightarrow> Crash
         | Some b \<Rightarrow>
             (case poke b len [NUL] of
                None \<Rightarrow> Crash
              | Some b \<Rightarrow>
                  Ptr (s\<lparr>slen := c_int (int len), sfree := c_int (int totlen - int len),
                         sbuf := b\<rparr>)))))"

definition sdscpy :: "menv \<Rightarrow> sds \<Rightarrow> string \<Rightarrow> sds ptr" where
  "sdscpy e s t = sdscpylen e s (cstr t)"

definition sdsrange :: "sds \<Rightarrow> int \<Rightarrow> int \<Rightarrow> sds ptr" where
  "sdsrange s start end =
     (let len = sdslen s in
      if len = 0 then Ptr s
      else
        (let start = (if start < 0 then (let x = c_int (int len + start) in if x < 0 then 0 else x) else start);
             end = (if end < 0 then (let x = c_int (int len + end) in if x < 0 then 0 else x) else end);
             newlen = (if start > end then 0 else nat (end - start + 1));
             (start, newlen) =
               (if newlen \<noteq> 0 then
                  (if start \<ge> c_int (int len) then (start, 0)
                   else if end \<ge> c_int (int len) then
                     (let end = c_int (int len - 1) in
                      (start, if start > end then 0 else nat (end - start + 1)))
                   else (start, newlen))
                else (0, newlen)) in
         case (if start \<noteq> 0 \<and> newlen \<noteq> 0 then
                 (if nat start + newlen \<le> length (sbuf s)
                  then poke (sbuf s) 0 (take newlen (drop (nat start) (sbuf s))) else None)
               else Some (sbuf s)) of
           None \<Rightarrow> Crash
         | Some b \<Rightarrow>
             (case poke b newlen [NUL] of
                None \<Rightarrow> Crash
              | Some b \<Rightarrow>
                  Ptr (s\<lparr>sfree := c_int (sfree s + (slen s - int newlen)),
                         slen := c_int (int newlen), sbuf := b\<rparr>))))"

definition sdstolower :: "sds \<Rightarrow> sds" where
  "sdstolower s = s\<lparr>sbuf := map c_tolower (take (sdslen s) (sbuf s)) @ drop (sdslen s) (sbuf s)\<rparr>"

definition sdstoupper :: "sds \<Rightarrow> sds" where
  "sdstoupper s = s\<lparr>sbuf := map c_toupper (take (sdslen s) (sbuf s)) @ drop (sdslen s) (sbuf s)\<rparr>"

text \<open>The sign of \<^verbatim>\<open>memcmp\<close> on two blocks of equal length: bytes compare as unsigned.\<close>

fun memcmp :: "string \<Rightarrow> string \<Rightarrow> int" where
  "memcmp (a # as) (b # bs) = (if a = b then memcmp as bs else int (ord a) - int (ord b))"
| "memcmp _ _ = 0"

definition sdscmp :: "sds \<Rightarrow> sds \<Rightarrow> int" where
  "sdscmp s1 s2 =
     (let l1 = sdslen s1; l2 = sdslen s2; minlen = (if l1 < l2 then l1 else l2);
          cmp = memcmp (take minlen (sbuf s1)) (take minlen (sbuf s2)) in
      if cmp = 0 then c_int (int l1 - int l2) else cmp)"

fun mapchar :: "string \<Rightarrow> string \<Rightarrow> char \<Rightarrow> char" where
  "mapchar (f # fs) (t # ts) c = (if c = f then t else mapchar fs ts c)"
| "mapchar _ _ c = c"

definition sdsmapchars :: "sds \<Rightarrow> string \<Rightarrow> string \<Rightarrow> sds" where
  "sdsmapchars s from to =
     s\<lparr>sbuf := map (mapchar from to) (take (sdslen s) (sbuf s)) @ drop (sdslen s) (sbuf s)\<rparr>"

text \<open>\<^verbatim>\<open>strchr\<close> finds the terminator too.\<close>

definition in_cset :: "string \<Rightarrow> char \<Rightarrow> bool" where
  "in_cset cset c \<longleftrightarrow> c \<in> set (cstr cset) \<or> c = NUL"

function trim_end :: "string \<Rightarrow> string \<Rightarrow> int \<Rightarrow> int" where
  "trim_end cset b ep = (if ep > 0 \<and> in_cset cset (b ! nat ep) then trim_end cset b (ep - 1) else ep)"
  by pat_completeness auto
termination by (relation "measure (\<lambda>(cset, b, ep). nat ep)") auto

declare trim_end.simps [simp del]

definition sdstrim :: "sds \<Rightarrow> string \<Rightarrow> sds ptr" where
  "sdstrim s cset =
     (let sp = length (takeWhile (in_cset cset) (take (sdslen s) (sbuf s)));
          ep = trim_end cset (sbuf s) (int (sdslen s) - 1);
          len = (if int sp > ep then 0 else nat (ep - int sp + 1)) in
      case (if sp \<noteq> 0 then poke (sbuf s) 0 (take len (drop sp (sbuf s))) else Some (sbuf s)) of
        None \<Rightarrow> Crash
      | Some b \<Rightarrow>
          (case poke b len [NUL] of
             None \<Rightarrow> Crash
           | Some b \<Rightarrow>
               Ptr (s\<lparr>sfree := c_int (sfree s + (slen s - int len)), slen := c_int (int len),
                      sbuf := b\<rparr>)))"

section \<open>The interface\<close>

text \<open>What the users of a byte string rely on: its contents as a list of bytes, appending
  (which may fail for lack of memory but never otherwise) and dropping a prefix.\<close>

locale byte_string =
  fixes inv :: "'s \<Rightarrow> bool"
    and bytes :: "'s \<Rightarrow> string"
    and lim :: nat
    and append :: "'s \<Rightarrow> string \<Rightarrow> 's ptr"
    and dropfront :: "'s \<Rightarrow> nat \<Rightarrow> 's ptr"
  assumes append_safe: "inv s \<Longrightarrow> length (bytes s) + length t < lim \<Longrightarrow> append s t \<noteq> Crash"
    and append_inv: "inv s \<Longrightarrow> length (bytes s) + length t < lim \<Longrightarrow> append s t = Ptr s' \<Longrightarrow> inv s'"
    and append_bytes:
      "inv s \<Longrightarrow> length (bytes s) + length t < lim \<Longrightarrow> append s t = Ptr s' \<Longrightarrow> bytes s' = bytes s @ t"
    and dropfront_ok:
      "inv s \<Longrightarrow> k \<le> length (bytes s) \<Longrightarrow> length (bytes s) < lim \<Longrightarrow>
       \<exists>s'. dropfront s k = Ptr s' \<and> inv s' \<and> bytes s' = drop k (bytes s)"
begin

lemma append_cases:
  assumes "inv s" "length (bytes s) + length t < lim"
  obtains "append s t = Null" | s' where "append s t = Ptr s'" "inv s'" "bytes s' = bytes s @ t"
  using assms append_safe append_inv append_bytes by (cases "append s t") blast+

text \<open>Appending a list of pieces one after the other.\<close>

fun append_all :: "'s \<Rightarrow> string list \<Rightarrow> 's ptr" where
  "append_all s [] = Ptr s"
| "append_all s (t # ts) = check (append s t) (\<lambda>s'. append_all s' ts)"

lemma append_all_bytes:
  "inv s \<Longrightarrow> length (bytes s) + length (concat ts) < lim \<Longrightarrow>
   append_all s ts \<noteq> Crash \<and> (\<forall>s'. append_all s ts = Ptr s' \<longrightarrow> inv s' \<and> bytes s' = bytes s @ concat ts)"
proof (induction ts arbitrary: s)
  case (Cons t ts)
  have l: "length (bytes s) + length t < lim" using Cons.prems by simp
  show ?case
  proof (rule append_cases [OF Cons.prems(1) l], goal_cases)
    case 1
    then show ?case by simp
  next
    case (2 s')
    then show ?case using Cons.IH [of s'] Cons.prems by simp
  qed
qed simp

end

section \<open>Refinement to byte lists\<close>

definition sds_inv :: "sds \<Rightarrow> bool" where
  "sds_inv s \<longleftrightarrow> 0 \<le> slen s \<and> 0 \<le> sfree s \<and> slen s + sfree s < 2147483648 \<and>
     length (sbuf s) = nat (slen s + sfree s) + 1 \<and> sbuf s ! nat (slen s) = NUL"

definition content :: "sds \<Rightarrow> string" where
  "content s = take (nat (slen s)) (sbuf s)"

lemma sdslen_inv: "sds_inv s \<Longrightarrow> sdslen s = nat (slen s)" "sds_inv s \<Longrightarrow> sdsavail s = nat (sfree s)"
  by (simp_all add: sds_inv_def sdslen_def sdsavail_def c_arith)

lemma length_content: "sds_inv s \<Longrightarrow> length (content s) = nat (slen s)"
  by (simp add: sds_inv_def content_def) linarith

lemma sdslen_content: "sds_inv s \<Longrightarrow> sdslen s = length (content s)"
  by (simp add: sdslen_inv length_content)

lemma length_poke: "poke b i xs = Some b' \<Longrightarrow> length b' = length b"
  by (auto simp: poke_def split: if_splits)

lemma poke_Some: "i + length xs \<le> length b \<Longrightarrow> \<exists>b'. poke b i xs = Some b'"
  by (simp add: poke_def)

lemma length_grow [simp]: "length (grow e n b) = n"
  by (simp add: grow_def)

lemma take_grow: "k \<le> length b \<Longrightarrow> k \<le> n \<Longrightarrow> take k (grow e n b) = take k b"
  by (simp add: grow_def)

lemma make_room:
  assumes "sds_inv s" "length (content s) + addlen < 1073741824"
  shows "sdsMakeRoomFor e s addlen = Null \<or>
    (\<exists>s'. sdsMakeRoomFor e s addlen = Ptr s' \<and> sds_inv s' \<and> slen s' = slen s \<and> content s' = content s \<and>
       int addlen \<le> sfree s')"
proof (cases "sdsavail s \<ge> addlen")
  case True
  moreover from True assms have "int addlen \<le> sfree s" by (auto simp: sdslen_inv sds_inv_def)
  ultimately show ?thesis using assms by (simp add: sdsMakeRoomFor_def)
next
  case False
  define n where "n = (if nat (slen s) + addlen < 1048576 then (nat (slen s) + addlen) * 2
    else nat (slen s) + addlen + 1048576)"
  have l: "0 \<le> slen s" "nat (slen s) + addlen < 1073741824" "nat (slen s) < length (sbuf s)"
    "sbuf s ! nat (slen s) = NUL"
    using assms length_content [OF assms(1)] by (auto simp: sds_inv_def)
  have n: "nat (slen s) + addlen \<le> n" "n < 2147483648"
    using l(2) by (auto simp: n_def)
  have n': "slen s + int addlen \<le> int n" using n(1) l(1) by linarith
  let ?s = "s\<lparr>sfree := int n - slen s, sbuf := grow e (n + 1) (sbuf s)\<rparr>"
  have eq: "sdsMakeRoomFor e s addlen = (if can_alloc e (8 + n + 1) then Ptr ?s else Null)"
    using False assms(1) n l by (simp add: sdsMakeRoomFor_def sdslen_inv Let_def n_def [symmetric] c_int_id)
  have t: "take (Suc (nat (slen s))) (grow e (n + 1) (sbuf s)) = take (Suc (nat (slen s))) (sbuf s)"
    using l n by (intro take_grow) simp_all
  then have "grow e (n + 1) (sbuf s) ! nat (slen s) = NUL"
    using l(3,4) n by (metis lessI nth_take)
  moreover have "content ?s = content s"
    using l n by (simp add: content_def take_grow)
  ultimately have "sds_inv ?s \<and> slen ?s = slen s \<and> content ?s = content s \<and> int addlen \<le> sfree ?s"
    using l n n' by (simp add: sds_inv_def)
  with eq show ?thesis by auto
qed

lemma poke_twice:
  assumes "i + length t < length b"
  shows "\<exists>b1. poke b i t = Some b1 \<and> poke b1 (i + length t) [NUL] = Some (take i b @ t @ NUL # drop (i + length t + 1) b)"
  using assms by (simp add: poke_def)

lemma sdscatlen_refines:
  assumes "sds_inv s" "length (content s) + length t < 1073741824"
  shows "sdscatlen e s t = Null \<or>
    (\<exists>s'. sdscatlen e s t = Ptr s' \<and> sds_inv s' \<and> content s' = content s @ t)"
proof -
  from make_room [OF assms, of e] show ?thesis
  proof (elim disjE exE conjE)
    assume "sdsMakeRoomFor e s (length t) = Null"
    then show ?thesis by (simp add: sdscatlen_def)
  next
    fix s1
    assume r: "sdsMakeRoomFor e s (length t) = Ptr s1" "sds_inv s1" "slen s1 = slen s"
      "content s1 = content s" "int (length t) \<le> sfree s1"
    let ?c = "nat (slen s)"
    have c: "0 \<le> slen s" "sdslen s = ?c" "?c + length t < length (sbuf s1)"
      "length (sbuf s1) = nat (slen s + sfree s1) + 1" "slen s + sfree s1 < 2147483648"
      "?c < length (sbuf s)"
      using assms(1) r by (auto simp: sds_inv_def sdslen_inv)
    let ?b = "take ?c (sbuf s1) @ t @ NUL # drop (?c + length t + 1) (sbuf s1)"
    let ?s = "s1\<lparr>slen := slen s + int (length t), sfree := sfree s1 - int (length t), sbuf := ?b\<rparr>"
    have k: "c_int (int (?c + length t)) = slen s + int (length t)"
      "c_int (sfree s1 - int (length t)) = sfree s1 - int (length t)"
      using c(1,5) r(5) by (simp_all add: c_int_id)
    have "sdscatlen e s t = Ptr ?s"
      using poke_twice [OF c(3)] by (auto simp: sdscatlen_def c(2) r(1) k Let_def simp del: of_nat_add)
    moreover have "length (take ?c (sbuf s1)) = ?c" using c(3) by simp
    then have "sds_inv ?s" "content ?s = content s @ t"
      using c r(3-5) by (auto simp: sds_inv_def content_def nth_append nat_add_distrib)
    ultimately show ?thesis by blast
  qed
qed

lemma shrink_inv:
  assumes "sds_inv s" "m \<le> nat (slen s)" "length b = length (sbuf s)" "b ! m = NUL"
  shows "sds_inv (s\<lparr>sfree := sfree s + (slen s - int m), slen := int m, sbuf := b\<rparr>)"
  using assms by (auto simp: sds_inv_def)

lemma sdsrange_front:
  assumes "sds_inv s" "k \<le> length (content s)" "length (content s) < 1073741824"
  shows "\<exists>s'. sdsrange s (int k) (- 1) = Ptr s' \<and> sds_inv s' \<and> content s' = drop k (content s)"
proof -
  define n where "n = nat (slen s)"
  have n: "slen s = int n" "sdslen s = n" "k \<le> n" "n < 1073741824" "n < length (sbuf s)"
    "sfree s + int n < 2147483648" "0 \<le> sfree s"
    using assms by (auto simp: n_def sdslen_inv length_content sds_inv_def)
  have cont: "content s = take n (sbuf s)" by (simp add: content_def n_def)
  show ?thesis
  proof (cases "n = 0")
    case True
    then show ?thesis using assms n cont by (simp add: sdsrange_def)
  next
    case False
    define b where "b = take (n - k) (drop k (sbuf s)) @ NUL # drop (n - k + 1) (sbuf s)"
    define s' where "s' = s\<lparr>sfree := sfree s + (slen s - int (n - k)), slen := int (n - k), sbuf := b\<rparr>"
    have i: "c_int (int n - 1) = int n - 1" "c_int (int n) = int n"
      "c_int (sfree s + (slen s - int (n - k))) = sfree s + (slen s - int (n - k))"
      "c_int (int (n - k)) = int (n - k)"
      using n False by (simp_all add: c_int_id)
    have b: "length b = length (sbuf s)" "b ! (n - k) = NUL" "take (n - k) b = take (n - k) (drop k (sbuf s))"
      using n by (auto simp: b_def nth_append)
    have "sdsrange s (int k) (- 1) = Ptr s'"
    proof (cases "k = n")
      case True
      with n False i(1,3) show ?thesis
        by (simp add: sdsrange_def s'_def b_def poke_def Let_def)
    next
      case k: False
      have "nat (int n - 1 - int k + 1) = n - k" "Suc (n - k) \<le> length (sbuf s)" "k < n"
        using n k by simp_all
      moreover have "c_int (sfree s) = sfree s" using n by (simp add: c_int_id)
      ultimately show ?thesis
        using n False i
        by (cases "k = 0") (simp_all add: sdsrange_def s'_def b_def poke_def Let_def)
    qed
    moreover have "sds_inv s'"
      unfolding s'_def using assms(1) b n by (intro shrink_inv) simp_all
    moreover have "content s' = drop k (content s)"
      unfolding cont using b(3) by (simp add: content_def s'_def drop_take del: of_nat_diff)
    ultimately show ?thesis by blast
  qed
qed

interpretation sd: byte_string sds_inv content 1073741824 "sdscatlen e" "\<lambda>s k. sdsrange s (int k) (- 1)"
proof unfold_locales
  fix s s' :: sds and t :: string
  assume a: "sds_inv s" "length (content s) + length t < 1073741824"
  show "sdscatlen e s t \<noteq> Crash" using sdscatlen_refines [OF a, of e] by auto
  assume "sdscatlen e s t = Ptr s'"
  then show "sds_inv s'" "content s' = content s @ t" using sdscatlen_refines [OF a, of e] by auto
qed (rule sdsrange_front)

lemma sdsnewlen_refines:
  assumes "length t < 2147483647"
  shows "sdsnewlen e (Some t) (length t) = Null \<or>
    (\<exists>s. sdsnewlen e (Some t) (length t) = Ptr s \<and> sds_inv s \<and> content s = t)"
  using assms by (auto simp: sdsnewlen_def sds_inv_def content_def c_int_id)

lemma sdsempty_refines:
  "sdsempty e = Null \<or> (\<exists>s. sdsempty e = Ptr s \<and> sds_inv s \<and> content s = [])"
  using sdsnewlen_refines [of "[]" e] by (simp add: sdsempty_def)

text \<open>When every allocation succeeds.\<close>

lemma sdscatlen_ok:
  assumes "sds_inv s" "length (content s) + length t < 1073741824" "\<And>n. can_alloc e n"
  shows "\<exists>s'. sdscatlen e s t = Ptr s' \<and> sds_inv s' \<and> content s' = content s @ t"
proof -
  have "sdscatlen e s t \<noteq> Null"
    using assms(3) by (simp add: sdscatlen_def sdsMakeRoomFor_def Let_def split: option.splits)
  then show ?thesis using sdscatlen_refines [OF assms(1,2)] by blast
qed

lemma sdsempty_ok:
  assumes "\<And>n. can_alloc e n"
  shows "\<exists>s. sdsempty e = Ptr s \<and> sds_inv s \<and> content s = []"
  using sdsempty_refines [of e] assms by (auto simp: sdsempty_def sdsnewlen_def)

lemma sdsclear_refines:
  assumes "sds_inv s"
  shows "\<exists>s'. sdsclear s = Ptr s' \<and> sds_inv s' \<and> content s' = []"
  using assms by (auto simp: sdsclear_def poke_def sds_inv_def content_def c_int_id)

lemma sdscpylen_refines:
  assumes "sds_inv s" "length t < 1073741824"
  shows "sdscpylen e s t = Null \<or> (\<exists>s'. sdscpylen e s t = Ptr s' \<and> sds_inv s' \<and> content s' = t)"
proof -
  have tot: "c_size (sfree s + slen s) = nat (slen s + sfree s)"
    using assms(1) by (auto simp: sds_inv_def c_size_id add.commute)
  define r where "r = (if nat (slen s + sfree s) < length t
    then sdsMakeRoomFor e s (c_size (int (length t) - slen s)) else Ptr s)"
  have r: "r = Null \<or> (\<exists>s1. r = Ptr s1 \<and> sds_inv s1 \<and> int (length t) \<le> slen s1 + sfree s1)"
  proof (cases "nat (slen s + sfree s) < length t")
    case False
    then show ?thesis using assms(1) by (auto simp: r_def sds_inv_def)
  next
    case True
    define k where "k = nat (int (length t) - slen s)"
    have k: "c_size (int (length t) - slen s) = k" "length (content s) + k < 1073741824"
      "slen s + int k = int (length t)"
      using True assms by (auto simp: k_def c_size_id sds_inv_def length_content)
    show ?thesis
      using make_room [OF assms(1) k(2), of e] True k(1,3) by (auto simp: r_def)
  qed
  from r show ?thesis
  proof (elim disjE exE conjE)
    assume "r = Null"
    then show ?thesis by (simp add: sdscpylen_def tot Let_def flip: r_def)
  next
    fix s1
    assume s1: "r = Ptr s1" "sds_inv s1" "int (length t) \<le> slen s1 + sfree s1"
    define tl where "tl = slen s1 + sfree s1"
    have tl: "c_size (sfree s1 + slen s1) = nat tl" "0 \<le> tl" "tl < 2147483648"
      "length (sbuf s1) = nat tl + 1" "0 + length t < length (sbuf s1)" "int (length t) \<le> tl"
      using s1(2,3) by (auto simp: tl_def sds_inv_def c_size_id add.commute)
    let ?s = "s1\<lparr>slen := int (length t), sfree := tl - int (length t),
      sbuf := t @ NUL # drop (length t + 1) (sbuf s1)\<rparr>"
    have "sdscpylen e s t = Ptr ?s"
      using poke_twice [OF tl(5)] tl s1(1)
      by (auto simp: sdscpylen_def tot Let_def c_int_id simp flip: r_def)
    moreover have "sds_inv ?s" "content ?s = t"
      using tl by (auto simp: sds_inv_def content_def nth_append)
    ultimately show ?thesis by blast
  qed
qed

lemma sdsIncrLen_refines:
  assumes "sds_inv s" "0 \<le> incr" "incr \<le> sfree s"
  shows "\<exists>s'. sdsIncrLen s incr = Ptr s' \<and> sds_inv s' \<and> content s' = take (nat (slen s + incr)) (sbuf s)"
proof -
  have "nat (slen s + incr) < length (sbuf s)" using assms by (auto simp: sds_inv_def)
  with assms show ?thesis
    by (auto simp: sdsIncrLen_def Let_def c_int_id sds_inv_def poke_def content_def nth_append)
qed

section \<open>Properties\<close>

text \<open>C17 Appending to a dynamic string is a refinement of appending to a byte list: for a
  well-formed string and a total below 1 GiB \<^verbatim>\<open>sdscatlen\<close> either reports a failed allocation
  or returns a well-formed string (header fields consistent with the block, terminator in
  place) whose contents are the old contents followed by the new bytes; it never writes
  outside the block.\<close>

theorem sdscatlen_correct:
  assumes "sds_inv s" "length (content s) + length t < 1073741824"
  shows "sdscatlen e s t = Null \<or>
    (\<exists>s'. sdscatlen e s t = Ptr s' \<and> sds_inv s' \<and> content s' = content s @ t)"
  by (rule sdscatlen_refines [OF assms])

theorem sdscatlen_correct_witness:
  "sdscatlen \<lparr>can_alloc = (\<lambda>n. True), junk = (\<lambda>n. CHR ''?'')\<rparr> \<lparr>slen = 1, sfree = 0, sbuf = [CHR ''a'', NUL]\<rparr> ''bc'' = Null \<or>
    (\<exists>s'. sdscatlen \<lparr>can_alloc = (\<lambda>n. True), junk = (\<lambda>n. CHR ''?'')\<rparr> \<lparr>slen = 1, sfree = 0, sbuf = [CHR ''a'', NUL]\<rparr> ''bc'' = Ptr s' \<and>
       sds_inv s' \<and> content s' = content \<lparr>slen = 1, sfree = 0, sbuf = [CHR ''a'', NUL]\<rparr> @ ''bc'')"
  by (rule sdscatlen_correct) (simp_all add: sds_inv_def content_def)

text \<open>\<^verbatim>\<open>sdsrange(s, k, -1)\<close>, the way the reply reader discards consumed input, keeps the
  string well-formed and drops exactly the first \<open>k\<close> bytes.\<close>

lemma sdsrange_drops_prefix:
  assumes "sds_inv s" "k \<le> length (content s)" "length (content s) < 1073741824"
  shows "\<exists>s'. sdsrange s (int k) (- 1) = Ptr s' \<and> sds_inv s' \<and> content s' = drop k (content s)"
  by (rule sdsrange_front [OF assms])

lemma sdsrange_drops_prefix_witness:
  "\<exists>s'. sdsrange \<lparr>slen = 2, sfree = 0, sbuf = [CHR ''a'', CHR ''b'', NUL]\<rparr> (int 1) (- 1) = Ptr s' \<and> sds_inv s' \<and>
    content s' = drop 1 (content \<lparr>slen = 2, sfree = 0, sbuf = [CHR ''a'', CHR ''b'', NUL]\<rparr>)"
  by (rule sdsrange_drops_prefix) (simp_all add: sds_inv_def content_def)

end
