(* ===== verification/SdsText.thy ===== *)
theory SdsText
  imports Sds
begin

text \<open>
  The text operations of \<^verbatim>\<open>sds.c\<close>: numbers to text, the two formatted appends, splitting on a
  separator, the quoted representation and the argument splitter that reads it back, and
  joining.  Variadic arguments are a list of typed values; taking an argument of another
  type, or one that is not there, is a memory error.
\<close>

section \<open>Numbers\<close>

text \<open>The digit loop writes the digits from the last to the first; the second loop reverses
  the buffer in place.  The capacity is that of the caller's array.\<close>

function ll_digits :: "nat \<Rightarrow> string" where
  "ll_digits v = digit (v mod 10) # (if v div 10 \<noteq> 0 then ll_digits (v div 10) else [])"
  by pat_completeness auto
termination by (relation "measure id") auto

declare ll_digits.simps [simp del]

function rev_loop :: "string \<Rightarrow> nat \<Rightarrow> nat \<Rightarrow> string" where
  "rev_loop s i j = (if i < j then rev_loop (s[i := s ! j, j := s ! i]) (i + 1) (j - 1) else s)"
  by pat_completeness auto
termination by (relation "measure (\<lambda>(s, i, j). j)") auto

declare rev_loop.simps [simp del]

definition sdsll2str :: "nat \<Rightarrow> int \<Rightarrow> string ptr" where
  "sdsll2str cap value =
     (let v = c_size (if value < 0 then c_llong (- value) else value);
          t = ll_digits v @ (if value < 0 then ''-'' else []) in
      if length t + 1 \<le> cap then Ptr (rev_loop t 0 (length t - 1)) else Crash)"

definition sdsull2str :: "nat \<Rightarrow> nat \<Rightarrow> string ptr" where
  "sdsull2str cap v =
     (let t = ll_digits v in
      if length t + 1 \<le> cap then Ptr (rev_loop t 0 (length t - 1)) else Crash)"

definition sdsfromlonglong :: "menv \<Rightarrow> int \<Rightarrow> sds ptr" where
  "sdsfromlonglong e value =
     (let v = c_size (if value < 0 then c_llong (- value) else value);
          t = rev (ll_digits v @ (if value < 0 then ''-'' else [])) in
      if length t \<le> 32 then sdsnewlen e (Some t) (length t) else Crash)"

section \<open>Formatted appends\<close>

datatype va = VInt int | VLong int | VLLong int | VUInt nat | VULLong nat | VSize nat
  | VStr string | VSds sds | VDouble nat

definition SDS_LLSTR_SIZE :: nat where
  "SDS_LLSTR_SIZE = 21"

text \<open>\<^verbatim>\<open>out\<close> is the text \<^verbatim>\<open>vsnprintf\<close> produces for the format and arguments when nothing is
  cut off; the buffer doubles until the byte before the last is still zero.\<close>

function vprintf_buf :: "menv \<Rightarrow> string \<Rightarrow> nat \<Rightarrow> string ptr" where
  "vprintf_buf e out buflen =
     (if can_alloc e buflen then
        (if buflen - 2 < length out \<and> 2 \<le> buflen \<and> out ! (buflen - 2) \<noteq> NUL
         then vprintf_buf e out (buflen * 2)
         else Ptr (take (buflen - 1) out))
      else Null)"
  by pat_completeness auto
termination by (relation "measure (\<lambda>(e, out, buflen). length out + 2 - buflen)") auto

declare vprintf_buf.simps [simp del]

definition sdscatvprintf :: "menv \<Rightarrow> sds \<Rightarrow> string \<Rightarrow> sds ptr" where
  "sdscatvprintf e s out = check (vprintf_buf e out 16) (\<lambda>buf. sdscat e s buf)"

definition sdscatprintf :: "menv \<Rightarrow> sds \<Rightarrow> string \<Rightarrow> sds ptr" where
  "sdscatprintf e s out = sdscatvprintf e s out"

text \<open>The header is read again after every reallocation, so a null result is a memory error.\<close>

definition fmt_room :: "menv \<Rightarrow> sds \<Rightarrow> nat \<Rightarrow> sds ptr" where
  "fmt_room e s l = (if sfree s < int l then use (sdsMakeRoomFor e s l) Ptr else Ptr s)"

definition fmt_put :: "sds \<Rightarrow> nat \<Rightarrow> string \<Rightarrow> sds ptr" where
  "fmt_put s i t =
     (case poke (sbuf s) i t of
        None \<Rightarrow> Crash
      | Some b \<Rightarrow> Ptr (s\<lparr>slen := c_int (slen s + int (length t)), sfree := c_int (sfree s - int (length t)),
                        sbuf := b\<rparr>))"

text \<open>The text of one conversion, and the arguments left.\<close>

definition fmt_arg :: "char \<Rightarrow> va list \<Rightarrow> (string \<times> va list) ptr" where
  "fmt_arg n ap =
     (case ap of
        VStr t # ap' \<Rightarrow> if n = CHR ''s'' then Ptr (cstr t, ap') else Crash
      | VSds x # ap' \<Rightarrow> if n = CHR ''S'' then Ptr (take (sdslen x) (sbuf x), ap') else Crash
      | VInt v # ap' \<Rightarrow> if n = CHR ''i'' then use (sdsll2str SDS_LLSTR_SIZE v) (\<lambda>t. Ptr (t, ap')) else Crash
      | VLLong v # ap' \<Rightarrow> if n = CHR ''I'' then use (sdsll2str SDS_LLSTR_SIZE v) (\<lambda>t. Ptr (t, ap')) else Crash
      | VUInt v # ap' \<Rightarrow> if n = CHR ''u'' then use (sdsull2str SDS_LLSTR_SIZE v) (\<lambda>t. Ptr (t, ap')) else Crash
      | VULLong v # ap' \<Rightarrow> if n = CHR ''U'' then use (sdsull2str SDS_LLSTR_SIZE v) (\<lambda>t. Ptr (t, ap')) else Crash
      | VSize v # ap' \<Rightarrow> if n = CHR ''T'' then use (sdsull2str SDS_LLSTR_SIZE v) (\<lambda>t. Ptr (t, ap')) else Crash
      | _ \<Rightarrow> Crash)"

text \<open>A percent sign as the last byte makes the loop step over the terminator of the format.\<close>

fun catfmt_loop :: "menv \<Rightarrow> sds \<Rightarrow> nat \<Rightarrow> string \<Rightarrow> va list \<Rightarrow> (sds \<times> nat) ptr" where
  "catfmt_loop e s i [] ap = Ptr (s, i)"
| "catfmt_loop e s i [c] ap =
     use (if sfree s = 0 then sdsMakeRoomFor e s 1 else Ptr s) (\<lambda>s.
       if c = CHR ''%'' then Crash
       else use (fmt_put s i [c]) (\<lambda>s. Ptr (s, i + 1)))"
| "catfmt_loop e s i (c # n # f) ap =
     use (if sfree s = 0 then sdsMakeRoomFor e s 1 else Ptr s) (\<lambda>s.
       if c = CHR ''%'' then
         (if n \<in> set ''sSiIuUT'' then
            use (fmt_arg n ap) (\<lambda>(t, ap').
              use (fmt_room e s (length t)) (\<lambda>s.
                use (fmt_put s i t) (\<lambda>s. catfmt_loop e s (i + length t) f ap')))
          else use (fmt_put s i [n]) (\<lambda>s. catfmt_loop e s (i + 1) f ap))
       else use (fmt_put s i [c]) (\<lambda>s. catfmt_loop e s (i + 1) (n # f) ap))"

definition sdscatfmt :: "menv \<Rightarrow> sds \<Rightarrow> string \<Rightarrow> va list \<Rightarrow> sds ptr" where
  "sdscatfmt e s fmt ap =
     use (catfmt_loop e s (sdslen s) fmt ap) (\<lambda>(s, i).
       case poke (sbuf s) i [NUL] of None \<Rightarrow> Crash | Some b \<Rightarrow> Ptr (s\<lparr>sbuf := b\<rparr>))"

section \<open>Splitting on a separator\<close>

text \<open>\<open>slots\<close> is the capacity of the token array, \<open>start\<close> the first byte of the current token; the
  loop runs while \<^verbatim>\<open>j < len - (seplen - 1)\<close>.\<close>

function split_loop :: "menv \<Rightarrow> string \<Rightarrow> string \<Rightarrow> nat \<Rightarrow> nat \<Rightarrow> nat \<Rightarrow> sds list \<Rightarrow> sds list ptr" where
  "split_loop e s sep j slots start toks =
     (if j + length sep \<le> length s \<and> 0 < length sep then
        (let slots' = (if slots < length toks + 2 then slots * 2 else slots) in
         if slots < length toks + 2 \<and> \<not> can_alloc e (8 * slots') then Null
         else if (length sep = 1 \<and> s ! j = sep ! 0) \<or> take (length sep) (drop j s) = sep then
           check (sdsnewlen e (Some (drop start s)) (j - start)) (\<lambda>t.
             if length toks < slots'
             then split_loop e s sep (j + length sep) slots' (j + length sep) (toks @ [t]) else Crash)
         else split_loop e s sep (j + 1) slots' start toks)
      else
        check (sdsnewlen e (Some (drop start s)) (length s - start)) (\<lambda>t.
          if length toks < slots then Ptr (toks @ [t]) else Crash))"
  by pat_completeness auto
termination
  by (relation "measure (\<lambda>(e, s, sep, j, slots, start, toks). length s - j)")
    (auto simp flip: length_greater_0_conv)

declare split_loop.simps [simp del]

definition sdssplitlen :: "menv \<Rightarrow> string \<Rightarrow> string \<Rightarrow> sds list ptr" where
  "sdssplitlen e s sep =
     (if length sep < 1 then Null
      else if \<not> can_alloc e (8 * 5) then Null
      else if length s = 0 then Ptr []
      else split_loop e s sep 0 5 0 [])"

section \<open>The quoted representation\<close>

definition repr_char :: "menv \<Rightarrow> sds \<Rightarrow> char \<Rightarrow> sds ptr" where
  "repr_char e s p =
     (if p = CHR 0x5C \<or> p = CHR 0x22 then sdscatprintf e s [CHR 0x5C, p]
      else if p = LF then sdscatlen e s [CHR 0x5C, CHR ''n'']
      else if p = CR then sdscatlen e s [CHR 0x5C, CHR ''r'']
      else if p = CHR 0x09 then sdscatlen e s [CHR 0x5C, CHR ''t'']
      else if p = CHR 0x07 then sdscatlen e s [CHR 0x5C, CHR ''a'']
      else if p = CHR 0x08 then sdscatlen e s [CHR 0x5C, CHR ''b'']
      else if isprint p then sdscatprintf e s [p]
      else sdscatprintf e s [CHR 0x5C, CHR ''x'', hexdig (ord p div 16), hexdig (ord p mod 16)])"

fun repr_loop :: "menv \<Rightarrow> sds ptr \<Rightarrow> string \<Rightarrow> sds ptr" where
  "repr_loop e s [] = s"
| "repr_loop e s (p # ps) = repr_loop e (use s (\<lambda>s. repr_char e s p)) ps"

definition sdscatrepr :: "menv \<Rightarrow> sds \<Rightarrow> string \<Rightarrow> sds ptr" where
  "sdscatrepr e s t =
     use (repr_loop e (sdscatlen e s [CHR 0x22]) t) (\<lambda>s. sdscatlen e s [CHR 0x22])"

definition is_hex_digit :: "char \<Rightarrow> bool" where
  "is_hex_digit c \<longleftrightarrow> (48 \<le> ord c \<and> ord c \<le> 57) \<or> (97 \<le> ord c \<and> ord c \<le> 102) \<or>
     (65 \<le> ord c \<and> ord c \<le> 70)"

definition hex_digit_to_int :: "char \<Rightarrow> nat" where
  "hex_digit_to_int c =
     (if 48 \<le> ord c \<and> ord c \<le> 57 then ord c - 48
      else if 97 \<le> ord c \<and> ord c \<le> 102 then ord c - 87
      else if 65 \<le> ord c \<and> ord c \<le> 70 then ord c - 55
      else 0)"

text \<open>\<open>app\<close> is \<^verbatim>\<open>current = sdscatlen(current, ...)\<close>, whose result is not checked.\<close>

definition app :: "menv \<Rightarrow> sds ptr \<Rightarrow> string \<Rightarrow> sds ptr" where
  "app e cur t = use cur (\<lambda>s. sdscatlen e s t)"

definition unescape :: "char \<Rightarrow> char" where
  "unescape c =
     (if c = CHR ''n'' then LF else if c = CHR ''r'' then CR else if c = CHR ''t'' then CHR 0x09
      else if c = CHR ''b'' then CHR 0x08 else if c = CHR ''a'' then CHR 0x07 else c)"

text \<open>A closing quote must be followed by a space or by nothing.\<close>

definition close_quote :: "sds ptr \<Rightarrow> string \<Rightarrow> (sds ptr \<times> string) option" where
  "close_quote cur r = (if r \<noteq> [] \<and> \<not> isspace (hd r) then None else Some (cur, r))"

function tok_dq :: "menv \<Rightarrow> sds ptr \<Rightarrow> string \<Rightarrow> (sds ptr \<times> string) option" where
  "tok_dq e cur p =
     (case p of
        [] \<Rightarrow> None
      | c # r \<Rightarrow>
          if c = CHR 0x5C \<and> length r \<ge> 3 \<and> r ! 0 = CHR ''x'' \<and> is_hex_digit (r ! 1) \<and> is_hex_digit (r ! 2)
          then tok_dq e (app e cur [char_of (hex_digit_to_int (r ! 1) * 16 + hex_digit_to_int (r ! 2))]) (drop 3 r)
          else if c = CHR 0x5C \<and> r \<noteq> [] then tok_dq e (app e cur [unescape (hd r)]) (tl r)
          else if c = CHR 0x22 then close_quote cur r
          else tok_dq e (app e cur [c]) r)"
  by pat_completeness auto
termination by (relation "measure (\<lambda>(e, cur, p). length p)") auto

declare tok_dq.simps [simp del]

function tok_sq :: "menv \<Rightarrow> sds ptr \<Rightarrow> string \<Rightarrow> (sds ptr \<times> string) option" where
  "tok_sq e cur p =
     (case p of
        [] \<Rightarrow> None
      | c # r \<Rightarrow>
          if c = CHR 0x5C \<and> r \<noteq> [] \<and> hd r = CHR 0x27 then tok_sq e (app e cur [CHR 0x27]) (tl r)
          else if c = CHR 0x27 then close_quote cur r
          else tok_sq e (app e cur [c]) r)"
  by pat_completeness auto
termination by (relation "measure (\<lambda>(e, cur, p). length p)") auto

declare tok_sq.simps [simp del]

fun tok_plain :: "menv \<Rightarrow> sds ptr \<Rightarrow> string \<Rightarrow> (sds ptr \<times> string) option" where
  "tok_plain e cur [] = Some (cur, [])"
| "tok_plain e cur (c # r) =
     (if c = CHR '' '' \<or> c = LF \<or> c = CR \<or> c = CHR 0x09 then Some (cur, r)
      else if c = CHR 0x22 then tok_dq e cur r
      else if c = CHR 0x27 then tok_sq e cur r
      else tok_plain e (app e cur [c]) r)"

lemma tok_dq_shorter: "tok_dq e cur p = Some (cur', r) \<Longrightarrow> length r \<le> length p"
proof (induction e cur p rule: tok_dq.induct)
  case (1 e cur p)
  from "1.prems" show ?case
    by (subst (asm) tok_dq.simps) (force split: list.splits if_splits simp: close_quote_def dest: "1.IH")
qed

lemma tok_sq_shorter: "tok_sq e cur p = Some (cur', r) \<Longrightarrow> length r \<le> length p"
proof (induction e cur p rule: tok_sq.induct)
  case (1 e cur p)
  from "1.prems" show ?case
    by (subst (asm) tok_sq.simps) (force split: list.splits if_splits simp: close_quote_def dest: "1.IH")
qed

lemma tok_plain_shorter: "tok_plain e cur p = Some (cur', r) \<Longrightarrow> p \<noteq> [] \<Longrightarrow> length r < length p"
proof (induction e cur p rule: tok_plain.induct)
  case (2 e cur c p)
  then show ?case
    by (cases p) (auto split: if_splits dest!: tok_dq_shorter tok_sq_shorter)
qed simp

text \<open>The vector may hold a null pointer when the last append to a token failed.\<close>

function splitargs_loop :: "menv \<Rightarrow> string \<Rightarrow> sds ptr list \<Rightarrow> sds ptr list ptr" where
  "splitargs_loop e line vector =
     (let p = dropWhile isspace line in
      if p = [] then Ptr vector
      else
        (case tok_plain e (sdsempty e) p of
           None \<Rightarrow> Null
         | Some (cur, r) \<Rightarrow>
             if cur = Crash \<or> \<not> can_alloc e ((length vector + 1) * 8) then Crash
             else splitargs_loop e r (vector @ [cur])))"
  by pat_completeness auto
termination
proof (relation "measure (\<lambda>(e, line, v). length line)")
  fix e :: menv and line :: string and vector :: "sds ptr list" and x cur r z
  assume "x = dropWhile isspace line" "x \<noteq> []" "tok_plain e (sdsempty e) x = Some z" "(cur, r) = z"
  then have "length r < length x" using tok_plain_shorter by metis
  also have "\<dots> \<le> length line" using \<open>x = _\<close> by (simp add: length_dropWhile_le)
  finally show "((e, r, vector @ [cur]), e, line, vector) \<in> measure (\<lambda>(e, line, v). length line)" by simp
qed simp

declare splitargs_loop.simps [simp del]

definition sdssplitargs :: "menv \<Rightarrow> string \<Rightarrow> sds ptr list ptr" where
  "sdssplitargs e line = splitargs_loop e (cstr line) []"

section \<open>Joining\<close>

fun join_loop :: "menv \<Rightarrow> string \<Rightarrow> sds ptr \<Rightarrow> string list \<Rightarrow> sds ptr" where
  "join_loop e sep j [] = j"
| "join_loop e sep j [a] = use j (\<lambda>s. sdscatlen e s a)"
| "join_loop e sep j (a # b # as) =
     join_loop e sep (use (use j (\<lambda>s. sdscatlen e s a)) (\<lambda>s. sdscatlen e s sep)) (b # as)"

definition sdsjoin :: "menv \<Rightarrow> string list \<Rightarrow> string \<Rightarrow> sds ptr" where
  "sdsjoin e argv sep = join_loop e sep (sdsempty e) (map cstr argv)"

definition sdsjoinsds :: "menv \<Rightarrow> sds list \<Rightarrow> string \<Rightarrow> sds ptr" where
  "sdsjoinsds e argv sep = join_loop e sep (sdsempty e) (map (\<lambda>s. take (sdslen s) (sbuf s)) argv)"

section \<open>Numbers are written in decimal\<close>

lemma ll_digits_rev: "ll_digits v = rev (dec v)"
proof (induction v rule: ll_digits.induct)
  case (1 v)
  then show ?case
    by (cases "v < 10") (simp_all add: ll_digits.simps [of v] dec.simps [of v])
qed

lemma rev_loop_nth:
  "j < length s \<Longrightarrow> k < length s \<Longrightarrow>
   length (rev_loop s i j) = length s \<and> rev_loop s i j ! k = (if i \<le> k \<and> k \<le> j then s ! (i + j - k) else s ! k)"
proof (induction s i j arbitrary: k rule: rev_loop.induct)
  case (1 s i j)
  show ?case
  proof (cases "i < j")
    case True
    let ?s = "s[i := s ! j, j := s ! i]"
    have ih: "length (rev_loop ?s (i + 1) (j - 1)) = length s"
      "rev_loop ?s (i + 1) (j - 1) ! k = (if i + 1 \<le> k \<and> k \<le> j - 1 then ?s ! (i + j - k) else ?s ! k)"
      using "1.IH" [OF True, of k] "1.prems" True by auto
    consider "k = i" | "k = j" | "i < k \<and> k < j" | "k < i \<or> j < k" by linarith
    then show ?thesis
      using ih True "1.prems"
      by cases (auto simp: rev_loop.simps [of s i j] nth_list_update)
  next
    case False
    then have "i \<le> k \<and> k \<le> j \<Longrightarrow> i + j - k = k" by linarith
    then show ?thesis using False by (auto simp: rev_loop.simps [of s i j])
  qed
qed

lemma rev_loop_rev: "rev_loop t 0 (length t - 1) = rev t"
proof (cases "t = []")
  case True
  then show ?thesis by (simp add: rev_loop.simps)
next
  case False
  then have "length t - 1 < length t" by simp
  then show ?thesis
    using rev_loop_nth [of "length t - 1" t _ 0]
    by (intro nth_equalityI) (auto simp: rev_nth Suc_diff_Suc)
qed

lemma length_dec_bound: "v < 10 ^ n \<Longrightarrow> 0 < n \<Longrightarrow> length (dec v) \<le> n"
proof (induction v arbitrary: n rule: dec.induct)
  case (1 v)
  show ?case
  proof (cases "v < 10")
    case True
    then show ?thesis using "1.prems" by (simp add: dec.simps [of v])
  next
    case False
    obtain m where m: "n = Suc m" "0 < m"
      using "1.prems" False by (cases n; cases "n - 1") auto
    then have "v div 10 < 10 ^ m" using "1.prems" by (simp add: less_mult_imp_div_less mult.commute)
    then show ?thesis using "1.IH" [OF False _ m(2)] False m(1) by (simp add: dec.simps [of v])
  qed
qed

lemma sdsull2str_dec:
  assumes "v < 18446744073709551616"
  shows "sdsull2str SDS_LLSTR_SIZE v = Ptr (dec v)"
proof -
  have "length (dec v) \<le> 20" using assms by (intro length_dec_bound) simp_all
  then show ?thesis using rev_loop_rev [of "rev (dec v)"]
    by (simp add: sdsull2str_def ll_digits_rev SDS_LLSTR_SIZE_def Let_def)
qed

lemma magnitude:
  assumes "- 9223372036854775808 \<le> i" "i < 9223372036854775808"
  shows "c_size (if i < 0 then c_llong (- i) else i) = nat \<bar>i\<bar>" "length (dec (nat \<bar>i\<bar>)) \<le> 19"
proof -
  have "(if i < 0 then c_llong (- i) else i) mod 18446744073709551616 = \<bar>i\<bar>"
  proof (cases "i = - 9223372036854775808")
    case True
    then show ?thesis by (simp add: c_llong_def)
  next
    case False
    then show ?thesis using assms by (simp add: c_llong_id)
  qed
  then show "c_size (if i < 0 then c_llong (- i) else i) = nat \<bar>i\<bar>" by (simp add: c_size_def)
  have "nat \<bar>i\<bar> < 10 ^ 19" using assms by auto
  then show "length (dec (nat \<bar>i\<bar>)) \<le> 19" by (intro length_dec_bound) simp_all
qed

lemma sdsll2str_dec:
  assumes "- 9223372036854775808 \<le> i" "i < 9223372036854775808"
  shows "sdsll2str SDS_LLSTR_SIZE i = Ptr (dec_int i)"
proof -
  note m = magnitude [OF assms]
  define t where "t = rev (dec (nat \<bar>i\<bar>)) @ (if i < 0 then ''-'' else [])"
  have "length t \<le> 20" using m(2) by (cases "i < 0") (simp_all add: t_def)
  moreover have "rev t = dec_int i" by (auto simp: t_def dec_int_def)
  moreover have "sdsll2str SDS_LLSTR_SIZE i = (if length t + 1 \<le> 21 then Ptr (rev_loop t 0 (length t - 1)) else Crash)"
    unfolding sdsll2str_def Let_def m(1) ll_digits_rev t_def SDS_LLSTR_SIZE_def ..
  ultimately show ?thesis using rev_loop_rev [of t] by simp
qed

section \<open>Formatted appends append\<close>

text \<open>Inside \<^verbatim>\<open>sdscatfmt\<close> the string is well-formed except for its terminator.\<close>

definition sds_shape :: "sds \<Rightarrow> bool" where
  "sds_shape s \<longleftrightarrow> 0 \<le> slen s \<and> 0 \<le> sfree s \<and> slen s + sfree s < 2147483648 \<and>
     length (sbuf s) = nat (slen s + sfree s) + 1"

lemma shape_sdslen: "sds_shape s \<Longrightarrow> sdslen s = nat (slen s) \<and> sdsavail s = nat (sfree s)"
  by (simp add: sds_shape_def sdslen_def sdsavail_def c_arith)

lemma shape_length: "sds_shape s \<Longrightarrow> length (content s) = nat (slen s)"
  by (simp add: sds_shape_def content_def) linarith

lemma make_room_shape:
  assumes "sds_shape s" "length (content s) + addlen < 1073741824" "\<And>n. can_alloc e n"
  shows "\<exists>s'. sdsMakeRoomFor e s addlen = Ptr s' \<and> sds_shape s' \<and> slen s' = slen s \<and>
    content s' = content s \<and> int addlen \<le> sfree s'"
proof (cases "sdsavail s \<ge> addlen")
  case True
  then show ?thesis using assms(1) shape_sdslen [OF assms(1)] by (auto simp: sdsMakeRoomFor_def sds_shape_def)
next
  case False
  define n where "n = (if nat (slen s) + addlen < 1048576 then (nat (slen s) + addlen) * 2
    else nat (slen s) + addlen + 1048576)"
  have l: "0 \<le> slen s" "nat (slen s) + addlen < 1073741824" "nat (slen s) < length (sbuf s)"
    using assms shape_length [OF assms(1)] by (auto simp: sds_shape_def)
  have n: "nat (slen s) + addlen \<le> n" "n < 2147483648"
    using l(2) by (auto simp: n_def)
  have n': "slen s + int addlen \<le> int n" using n(1) l(1) by linarith
  let ?s = "s\<lparr>sfree := int n - slen s, sbuf := grow e (n + 1) (sbuf s)\<rparr>"
  have "sdsMakeRoomFor e s addlen = Ptr ?s"
    using False assms(3) shape_sdslen [OF assms(1)] n l
    by (simp add: sdsMakeRoomFor_def Let_def n_def [symmetric] c_int_id)
  moreover have "content ?s = content s"
    using l n by (simp add: content_def take_grow)
  ultimately show ?thesis using l n n' by (simp add: sds_shape_def)
qed

lemma fmt_put_shape:
  assumes "sds_shape s" "int (length t) \<le> sfree s" "i = nat (slen s)"
  shows "\<exists>s'. fmt_put s i t = Ptr s' \<and> sds_shape s' \<and> content s' = content s @ t \<and> nat (slen s') = i + length t"
proof -
  have b: "i + length t \<le> length (sbuf s)" "0 \<le> slen s" "slen s + sfree s < 2147483648"
    using assms by (auto simp: sds_shape_def)
  let ?s = "s\<lparr>slen := slen s + int (length t), sfree := sfree s - int (length t),
    sbuf := take i (sbuf s) @ t @ drop (i + length t) (sbuf s)\<rparr>"
  have "fmt_put s i t = Ptr ?s"
    using b assms(2) by (simp add: fmt_put_def poke_def c_int_id)
  moreover have "sds_shape ?s" using assms b by (auto simp: sds_shape_def)
  moreover have "content ?s = content s @ t"
    using assms(3) b by (auto simp: content_def nat_add_distrib)
  moreover have "nat (slen ?s) = i + length t" using assms(3) b by (simp add: nat_add_distrib)
  ultimately show ?thesis by blast
qed

lemma fmt_room_shape:
  assumes "sds_shape s" "length (content s) + l < 1073741824" "\<And>n. can_alloc e n"
  shows "\<exists>s'. fmt_room e s l = Ptr s' \<and> sds_shape s' \<and> slen s' = slen s \<and> content s' = content s \<and> int l \<le> sfree s'"
  using make_room_shape [OF assms] assms(1) by (auto simp: fmt_room_def)

lemma fmt_head_shape:
  assumes "sds_shape s" "length (content s) + 1 < 1073741824" "\<And>n. can_alloc e n"
  shows "\<exists>s'. (if sfree s = 0 then sdsMakeRoomFor e s 1 else Ptr s) = Ptr s' \<and> sds_shape s' \<and> slen s' = slen s \<and>
    content s' = content s \<and> 1 \<le> sfree s'"
  using make_room_shape [OF assms] assms(1) by (auto simp: sds_shape_def)

text \<open>What a format stands for.\<close>

fun fmt_text :: "string \<Rightarrow> va list \<Rightarrow> string ptr" where
  "fmt_text [] ap = Ptr []"
| "fmt_text [c] ap = (if c = CHR ''%'' then Crash else Ptr [c])"
| "fmt_text (c # n # f) ap =
     (if c = CHR ''%'' then
        (if n \<in> set ''sSiIuUT'' then
           use (fmt_arg n ap) (\<lambda>(t, ap'). use (fmt_text f ap') (\<lambda>u. Ptr (t @ u)))
         else use (fmt_text f ap) (\<lambda>u. Ptr (n # u)))
      else use (fmt_text (n # f) ap) (\<lambda>u. Ptr (c # u)))"

lemma use_Ptr: "use x f = Ptr y \<Longrightarrow> \<exists>z. x = Ptr z \<and> f z = Ptr y"
  by (cases x) auto

lemma catfmt_loop_text:
  "\<forall>n. can_alloc e n \<Longrightarrow> sds_shape s \<Longrightarrow> i = nat (slen s) \<Longrightarrow> fmt_text fmt ap = Ptr t \<Longrightarrow>
    length (content s) + length t + 1 < 1073741824 \<Longrightarrow>
    \<exists>s'. catfmt_loop e s i fmt ap = Ptr (s', nat (slen s')) \<and> sds_shape s' \<and> content s' = content s @ t"
proof (induction "length fmt" arbitrary: fmt s i ap t rule: less_induct)
  case less
  note room = less.prems(1) and IH = less.hyps [OF _ less.prems(1)]
  show ?case
  proof (cases fmt)
    case Nil
    then show ?thesis using less.prems by simp
  next
    case (Cons c f0)
    have "length (content s) + 1 < 1073741824" using less.prems(5) by simp
    with fmt_head_shape [of s e] less.prems(1,2) obtain s1 where
      s1: "(if sfree s = 0 then sdsMakeRoomFor e s 1 else Ptr s) = Ptr s1" "sds_shape s1"
      "slen s1 = slen s" "content s1 = content s" "1 \<le> sfree s1" by blast
    have i: "i = nat (slen s1)" using less.prems(3) s1(3) by simp
    have put1: "\<exists>s3. fmt_put s1 i [x] = Ptr s3 \<and> sds_shape s3 \<and> content s3 = content s @ [x] \<and> i + 1 = nat (slen s3)" for x
      using fmt_put_shape [of s1 "[x]" i] i s1 by auto
    show ?thesis
    proof (cases f0)
      case Nil
      then have "c \<noteq> CHR ''%''" "t = [c]" using less.prems(4) Cons by (simp_all split: if_splits)
      then show ?thesis using put1 [of c] s1(1) Cons Nil by auto
    next
      case (Cons n f)
      note fmt = \<open>fmt = c # f0\<close> Cons
      consider (arg) "c = CHR ''%''" "n \<in> set ''sSiIuUT''" | (esc) "c = CHR ''%''" "n \<notin> set ''sSiIuUT''"
        | (lit) "c \<noteq> CHR ''%''" by blast
      then show ?thesis
      proof cases
        case arg
        then obtain x ap' u where x: "fmt_arg n ap = Ptr (x, ap')" "fmt_text f ap' = Ptr u" "t = x @ u"
          using less.prems(4) fmt by (auto dest!: use_Ptr)
        obtain s2 where s2: "fmt_room e s1 (length x) = Ptr s2" "sds_shape s2" "slen s2 = slen s1" "content s2 = content s1"
          "int (length x) \<le> sfree s2"
          using fmt_room_shape [of s1 "length x" e] s1 less.prems(1,5) x(3) by auto
        obtain s3 where s3: "fmt_put s2 i x = Ptr s3" "sds_shape s3" "content s3 = content s2 @ x" "i + length x = nat (slen s3)"
          using fmt_put_shape [OF s2(2,5), of i] i s2(3) by auto
        obtain s4 where "catfmt_loop e s3 (i + length x) f ap' = Ptr (s4, nat (slen s4))" "sds_shape s4"
          "content s4 = content s3 @ u"
          using IH [of f s3 "i + length x" ap' u] s3 s2 s1 x less.prems(5) fmt by auto
        then show ?thesis using arg fmt s1 s2 s3 x by auto
      next
        case esc
        then obtain u where u: "fmt_text f ap = Ptr u" "t = n # u"
          using less.prems(4) fmt by (auto dest!: use_Ptr)
        obtain s3 where s3: "fmt_put s1 i [n] = Ptr s3" "sds_shape s3" "content s3 = content s @ [n]" "i + 1 = nat (slen s3)"
          using put1 by blast
        obtain s4 where "catfmt_loop e s3 (i + 1) f ap = Ptr (s4, nat (slen s4))" "sds_shape s4" "content s4 = content s3 @ u"
          using IH [of f s3 "i + 1" ap u] s3 u less.prems(5) fmt by auto
        then show ?thesis using esc fmt s1 s3 u by auto
      next
        case lit
        then obtain u where u: "fmt_text (n # f) ap = Ptr u" "t = c # u"
          using less.prems(4) fmt by (auto dest!: use_Ptr)
        obtain s3 where s3: "fmt_put s1 i [c] = Ptr s3" "sds_shape s3" "content s3 = content s @ [c]" "i + 1 = nat (slen s3)"
          using put1 by blast
        obtain s4 where "catfmt_loop e s3 (i + 1) (n # f) ap = Ptr (s4, nat (slen s4))" "sds_shape s4" "content s4 = content s3 @ u"
          using IH [of "n # f" s3 "i + 1" ap u] s3 u less.prems(5) fmt by auto
        then show ?thesis using lit fmt s1 s3 u by auto
      qed
    qed
  qed
qed

lemma shape_of_inv: "sds_inv s \<Longrightarrow> sds_shape s"
  by (simp add: sds_inv_def sds_shape_def)

lemma sdscatfmt_text:
  assumes "\<And>n. can_alloc e n" "sds_inv s" "fmt_text fmt ap = Ptr t"
    "length (content s) + length t + 1 < 1073741824"
  shows "\<exists>s'. sdscatfmt e s fmt ap = Ptr s' \<and> sds_inv s' \<and> content s' = content s @ t"
proof -
  have l: "sdslen s = nat (slen s)" using assms(2) by (simp add: sdslen_inv)
  obtain s1 where s1: "catfmt_loop e s (nat (slen s)) fmt ap = Ptr (s1, nat (slen s1))" "sds_shape s1"
    "content s1 = content s @ t"
    using catfmt_loop_text [of e s "nat (slen s)" fmt ap t] assms shape_of_inv by blast
  let ?n = "nat (slen s1)"
  have b: "?n < length (sbuf s1)" using s1(2) by (auto simp: sds_shape_def)
  let ?s = "s1\<lparr>sbuf := take ?n (sbuf s1) @ NUL # drop (Suc ?n) (sbuf s1)\<rparr>"
  have "sdscatfmt e s fmt ap = Ptr ?s"
    using s1(1) b by (simp add: sdscatfmt_def l poke_def)
  moreover have "sds_inv ?s" using s1(2) b by (auto simp: sds_inv_def sds_shape_def nth_append)
  moreover have "content ?s = content s1" using b by (simp add: content_def)
  ultimately show ?thesis using s1(3) by auto
qed

lemma cstr_cut: "k < length t \<Longrightarrow> t ! k = NUL \<Longrightarrow> cstr (take (Suc k) t) = cstr t"
proof -
  assume k: "k < length t" "t ! k = NUL"
  have "NUL \<in> set (take (Suc k) t)" using k by (metis in_set_conv_nth length_take lessI min_less_iff_conj nth_take)
  then have "takeWhile (\<lambda>c. c \<noteq> NUL) (take (Suc k) t @ drop (Suc k) t) = takeWhile (\<lambda>c. c \<noteq> NUL) (take (Suc k) t)"
    by (rule takeWhile_append1) simp
  then show ?thesis by (simp add: cstr_def)
qed

lemma vprintf_buf_ok:
  "\<forall>n. can_alloc e n \<Longrightarrow> 2 \<le> buflen \<Longrightarrow> \<exists>b. vprintf_buf e out buflen = Ptr b \<and> cstr b = cstr out"
proof (induction e out buflen rule: vprintf_buf.induct)
  case (1 e out buflen)
  show ?case
  proof (cases "buflen - 2 < length out \<and> out ! (buflen - 2) \<noteq> NUL")
    case True
    then show ?thesis using 1 by (simp add: vprintf_buf.simps [of e out buflen])
  next
    case False
    have "cstr (take (buflen - 1) out) = cstr out"
    proof (cases "buflen - 2 < length out")
      case True
      then show ?thesis using False cstr_cut [of "buflen - 2" out] "1.prems"(2) by (simp add: Suc_diff_le [symmetric] numeral_2_eq_2)
    qed (use "1.prems"(2) in auto)
    then show ?thesis using False "1.prems" by (auto simp: vprintf_buf.simps [of e out buflen])
  qed
qed

lemma sdscatvprintf_ok:
  assumes "\<And>n. can_alloc e n" "sds_inv s" "length (content s) + length (cstr out) < 1073741824"
  shows "\<exists>s'. sdscatvprintf e s out = Ptr s' \<and> sds_inv s' \<and> content s' = content s @ cstr out"
proof -
  obtain b where b: "vprintf_buf e out 16 = Ptr b" "cstr b = cstr out"
    using vprintf_buf_ok [of e 16 out] assms(1) by auto
  have "sdscatvprintf e s out = sdscatlen e s (cstr out)"
    using b by (simp add: sdscatvprintf_def sdscat_def)
  then show ?thesis using sdscatlen_ok [OF assms(2,3,1)] by simp
qed

section \<open>The quoted representation is read back\<close>

definition repr_text :: "char \<Rightarrow> string" where
  "repr_text p =
     (if p = CHR 0x5C \<or> p = CHR 0x22 then [CHR 0x5C, p]
      else if p = LF then [CHR 0x5C, CHR ''n'']
      else if p = CR then [CHR 0x5C, CHR ''r'']
      else if p = CHR 0x09 then [CHR 0x5C, CHR ''t'']
      else if p = CHR 0x07 then [CHR 0x5C, CHR ''a'']
      else if p = CHR 0x08 then [CHR 0x5C, CHR ''b'']
      else if isprint p then [p]
      else [CHR 0x5C, CHR ''x'', hexdig (ord p div 16), hexdig (ord p mod 16)])"

lemma ord_hexdig: "n < 16 \<Longrightarrow> ord (hexdig n) = (if n < 10 then 48 + n else 87 + n)"
  by (simp add: hexdig_def ord_char_of)

lemma hexdig_back:
  assumes "n < 16"
  shows "is_hex_digit (hexdig n)" "hex_digit_to_int (hexdig n) = n" "hexdig n \<noteq> NUL"
proof -
  show "is_hex_digit (hexdig n)" "hex_digit_to_int (hexdig n) = n"
    using assms by (auto simp: is_hex_digit_def hex_digit_to_int_def ord_hexdig)
  show "hexdig n \<noteq> NUL" using ord_hexdig [OF assms] by (auto simp: ord_def split: if_splits)
qed

lemma ord_halves: "ord p div 16 < 16" "ord p mod 16 < 16" "char_of (ord p div 16 * 16 + ord p mod 16) = p"
  using ord_less [of p] by (simp_all add: less_mult_imp_div_less)

lemma not_print_NUL: "\<not> isprint NUL"
  by (simp add: isprint_def ord_def)

lemma repr_text_no_NUL: "NUL \<notin> set (repr_text p)" "length (repr_text p) \<le> 4"
  using hexdig_back(3) [OF ord_halves(1), of p] hexdig_back(3) [OF ord_halves(2), of p]
  by (cases "p = NUL"; simp add: repr_text_def not_print_NUL)+

lemma cstr_no_NUL: "NUL \<notin> set t \<Longrightarrow> cstr t = t"
  by (auto simp: cstr_def intro!: takeWhile_eq_all_conv [THEN iffD2])

lemma repr_char_ok:
  assumes "\<And>n. can_alloc e n" "sds_inv s" "length (content s) + 4 < 1073741824"
  shows "\<exists>s'. repr_char e s p = Ptr s' \<and> sds_inv s' \<and> content s' = content s @ repr_text p"
proof -
  have "repr_char e s p = sdscatlen e s (repr_text p) \<or> repr_char e s p = sdscatprintf e s (repr_text p)"
    by (simp add: repr_char_def repr_text_def)
  moreover have "length (content s) + length (repr_text p) < 1073741824"
    using repr_text_no_NUL(2) [of p] assms(3) by linarith
  ultimately show ?thesis
    using sdscatlen_ok [OF assms(2) _ assms(1), of "repr_text p"]
      sdscatvprintf_ok [OF assms(1,2), of "repr_text p"] cstr_no_NUL [OF repr_text_no_NUL(1), of p]
    by (auto simp: sdscatprintf_def)
qed

lemma repr_loop_ok:
  assumes "\<And>n. can_alloc e n"
  shows "sds_inv s \<Longrightarrow> length (content s) + 4 * length x + 4 < 1073741824 \<Longrightarrow>
    \<exists>s'. repr_loop e (Ptr s) x = Ptr s' \<and> sds_inv s' \<and> content s' = content s @ concat (map repr_text x)"
proof (induction x arbitrary: s)
  case (Cons p x)
  obtain s1 where s1: "repr_char e s p = Ptr s1" "sds_inv s1" "content s1 = content s @ repr_text p"
    using repr_char_ok [OF assms Cons.prems(1), of p] Cons.prems(2) by auto
  have "length (content s1) + 4 * length x + 4 < 1073741824"
    using s1(3) repr_text_no_NUL(2) [of p] Cons.prems(2) by simp
  then show ?case using Cons.IH [OF s1(2)] s1 by simp
qed simp

definition repr :: "string \<Rightarrow> string" where
  "repr x = CHR 0x22 # concat (map repr_text x) @ [CHR 0x22]"

lemma sdscatrepr_ok:
  assumes "\<And>n. can_alloc e n" "sds_inv s" "length (content s) + 4 * length x + 6 < 1073741824"
  shows "\<exists>s'. sdscatrepr e s x = Ptr s' \<and> sds_inv s' \<and> content s' = content s @ repr x"
proof -
  obtain s1 where s1: "sdscatlen e s [CHR 0x22] = Ptr s1" "sds_inv s1" "content s1 = content s @ [CHR 0x22]"
    using sdscatlen_ok [OF assms(2) _ assms(1), of "[CHR 0x22]"] assms(3) by auto
  obtain s2 where s2: "repr_loop e (Ptr s1) x = Ptr s2" "sds_inv s2" "content s2 = content s1 @ concat (map repr_text x)"
    using repr_loop_ok [OF assms(1) s1(2), of x] s1(3) assms(3) by auto
  have "length (concat (map repr_text x)) \<le> 4 * length x"
    by (induction x) (auto, metis add_mono repr_text_no_NUL(2) numeral_Bit0)
  then have "length (content s2) + 1 < 1073741824" using s1(3) s2(3) assms(3) by simp
  then obtain s3 where "sdscatlen e s2 [CHR 0x22] = Ptr s3" "sds_inv s3" "content s3 = content s2 @ [CHR 0x22]"
    using sdscatlen_ok [OF s2(2) _ assms(1), of "[CHR 0x22]"] by auto
  then show ?thesis using s1 s2 by (simp add: sdscatrepr_def repr_def)
qed

lemma tok_dq_char:
  "tok_dq e cur (repr_text p @ r) = tok_dq e (app e cur [p]) r"
  using hexdig_back [OF ord_halves(1), of p] hexdig_back [OF ord_halves(2), of p] ord_halves(3) [of p]
  by (simp add: repr_text_def tok_dq.simps [of e cur "_ # _"] unescape_def)

lemma app_ok:
  assumes "\<And>n. can_alloc e n" "sds_inv s" "length (content s) + length t < 1073741824"
  shows "\<exists>s'. app e (Ptr s) t = Ptr s' \<and> sds_inv s' \<and> content s' = content s @ t"
  using sdscatlen_ok [OF assms(2,3,1)] by (simp add: app_def)

lemma tok_dq_repr:
  assumes "\<And>n. can_alloc e n" "r = [] \<or> isspace (hd r)"
  shows "sds_inv s \<Longrightarrow> length (content s) + length x < 1073741824 \<Longrightarrow>
    \<exists>s'. tok_dq e (Ptr s) (concat (map repr_text x) @ CHR 0x22 # r) = Some (Ptr s', r) \<and> sds_inv s' \<and>
      content s' = content s @ x"
proof (induction x arbitrary: s)
  case Nil
  then show ?case using assms(2) by (auto simp: tok_dq.simps [of e "Ptr s" "_ # _"] close_quote_def)
next
  case (Cons p x)
  obtain s1 where s1: "app e (Ptr s) [p] = Ptr s1" "sds_inv s1" "content s1 = content s @ [p]"
    using app_ok [OF assms(1) Cons.prems(1), of "[p]"] Cons.prems(2) by auto
  then show ?case using Cons.IH [OF s1(2)] Cons.prems(2) tok_dq_char by simp
qed

lemma repr_no_NUL: "NUL \<notin> set (repr x)"
  using repr_text_no_NUL(1) by (auto simp: repr_def)

lemma splitargs_repr:
  assumes "\<And>n. can_alloc e n" "length x < 1073741824"
  shows "\<exists>t. sdssplitargs e (repr x) = Ptr [Ptr t] \<and> sds_inv t \<and> content t = x"
proof -
  obtain s0 where s0: "sdsempty e = Ptr s0" "sds_inv s0" "content s0 = []"
    using sdsempty_ok [OF assms(1)] by blast
  obtain t where t: "tok_dq e (Ptr s0) (concat (map repr_text x) @ [CHR 0x22]) = Some (Ptr t, [])" "sds_inv t"
    "content t = x"
    using tok_dq_repr [OF assms(1), of "[]" s0 x] s0 assms(2) by auto
  have "isspace (CHR 0x22) = False" by (simp add: isspace_def ord_def)
  then have "splitargs_loop e (repr x) [] = splitargs_loop e [] [Ptr t]"
    using s0 t assms(1) unfolding repr_def
    by (subst splitargs_loop.simps) (simp add: Let_def)
  then show ?thesis
    using t cstr_no_NUL [OF repr_no_NUL, of x]
    by (simp add: sdssplitargs_def splitargs_loop.simps [of e "[]"])
qed

section \<open>Splitting and joining\<close>

fun joined :: "string \<Rightarrow> string list \<Rightarrow> string" where
  "joined sep [] = []"
| "joined sep [a] = a"
| "joined sep (a # b # as) = a @ sep @ joined sep (b # as)"

lemma joined_snoc: "joined sep (xs @ [a]) = concat (map (\<lambda>x. x @ sep) xs) @ a"
  by (induction sep xs rule: joined.induct) auto

lemma split_loop_spec:
  "\<forall>n. can_alloc e n \<Longrightarrow> sep \<noteq> [] \<Longrightarrow> length s < 2147483647 \<Longrightarrow> start \<le> j \<Longrightarrow> j \<le> length s \<Longrightarrow> length toks < slots \<Longrightarrow>
   \<forall>t \<in> set toks. sds_inv t \<and> (\<forall>c. sep = [c] \<longrightarrow> c \<notin> set (content t)) \<Longrightarrow>
   concat (map (\<lambda>t. content t @ sep) toks) = take start s \<Longrightarrow>
   \<forall>c. sep = [c] \<longrightarrow> c \<notin> set (take (j - start) (drop start s)) \<Longrightarrow>
   \<exists>toks'. split_loop e s sep j slots start toks = Ptr toks' \<and> joined sep (map content toks') = s \<and>
     (\<forall>t \<in> set toks'. sds_inv t \<and> (\<forall>c. sep = [c] \<longrightarrow> c \<notin> set (content t)))"
proof (induction "length s - j" arbitrary: j slots start toks rule: less_induct)
  case less
  note p = less.prems
  have new: "\<exists>t. sdsnewlen e (Some (drop start s)) k = Ptr t \<and> sds_inv t \<and> content t = take k (drop start s)"
    if "start + k \<le> length s" for k
    using that p(1,3) by (auto simp: sdsnewlen_def sds_inv_def content_def c_int_id nth_append)
  show ?case
  proof (cases "j + length sep \<le> length s")
    case False
    obtain t where t: "sdsnewlen e (Some (drop start s)) (length s - start) = Ptr t" "sds_inv t" "content t = drop start s"
      using new [of "length s - start"] p(4,5) by auto
    have "c \<notin> set (drop start s)" if "sep = [c]" for c
    proof -
      have "j = length s" using False p(5) that by simp
      then show ?thesis using p(9) that by simp
    qed
    moreover have "split_loop e s sep j slots start toks = Ptr (toks @ [t])"
      using False t(1) p(6) by (simp add: split_loop.simps [of e s])
    moreover have "joined sep (map content (toks @ [t])) = s"
      using p(8) t(3) by (simp add: joined_snoc comp_def)
    ultimately show ?thesis using t p(7) by auto
  next
    case True
    define slots' where "slots' = (if slots < length toks + 2 then slots * 2 else slots)"
    have sl: "length toks + 2 \<le> slots'" using p(6) by (simp add: slots'_def)
    have dec: "length s - (j + length sep) < length s - j" "length s - (j + 1) < length s - j"
      using True p(2) by (simp_all flip: length_greater_0_conv)
    have u: "split_loop e s sep j slots start toks =
        (if (length sep = 1 \<and> s ! j = sep ! 0) \<or> take (length sep) (drop j s) = sep then
           check (sdsnewlen e (Some (drop start s)) (j - start)) (\<lambda>t.
             if length toks < slots'
             then split_loop e s sep (j + length sep) slots' (j + length sep) (toks @ [t]) else Crash)
         else split_loop e s sep (j + 1) slots' start toks)"
      unfolding slots'_def using True p(1,2) by (subst split_loop.simps) (simp add: Let_def)
    show ?thesis
    proof (cases "take (length sep) (drop j s) = sep")
      case m: True
      obtain t where t: "sdsnewlen e (Some (drop start s)) (j - start) = Ptr t" "sds_inv t"
        "content t = take (j - start) (drop start s)"
        using new [of "j - start"] p(4,5) by auto
      have "take start s @ content t = take j s"
        using t(3) p(4) by (simp add: take_add [symmetric])
      moreover have "take j s @ sep = take (j + length sep) s" using m by (metis take_add)
      ultimately have "concat (map (\<lambda>t. content t @ sep) (toks @ [t])) = take (j + length sep) s"
        using p(8) by (simp flip: append.assoc)
      then obtain toks' where "split_loop e s sep (j + length sep) slots' (j + length sep) (toks @ [t]) = Ptr toks'"
          "joined sep (map content toks') = s"
          "\<forall>t \<in> set toks'. sds_inv t \<and> (\<forall>c. sep = [c] \<longrightarrow> c \<notin> set (content t))"
        using less.hyps [OF dec(1) p(1-3), of "j + length sep" "toks @ [t]" slots'] p(7,9) t(2,3) sl True by auto
      then show ?thesis using u m t sl by simp
    next
      case m: False
      have n1: "\<not> (length sep = 1 \<and> s ! j = sep ! 0)"
      proof
        assume a: "length sep = 1 \<and> s ! j = sep ! 0"
        then obtain c where "sep = [c]" by (cases sep) auto
        with a True m show False by (simp add: take_Suc_conv_app_nth drop_Suc nth_drop Cons_nth_drop_Suc [symmetric])
      qed
      have "c \<notin> set (take (j + 1 - start) (drop start s))" if "sep = [c]" for c
      proof -
        have "take (j + 1 - start) (drop start s) = take (j - start) (drop start s) @ [s ! j]"
          using p(4) True that by (simp add: Suc_diff_le take_Suc_conv_app_nth)
        then show ?thesis using p(9) n1 that by auto
      qed
      then obtain toks' where "split_loop e s sep (j + 1) slots' start toks = Ptr toks'"
          "joined sep (map content toks') = s"
          "\<forall>t \<in> set toks'. sds_inv t \<and> (\<forall>c. sep = [c] \<longrightarrow> c \<notin> set (content t))"
        using less.hyps [OF dec(2) p(1-3), of start toks slots'] p(4,7,8) sl True p(2)
        by (auto simp flip: length_greater_0_conv)
      then show ?thesis unfolding u using m n1 by auto
    qed
  qed
qed

lemma join_loop_ok:
  "\<forall>n. can_alloc e n \<Longrightarrow> sds_inv s \<Longrightarrow> length (content s) + length (joined sep as) < 1073741824 \<Longrightarrow>
   \<exists>s'. join_loop e sep (Ptr s) as = Ptr s' \<and> sds_inv s' \<and> content s' = content s @ joined sep as"
proof (induction sep as arbitrary: s rule: joined.induct)
  case (2 sep a)
  then show ?case using sdscatlen_ok [of s a e] by simp
next
  case (3 sep a b as)
  have "length (content s) + length a < 1073741824" using "3.prems"(3) by simp
  with 3 obtain s1 where s1: "sdscatlen e s a = Ptr s1" "sds_inv s1" "content s1 = content s @ a"
    using sdscatlen_ok [of s a e] by blast
  have "length (content s1) + length sep < 1073741824" using "3.prems"(3) s1(3) by simp
  with 3 s1(2) obtain s2 where s2: "sdscatlen e s1 sep = Ptr s2" "sds_inv s2" "content s2 = content s1 @ sep"
    using sdscatlen_ok [of s1 sep e] by blast
  show ?case using "3.IH" [OF "3.prems"(1) s2(2)] "3.prems"(3) s1 s2 by simp
qed simp

lemma content_taken: "sds_inv t \<Longrightarrow> take (sdslen t) (sbuf t) = content t"
  by (simp add: sdslen_inv content_def)

section \<open>Properties\<close>

text \<open>C30 The quoted representation is faithful: appending \<^verbatim>\<open>sdscatrepr\<close> of any bytes to an empty string
  and splitting the result with \<^verbatim>\<open>sdssplitargs\<close> gives one argument with exactly those bytes,
  whatever they are (quotes, backslashes, line ends, zero bytes, bytes above 127).\<close>

theorem sdscatrepr_roundtrip:
  assumes "\<And>n. can_alloc e n" "sds_inv s" "content s = []" "4 * length x + 6 < 1073741824"
  shows "\<exists>r t. sdscatrepr e s x = Ptr r \<and> sdssplitargs e (content r) = Ptr [Ptr t] \<and> content t = x"
proof -
  obtain r where "sdscatrepr e s x = Ptr r" "content r = repr x"
    using sdscatrepr_ok [OF assms(1,2), of x] assms(3,4) by auto
  then show ?thesis using splitargs_repr [OF assms(1), of x] assms(4) by auto
qed

theorem sdscatrepr_roundtrip_witness:
  "\<exists>r t. sdscatrepr \<lparr>can_alloc = (\<lambda>n. True), junk = (\<lambda>n. NUL)\<rparr> \<lparr>slen = 0, sfree = 0, sbuf = [NUL]\<rparr> [NUL, CHR 0x22, CHR 0xFF] = Ptr r \<and>
     sdssplitargs \<lparr>can_alloc = (\<lambda>n. True), junk = (\<lambda>n. NUL)\<rparr> (content r) = Ptr [Ptr t] \<and> content t = [NUL, CHR 0x22, CHR 0xFF]"
  by (rule sdscatrepr_roundtrip) (simp_all add: sds_inv_def content_def)

text \<open>Splitting loses nothing: for a non-empty string and separator \<^verbatim>\<open>sdssplitlen\<close> returns tokens
  that \<^verbatim>\<open>sdsjoinsds\<close> with the same separator puts together to the original bytes, and with a
  separator of one byte no token contains it.\<close>

lemma sdssplitlen_join:
  assumes "\<And>n. can_alloc e n" "sep \<noteq> []" "s \<noteq> []" "length s < 1073741824"
  shows "\<exists>toks j. sdssplitlen e s sep = Ptr toks \<and> sdsjoinsds e toks sep = Ptr j \<and> content j = s \<and>
    (\<forall>c. sep = [c] \<longrightarrow> (\<forall>t \<in> set toks. c \<notin> set (content t)))"
proof -
  obtain toks where t: "split_loop e s sep 0 5 0 [] = Ptr toks" "joined sep (map content toks) = s"
    "\<forall>t \<in> set toks. sds_inv t \<and> (\<forall>c. sep = [c] \<longrightarrow> c \<notin> set (content t))"
    using split_loop_spec [of e sep s 0 0 "[]" 5] assms by auto
  obtain s0 where s0: "sdsempty e = Ptr s0" "sds_inv s0" "content s0 = []"
    using sdsempty_ok [OF assms(1)] by blast
  have m: "map (\<lambda>s. take (sdslen s) (sbuf s)) toks = map content toks" using t(3) content_taken by simp
  have "\<exists>j. sdsjoinsds e toks sep = Ptr j \<and> content j = s"
    using join_loop_ok [of e s0 sep "map content toks"] assms s0 t(2) unfolding sdsjoinsds_def m by auto
  then show ?thesis using t(1,3) assms by (auto simp: sdssplitlen_def Suc_le_eq)
qed

lemma sdssplitlen_join_witness:
  "\<exists>toks j. sdssplitlen \<lparr>can_alloc = (\<lambda>n. True), junk = (\<lambda>n. NUL)\<rparr> ''a,,b'' '','' = Ptr toks \<and>
     sdsjoinsds \<lparr>can_alloc = (\<lambda>n. True), junk = (\<lambda>n. NUL)\<rparr> toks '','' = Ptr j \<and> content j = ''a,,b'' \<and>
     (\<forall>c. '','' = [c] \<longrightarrow> (\<forall>t \<in> set toks. c \<notin> set (content t)))"
  by (rule sdssplitlen_join) simp_all

text \<open>The number buffers are large enough: for every \<^verbatim>\<open>long long\<close>, the least one included, and every
  \<^verbatim>\<open>unsigned long long\<close> the conversions stay inside the 21 bytes of \<^verbatim>\<open>SDS_LLSTR_SIZE\<close>, terminator
  included, and give the decimal numeral.\<close>

lemma sdsll2str_decimal:
  "(- 9223372036854775808 \<le> i \<and> i < 9223372036854775808 \<longrightarrow> sdsll2str SDS_LLSTR_SIZE i = Ptr (dec_int i)) \<and>
   (v < 18446744073709551616 \<longrightarrow> sdsull2str SDS_LLSTR_SIZE v = Ptr (dec v))"
  using sdsll2str_dec sdsull2str_dec by blast

lemma sdsll2str_decimal_witness:
  "sdsll2str SDS_LLSTR_SIZE (- 9223372036854775808) = Ptr (dec_int (- 9223372036854775808)) \<and>
   sdsull2str SDS_LLSTR_SIZE 18446744073709551615 = Ptr (dec 18446744073709551615)"
  using sdsll2str_decimal [of "- 9223372036854775808" 18446744073709551615] by simp

end
