(* ===== verification/Protocol.thy ===== *)
theory Protocol
  imports Prelude
begin

text \<open>
  The wire format of the unified request protocol and of replies, as the comments of
  \<^verbatim>\<open>command.c\<close> and the Redis protocol description give it.  This is specification: the
  formatters, the request parser and the reply reader are each related to it.
\<close>

definition bulk :: "string \<Rightarrow> string" where
  "bulk s = CHR ''$'' # dec (length s) @ CRLF @ s @ CRLF"

definition multibulk :: "string list \<Rightarrow> string" where
  "multibulk argv = CHR ''*'' # dec (length argv) @ CRLF @ concat (map bulk argv)"

lemma length_bulk: "length (bulk s) = 5 + length (dec (length s)) + length s"
  by (simp add: bulk_def)

lemma length_le_bulks: "s \<in> set argv \<Longrightarrow> length s \<le> length (concat (map bulk argv))"
  by (induction argv) (auto simp: length_bulk)

lemma count_le_bulks: "length argv \<le> length (concat (map bulk argv))"
  by (induction argv) (auto simp: length_bulk)

end
