(* ===== verification/Format.thy ===== *)
theory Format
  imports SdsText Protocol
begin

text \<open>
  Model of the command formatters of \<^verbatim>\<open>hiredis.c\<close>: \<^verbatim>\<open>redisFormatCommandArgv\<close> and
  \<^verbatim>\<open>redisFormatSdsCommandArgv\<close> on an argument vector and \<^verbatim>\<open>redisvFormatCommand\<close> on a printf-like
  format.  The result is the command with the returned length, an error code, or a memory
  error (a failed assertion, a read past a string, an argument of the wrong type).  The
  text of a floating-point conversion is a parameter; integer conversions are written out.
\<close>

datatype fres = FOk string int | FErr int | FBug

section \<open>Lengths\<close>

function countDigits_loop :: "nat \<Rightarrow> nat \<Rightarrow> nat" where
  "countDigits_loop result v =
     (if v < 10 then result
      else if v < 100 then result + 1
      else if v < 1000 then result + 2
      else if v < 10000 then result + 3
      else countDigits_loop (result + 4) (v div 10000))"
  by pat_completeness auto
termination by (relation "measure snd") auto

declare countDigits_loop.simps [simp del]

definition countDigits :: "nat \<Rightarrow> nat" where
  "countDigits v = countDigits_loop 1 v"

definition bulklen :: "nat \<Rightarrow> nat" where
  "bulklen len = 1 + countDigits len + 2 + len + 2"

section \<open>Argument vectors\<close>

text \<open>The bytes of an argument: \<^verbatim>\<open>strlen\<close> decides unless a vector of lengths is given; a length
  beyond the argument's storage reads outside it.\<close>

definition arg_bytes :: "string \<Rightarrow> nat option \<Rightarrow> string option" where
  "arg_bytes a l =
     (case l of None \<Rightarrow> Some (cstr a) | Some n \<Rightarrow> if n \<le> length a then Some (take n a) else None)"

fun args_bytes :: "string list \<Rightarrow> nat list option \<Rightarrow> string list option" where
  "args_bytes [] l = Some []"
| "args_bytes (a # as) None =
     (case args_bytes as None of None \<Rightarrow> None | Some bs \<Rightarrow> Some (cstr a # bs))"
| "args_bytes (a # as) (Some []) = None"
| "args_bytes (a # as) (Some (n # ns)) =
     (case (arg_bytes a (Some n), args_bytes as (Some ns)) of
        (Some b, Some bs) \<Rightarrow> Some (b # bs)
      | _ \<Rightarrow> None)"

fun put_args :: "string list \<Rightarrow> string" where
  "put_args [] = []"
| "put_args (a # as) = CHR ''$'' # dec (length a) @ CRLF @ a @ CRLF @ put_args as"

definition put_cmd :: "string list \<Rightarrow> string" where
  "put_cmd args = CHR ''*'' # dec_int (int (length args)) @ CRLF @ put_args args"

text \<open>Filling a block of \<^verbatim>\<open>totlen + 1\<close> bytes and checking the assertion.\<close>

definition fill_cmd :: "menv \<Rightarrow> string list \<Rightarrow> int \<Rightarrow> fres" where
  "fill_cmd e args totlen =
     (if can_alloc e (c_size (c_int (totlen + 1))) then
        (if int (length (put_cmd args)) = totlen then FOk (put_cmd args) totlen else FBug)
      else FErr (- 1))"

definition redisFormatCommandArgv :: "menv \<Rightarrow> string list \<Rightarrow> nat list option \<Rightarrow> fres" where
  "redisFormatCommandArgv e argv argvlen =
     (case args_bytes argv argvlen of
        None \<Rightarrow> FBug
      | Some args \<Rightarrow>
          fill_cmd e args
            (foldl (\<lambda>totlen a. c_int (totlen + int (bulklen (length a))))
               (c_int (int (1 + countDigits (length argv) + 2))) args))"

fun sds_args :: "menv \<Rightarrow> sds ptr \<Rightarrow> string list \<Rightarrow> sds ptr" where
  "sds_args e cmd [] = cmd"
| "sds_args e cmd (a # as) =
     sds_args e
       (use (use (use cmd (\<lambda>s. sdscatfmt e s (''$%T'' @ CRLF) [VSize (length a)]))
              (\<lambda>s. sdscatlen e s a)) (\<lambda>s. sdscatlen e s CRLF)) as"

definition redisFormatSdsCommandArgv :: "menv \<Rightarrow> string list \<Rightarrow> nat list option \<Rightarrow> fres" where
  "redisFormatSdsCommandArgv e argv argvlen =
     (case args_bytes argv argvlen of
        None \<Rightarrow> FBug
      | Some args \<Rightarrow>
          (let totlen = foldl (\<lambda>totlen a. totlen + bulklen (length a)) (1 + countDigits (length argv) + 2) args in
           case check (sdsempty e) (\<lambda>cmd. sdsMakeRoomFor e cmd totlen) of
             Crash \<Rightarrow> FBug
           | Null \<Rightarrow> FErr (- 1)
           | Ptr cmd \<Rightarrow>
               (case sds_args e (sdscatfmt e cmd (''*%i'' @ CRLF) [VInt (int (length argv))]) args of
                  Ptr cmd \<Rightarrow>
                    if sdslen cmd = totlen then FOk (take (sdslen cmd) (sbuf cmd)) (c_int (int totlen)) else FBug
                | _ \<Rightarrow> FBug)))"

section \<open>Integer conversions of the C library\<close>

record ispec =
  f_alt :: bool
  f_zero :: bool
  f_minus :: bool
  f_plus :: bool
  f_space :: bool
  f_width :: nat
  f_prec :: "nat option"

text \<open>Digits in a base; capital letters for \<^verbatim>\<open>X\<close>.\<close>

function based :: "nat \<Rightarrow> bool \<Rightarrow> nat \<Rightarrow> string" where
  "based b up n =
     (let d = n mod b; c = (if up then c_toupper (hexdig d) else hexdig d) in
      if 2 \<le> b \<and> n div b \<noteq> 0 then based b up (n div b) @ [c] else [c])"
  by pat_completeness auto
termination
  by (relation "measure (\<lambda>(b, up, n). n)") (auto simp: div_eq_0_iff intro: div_less_dividend)

declare based.simps [simp del]

definition int_text :: "ispec \<Rightarrow> char \<Rightarrow> int \<Rightarrow> string" where
  "int_text sp conv v =
     (let base = (if conv = CHR ''o'' then 8 else if conv = CHR ''x'' \<or> conv = CHR ''X'' then 16 else 10);
          m = nat \<bar>v\<bar>;
          raw = (if f_prec sp = Some 0 \<and> m = 0 then [] else based base (conv = CHR ''X'') m);
          zs = (case f_prec sp of None \<Rightarrow> 0 | Some p \<Rightarrow> p - length raw);
          ds = replicate zs (CHR ''0'') @ raw;
          ds = (if conv = CHR ''o'' \<and> f_alt sp \<and> (ds = [] \<or> hd ds \<noteq> CHR ''0'') then CHR ''0'' # ds else ds);
          pre = (if conv = CHR ''d'' \<or> conv = CHR ''i'' then
                   (if v < 0 then ''-'' else if f_plus sp then ''+'' else if f_space sp then '' '' else [])
                 else if f_alt sp \<and> m \<noteq> 0 \<and> (conv = CHR ''x'' \<or> conv = CHR ''X'') then [CHR ''0'', conv]
                 else []);
          n = f_width sp - (length pre + length ds) in
      if f_minus sp then pre @ ds @ replicate n (CHR '' '')
      else if f_zero sp \<and> f_prec sp = None then pre @ replicate n (CHR ''0'') @ ds
      else replicate n (CHR '' '') @ pre @ ds)"

definition is_flag :: "char \<Rightarrow> bool" where
  "is_flag c \<longleftrightarrow> c \<in> set ''#0-+ ''"

text \<open>The conversion specification without its percent sign, up to the length modifier.\<close>

definition parse_spec :: "string \<Rightarrow> ispec \<times> string" where
  "parse_spec p =
     (let fl = takeWhile is_flag p; q = dropWhile is_flag p;
          w = takeWhile isdigit q; q = dropWhile isdigit q;
          (pr, q) = (case q of
            c # r \<Rightarrow> if c = CHR ''.'' then (Some (dval 0 (takeWhile isdigit r)), dropWhile isdigit r) else (None, q)
          | [] \<Rightarrow> (None, q)) in
      (\<lparr>f_alt = CHR ''#'' \<in> set fl, f_zero = CHR ''0'' \<in> set fl, f_minus = CHR ''-'' \<in> set fl,
        f_plus = CHR ''+'' \<in> set fl, f_space = CHR '' '' \<in> set fl, f_width = dval 0 w, f_prec = pr\<rparr>, q))"

text \<open>Conversion to a type of the given width, signed for \<^verbatim>\<open>d\<close> and \<^verbatim>\<open>i\<close>.\<close>

definition to_width :: "nat \<Rightarrow> char \<Rightarrow> int \<Rightarrow> int" where
  "to_width w conv v =
     (if conv = CHR ''d'' \<or> conv = CHR ''i'' then (v + 2 ^ (w - 1)) mod 2 ^ w - 2 ^ (w - 1) else v mod 2 ^ w)"

definition c_printf :: "(string \<Rightarrow> nat \<Rightarrow> string) \<Rightarrow> string \<Rightarrow> va \<Rightarrow> string" where
  "c_printf dbl fmt a =
     (let (sp, q) = parse_spec (tl fmt);
          conv = last fmt;
          w = (if take 2 q = ''hh'' then 8 else if take 1 q = ''h'' then 16
               else if take 1 q = ''l'' then 64 else 32) in
      case a of
        VInt v \<Rightarrow> int_text sp conv (to_width w conv v)
      | VLong v \<Rightarrow> int_text sp conv (to_width w conv v)
      | VLLong v \<Rightarrow> int_text sp conv (to_width w conv v)
      | VDouble d \<Rightarrow> dbl fmt d
      | _ \<Rightarrow> [])"

section \<open>Formats\<close>

datatype va_kind = KInt | KLong | KLLong | KDouble

fun has_kind :: "va_kind \<Rightarrow> va \<Rightarrow> bool" where
  "has_kind KInt (VInt v) = True"
| "has_kind KLong (VLong v) = True"
| "has_kind KLLong (VLLong v) = True"
| "has_kind KDouble (VDouble d) = True"
| "has_kind _ _ = False"

definition is_intfmt :: "char \<Rightarrow> bool" where
  "is_intfmt c \<longleftrightarrow> c \<in> set ''diouxX''"

definition is_dblfmt :: "char \<Rightarrow> bool" where
  "is_dblfmt c \<longleftrightarrow> c \<in> set ''eEfFgGaA''"

text \<open>Detecting a printf conversion: the argument it takes and the rest of the format from the
  conversion character on.  \<^verbatim>\<open>strchr\<close> also finds the terminator, so a format that ends inside a
  conversion is taken for an integer conversion.\<close>

definition int_after :: "va_kind \<Rightarrow> string \<Rightarrow> (va_kind \<times> string) option" where
  "int_after k q = (case q of [] \<Rightarrow> None | c # r \<Rightarrow> if is_intfmt c then Some (k, q) else None)"

definition detect_conv :: "string \<Rightarrow> (va_kind \<times> string) option" where
  "detect_conv p =
     (let q = dropWhile isdigit (dropWhile is_flag p);
          q = (case q of c # r \<Rightarrow> if c = CHR ''.'' then dropWhile isdigit r else q | [] \<Rightarrow> q) in
      case q of
        [] \<Rightarrow> Some (KInt, [])
      | c # r \<Rightarrow>
          if is_intfmt c then Some (KInt, q)
          else if is_dblfmt c then Some (KDouble, q)
          else if c = CHR ''h'' \<and> r \<noteq> [] \<and> hd r = CHR ''h'' then int_after KInt (tl r)
          else if c = CHR ''h'' then int_after KInt r
          else if c = CHR ''l'' \<and> r \<noteq> [] \<and> hd r = CHR ''l'' then int_after KLLong (tl r)
          else if c = CHR ''l'' then int_after KLong r
          else None)"

text \<open>The state of the loop, and how it ends.\<close>

record fst_state =
  curarg :: sds
  touched :: bool
  curargv :: "string list"
  f_totlen :: int

datatype floop = FEnd fst_state | FStop int | FCrash

definition bytes_of :: "sds \<Rightarrow> string" where
  "bytes_of s = take (sdslen s) (sbuf s)"

text \<open>Moving the current argument to the vector.\<close>

definition push_arg :: "menv \<Rightarrow> fst_state \<Rightarrow> fst_state option" where
  "push_arg e st =
     (if can_alloc e (8 * (length (curargv st) + 1)) then
        Some (st\<lparr>curargv := curargv st @ [bytes_of (curarg st)],
                 f_totlen := c_int (f_totlen st + int (bulklen (sdslen (curarg st))))\<rparr>)
      else None)"

definition new_arg :: "sds ptr \<Rightarrow> fst_state \<Rightarrow> (fst_state \<Rightarrow> floop) \<Rightarrow> floop" where
  "new_arg newarg st k =
     (case newarg of
        Crash \<Rightarrow> FCrash
      | Null \<Rightarrow> FStop (- 1)
      | Ptr s \<Rightarrow> k (st\<lparr>curarg := s, touched := True\<rparr>))"

lemma detect_conv_shorter: "detect_conv p = Some (k, q) \<Longrightarrow> length q \<le> length p"
proof -
  assume d: "detect_conv p = Some (k, q)"
  define q0 where "q0 = dropWhile isdigit (dropWhile is_flag p)"
  define q1 where "q1 = (case q0 of c # r \<Rightarrow> if c = CHR ''.'' then dropWhile isdigit r else q0 | [] \<Rightarrow> q0)"
  have "length q0 \<le> length p" unfolding q0_def by (meson le_trans length_dropWhile_le)
  moreover have "length q1 \<le> length q0"
    unfolding q1_def by (cases q0) (auto intro: le_trans [OF length_dropWhile_le])
  moreover have "length q \<le> length q1"
    using d unfolding detect_conv_def Let_def q0_def [symmetric] q1_def [symmetric]
    by (cases q1) (auto simp: int_after_def split: if_splits list.splits)
  ultimately show ?thesis by linarith
qed

function fmt_loop :: "(string \<Rightarrow> nat \<Rightarrow> string) \<Rightarrow> menv \<Rightarrow> string \<Rightarrow> va list \<Rightarrow> fst_state \<Rightarrow> floop" where
  "fmt_loop dbl e fmt ap st =
     (case fmt of
        [] \<Rightarrow> FEnd st
      | c # r \<Rightarrow>
          if c \<noteq> CHR ''%'' \<or> r = [] then
            (if c = CHR '' '' then
               (if touched st then
                  (case push_arg e st of
                     None \<Rightarrow> FStop (- 1)
                   | Some st' \<Rightarrow>
                       (case sdsempty e of
                          Ptr s \<Rightarrow> fmt_loop dbl e r ap (st'\<lparr>curarg := s, touched := False\<rparr>)
                        | _ \<Rightarrow> FStop (- 1)))
                else fmt_loop dbl e r ap st)
             else new_arg (sdscatlen e (curarg st) [c]) st (fmt_loop dbl e r ap))
          else
            (let k = hd r; r' = tl r in
             if k = CHR ''s'' then
               (case ap of
                  VStr a # ap' \<Rightarrow>
                    new_arg (if cstr a \<noteq> [] then sdscatlen e (curarg st) (cstr a) else Ptr (curarg st)) st
                      (fmt_loop dbl e r' ap')
                | _ \<Rightarrow> FCrash)
             else if k = CHR ''b'' then
               (case ap of
                  VStr a # VSize n # ap' \<Rightarrow>
                    if n \<le> length a then
                      new_arg (if n > 0 then sdscatlen e (curarg st) (take n a) else Ptr (curarg st)) st
                        (fmt_loop dbl e r' ap')
                    else FCrash
                | _ \<Rightarrow> FCrash)
             else if k = CHR ''%'' then
               new_arg (sdscat e (curarg st) ''%'') st (fmt_loop dbl e r' ap)
             else
               (case detect_conv r of
                  None \<Rightarrow> FStop (- 2)
                | Some (kind, q) \<Rightarrow>
                    (case ap of
                       [] \<Rightarrow> FCrash
                     | a # ap' \<Rightarrow>
                         if \<not> has_kind kind a then FCrash
                         else
                           (let l = length fmt - length q + 1 in
                            if l < 14 then
                              (if q = [] then FCrash
                               else new_arg (sdscatvprintf e (curarg st) (c_printf dbl (take l fmt) a)) st
                                      (fmt_loop dbl e (tl q) ap'))
                            else new_arg (Ptr (curarg st)) st (fmt_loop dbl e r' ap'))))))"
  by pat_completeness auto
termination
  by (relation "measure (\<lambda>(dbl, e, fmt, ap, st). length fmt)") (auto dest!: detect_conv_shorter)

declare fmt_loop.simps [simp del]

definition redisvFormatCommand :: "(string \<Rightarrow> nat \<Rightarrow> string) \<Rightarrow> menv \<Rightarrow> string \<Rightarrow> va list \<Rightarrow> fres" where
  "redisvFormatCommand dbl e format ap =
     (case sdsempty e of
        Ptr s \<Rightarrow>
          (case fmt_loop dbl e (cstr format) ap \<lparr>curarg = s, touched = False, curargv = [], f_totlen = 0\<rparr> of
             FCrash \<Rightarrow> FBug
           | FStop n \<Rightarrow> FErr n
           | FEnd st \<Rightarrow>
               (case (if touched st then push_arg e st else Some st) of
                  None \<Rightarrow> FErr (- 1)
                | Some st \<Rightarrow>
                    fill_cmd e (curargv st)
                      (c_int (f_totlen st + int (1 + countDigits (length (curargv st)) + 2)))))
      | _ \<Rightarrow> FErr (- 1))"

text \<open>\<^verbatim>\<open>redisFormatCommand\<close> turns every error code into -1.\<close>

definition redisFormatCommand :: "(string \<Rightarrow> nat \<Rightarrow> string) \<Rightarrow> menv \<Rightarrow> string \<Rightarrow> va list \<Rightarrow> fres" where
  "redisFormatCommand dbl e format ap =
     (case redisvFormatCommand dbl e format ap of
        FErr n \<Rightarrow> FErr (if n < 0 then - 1 else n)
      | FOk cmd len \<Rightarrow> if len < 0 then FErr (- 1) else FOk cmd len
      | FBug \<Rightarrow> FBug)"

section \<open>Lengths are exact\<close>

lemma length_dec_step: "10 \<le> v \<Longrightarrow> length (dec v) = Suc (length (dec (v div 10)))"
  by (simp add: dec.simps [of v])

lemma length_dec_small: "v < 10 \<Longrightarrow> length (dec v) = 1"
  by (simp add: dec.simps)

lemma countDigits_loop_dec: "Suc (countDigits_loop result v) = result + length (dec v)"
proof (induction result v rule: countDigits_loop.induct)
  case (1 result v)
  consider "v < 10" | "10 \<le> v" "v < 100" | "100 \<le> v" "v < 1000" | "1000 \<le> v" "v < 10000" | "10000 \<le> v" by linarith
  then show ?case
  proof cases
    case 5
    have "v div 10 div 10 div 10 div 10 = v div 10000" by (simp flip: div_mult2_eq)
    then have "length (dec v) = length (dec (v div 10000)) + 4"
      using 5 by (simp add: length_dec_step)
    then show ?thesis using 5 1 by (simp add: countDigits_loop.simps [of result v])
  qed (simp_all add: countDigits_loop.simps [of result v] length_dec_step length_dec_small)
qed

lemma countDigits_dec: "countDigits v = length (dec v)"
  using countDigits_loop_dec [of 1 v] by (simp add: countDigits_def)

lemma bulklen_bulk: "bulklen (length a) = length (bulk a)"
  by (simp add: bulklen_def countDigits_dec length_bulk)

lemma put_args_bulk: "put_args args = concat (map bulk args)"
  by (induction args) (simp_all add: bulk_def)

lemma put_cmd_multibulk: "put_cmd args = multibulk args"
  by (simp add: put_cmd_def multibulk_def put_args_bulk dec_int_def)

lemma length_multibulk:
  "length (multibulk args) = 1 + countDigits (length args) + 2 + sum_list (map (\<lambda>a. bulklen (length a)) args)"
  by (simp add: multibulk_def countDigits_dec bulklen_bulk length_concat comp_def)

lemma totlen_exact:
  "0 \<le> t \<Longrightarrow> t + int (sum_list (map (\<lambda>a. bulklen (length a)) args)) < 2147483648 \<Longrightarrow>
   foldl (\<lambda>totlen a. c_int (totlen + int (bulklen (length a)))) t args =
     t + int (sum_list (map (\<lambda>a. bulklen (length a)) args))"
proof (induction args arbitrary: t)
  case (Cons a args)
  have "c_int (t + int (bulklen (length a))) = t + int (bulklen (length a))"
    using Cons.prems by (intro c_int_id) simp_all
  then show ?case using Cons.IH [of "t + int (bulklen (length a))"] Cons.prems by simp
qed simp

lemma totlen_nat: "foldl (\<lambda>totlen a. totlen + bulklen (length a)) t args = t + sum_list (map (\<lambda>a. bulklen (length a)) args)"
  by (induction args arbitrary: t) simp_all

lemma args_bytes_length: "args_bytes argv l = Some args \<Longrightarrow> length args = length argv"
  by (induction argv l arbitrary: args rule: args_bytes.induct) (auto split: option.splits)

lemma fill_cmd_ok:
  assumes "\<And>n. can_alloc e n" "totlen = int (length (multibulk args))"
  shows "fill_cmd e args totlen = FOk (multibulk args) totlen"
  using assms by (simp add: fill_cmd_def put_cmd_multibulk)

lemma format_argv:
  assumes "\<And>n. can_alloc e n" "args_bytes argv l = Some args" "length (multibulk args) < 2147483648"
  shows "redisFormatCommandArgv e argv l = FOk (multibulk args) (int (length (multibulk args)))"
proof -
  define t where "t = 1 + countDigits (length argv) + 2"
  have n: "length args = length argv" using args_bytes_length [OF assms(2)] .
  have len: "length (multibulk args) = t + sum_list (map (\<lambda>a. bulklen (length a)) args)"
    using length_multibulk [of args] n by (simp add: t_def)
  have "c_int (int t) = int t" using len assms(3) by (intro c_int_id) simp_all
  then have "foldl (\<lambda>totlen a. c_int (totlen + int (bulklen (length a)))) (c_int (int t)) args = int (length (multibulk args))"
    using totlen_exact [of "int t" args] len assms(3) by simp
  then show ?thesis
    using fill_cmd_ok [OF assms(1)] assms(2) by (simp only: redisFormatCommandArgv_def option.case t_def)
qed

lemma head_text: "0 \<le> n \<Longrightarrow> n < 2147483648 \<Longrightarrow> fmt_text (''*%i'' @ CRLF) [VInt n] = Ptr (CHR ''*'' # dec_int n @ CRLF)"
  by (simp add: fmt_arg_def sdsll2str_dec)

lemma bulk_head_text: "n < 18446744073709551616 \<Longrightarrow> fmt_text (''$%T'' @ CRLF) [VSize n] = Ptr (CHR ''$'' # dec n @ CRLF)"
  by (simp add: fmt_arg_def sdsull2str_dec)

lemma sds_args_ok:
  assumes "\<And>n. can_alloc e n"
  shows "sds_inv s \<Longrightarrow> length (content s) + length (put_args args) + 1 < 1073741824 \<Longrightarrow>
    \<exists>s'. sds_args e (Ptr s) args = Ptr s' \<and> sds_inv s' \<and> content s' = content s @ put_args args"
proof (induction args arbitrary: s)
  case (Cons a args)
  have b: "length (content s) + length (CHR ''$'' # dec (length a) @ CRLF) + 1 < 1073741824"
    using Cons.prems(2) by simp
  have "length a < 18446744073709551616" using Cons.prems(2) by simp
  from sdscatfmt_text [OF assms Cons.prems(1) bulk_head_text [OF this] b] obtain s1 where
    s1: "sdscatfmt e s (''$%T'' @ CRLF) [VSize (length a)] = Ptr s1" "sds_inv s1"
    "content s1 = content s @ CHR ''$'' # dec (length a) @ CRLF" by blast
  obtain s2 where s2: "sdscatlen e s1 a = Ptr s2" "sds_inv s2" "content s2 = content s1 @ a"
    using sdscatlen_ok [OF s1(2) _ assms, of a] s1(3) Cons.prems(2) by auto
  obtain s3 where s3: "sdscatlen e s2 CRLF = Ptr s3" "sds_inv s3" "content s3 = content s2 @ CRLF"
    using sdscatlen_ok [OF s2(2) _ assms, of CRLF] s1(3) s2(3) Cons.prems(2) by auto
  have "content s3 = content s @ CHR ''$'' # dec (length a) @ CRLF @ a @ CRLF" using s1(3) s2(3) s3(3) by simp
  then show ?case using Cons.IH [OF s3(2)] Cons.prems(2) s1(1) s2(1) s3(1) by simp
qed simp

lemma format_sds_argv:
  assumes "\<And>n. can_alloc e n" "args_bytes argv l = Some args" "length (multibulk args) + 1 < 1073741824"
  shows "redisFormatSdsCommandArgv e argv l = FOk (multibulk args) (int (length (multibulk args)))"
proof -
  let ?t = "1 + countDigits (length argv) + 2 + sum_list (map (\<lambda>a. bulklen (length a)) args)"
  have n: "length args = length argv" using args_bytes_length [OF assms(2)] .
  have len: "length (multibulk args) = ?t" using length_multibulk [of args] n by simp
  have argc: "length argv < 1073741824"
    using n assms(3) count_le_bulks [of args] by (simp add: multibulk_def)
  obtain s0 where s0: "sdsempty e = Ptr s0" "sds_inv s0" "content s0 = []" using sdsempty_ok [OF assms(1)] by blast
  have "sdsMakeRoomFor e s0 ?t \<noteq> Null" using assms(1) by (simp add: sdsMakeRoomFor_def Let_def)
  then obtain s1 where s1: "sdsMakeRoomFor e s0 ?t = Ptr s1" "sds_inv s1" "content s1 = []"
    using make_room [OF s0(2), of ?t e] s0(3) assms(3) len by auto
  have "0 \<le> int (length argv)" "int (length argv) < 2147483648" using argc by simp_all
  note h = head_text [OF this]
  have "length (dec_int (int (length argv))) = countDigits (length argv)" by (simp add: dec_int_def countDigits_dec)
  then have "length (content s1) + length (CHR ''*'' # dec_int (int (length argv)) @ CRLF) + 1 < 1073741824"
    using s1(3) assms(3) len by simp
  from sdscatfmt_text [OF assms(1) s1(2) h this] obtain s2 where
    s2: "sdscatfmt e s1 (''*%i'' @ CRLF) [VInt (int (length argv))] = Ptr s2" "sds_inv s2"
    "content s2 = CHR ''*'' # dec_int (int (length argv)) @ CRLF" using s1(3) by auto
  have mb: "content s2 @ put_args args = multibulk args"
    using s2(3) n by (simp add: multibulk_def put_args_bulk dec_int_def)
  obtain s3 where s3: "sds_args e (Ptr s2) args = Ptr s3" "sds_inv s3" "content s3 = multibulk args"
    using sds_args_ok [OF assms(1) s2(2), of args] assms(3) mb by (metis add_Suc_right length_append plus_1_eq_Suc add.commute)
  have l3: "sdslen s3 = ?t" "take (sdslen s3) (sbuf s3) = multibulk args" "c_int (int ?t) = int ?t"
    using sdslen_content [OF s3(2)] content_taken [OF s3(2)] s3(3) len assms(3) by (simp_all add: c_int_id)
  then show ?thesis
    using assms(2) s0(1) s1(1) s2(1) s3(1) len
    by (simp add: redisFormatSdsCommandArgv_def totlen_nat Let_def)
qed

section \<open>Formats are interpolated\<close>

text \<open>A format as its user means it: words of literal characters and interpolations.\<close>

datatype piece = PChar char | PStr string | PBin string | PPct | PInt int

fun render :: "piece \<Rightarrow> string" where
  "render (PChar c) = [c]"
| "render (PStr s) = ''%s''"
| "render (PBin s) = ''%b''"
| "render PPct = ''%%''"
| "render (PInt i) = ''%d''"

fun piece_args :: "piece \<Rightarrow> va list" where
  "piece_args (PStr s) = [VStr s]"
| "piece_args (PBin s) = [VStr s, VSize (length s)]"
| "piece_args (PInt i) = [VInt i]"
| "piece_args _ = []"

fun piece_text :: "piece \<Rightarrow> string" where
  "piece_text (PChar c) = [c]"
| "piece_text (PStr s) = s"
| "piece_text (PBin s) = s"
| "piece_text PPct = ''%''"
| "piece_text (PInt i) = dec_int i"

fun wf_piece :: "piece \<Rightarrow> bool" where
  "wf_piece (PChar c) = (c \<noteq> CHR '' '' \<and> c \<noteq> CHR ''%'' \<and> c \<noteq> NUL)"
| "wf_piece (PStr s) = (NUL \<notin> set s)"
| "wf_piece (PInt i) = (- 2147483648 \<le> i \<and> i < 2147483648)"
| "wf_piece _ = True"

lemma based_dec: "based 10 False n = dec n"
proof (induction n rule: less_induct)
  case (less n)
  have d: "hexdig (n mod 10) = digit (n mod 10)" by (simp add: hexdig_def)
  show ?case
  proof (cases "n < 10")
    case True
    then show ?thesis using d by (simp add: based.simps [of 10 False n] dec.simps [of n])
  next
    case False
    then show ?thesis using d less [of "n div 10"]
      by (simp add: based.simps [of 10 False n] dec.simps [of n] Let_def div_greater_zero_iff)
  qed
qed

definition plain_spec :: ispec where
  "plain_spec = \<lparr>f_alt = False, f_zero = False, f_minus = False, f_plus = False, f_space = False, f_width = 0,
     f_prec = None\<rparr>"

lemma d_class: "\<not> is_flag (CHR ''d'')" "\<not> isdigit (CHR ''d'')" "is_intfmt (CHR ''d'')"
  by (simp_all add: is_flag_def is_intfmt_def isdigit_def ord_def)

lemma parse_spec_d: "parse_spec ''d'' = (plain_spec, ''d'')"
  by (simp add: parse_spec_def d_class plain_spec_def)

lemma int_text_d: "int_text plain_spec (CHR ''d'') i = dec_int i"
  by (simp add: int_text_def plain_spec_def Let_def based_dec dec_int_def)

lemma printf_d: "- 2147483648 \<le> i \<Longrightarrow> i < 2147483648 \<Longrightarrow> c_printf dbl ''%d'' (VInt i) = dec_int i"
  by (simp add: c_printf_def parse_spec_d to_width_def int_text_d)

lemma cstr_dec_int: "cstr (dec_int i) = dec_int i"
  using dec_digits [of NUL] by (intro cstr_no_NUL) (auto simp: dec_int_def)

lemma detect_d: "detect_conv (CHR ''d'' # r) = Some (KInt, CHR ''d'' # r)"
  by (simp add: detect_conv_def d_class)

text \<open>One piece extends the current argument by its text.\<close>

lemma piece_step:
  assumes "\<And>n. can_alloc e n" "wf_piece p" "sds_inv (curarg st)"
    "length (content (curarg st)) + length (piece_text p) < 1073741824"
  shows "\<exists>s'. fmt_loop dbl e (render p @ r) (piece_args p @ ap) st =
      fmt_loop dbl e r ap (st\<lparr>curarg := s', touched := True\<rparr>) \<and> sds_inv s' \<and>
      content s' = content (curarg st) @ piece_text p"
proof -
  have cat: "\<exists>s'. sdscatlen e (curarg st) t = Ptr s' \<and> sds_inv s' \<and> content s' = content (curarg st) @ t"
    if "length t \<le> length (piece_text p)" for t
    using sdscatlen_ok [OF assms(3) _ assms(1), of t] that assms(4) by simp
  have cat0: "\<exists>s'. (if t \<noteq> [] then sdscatlen e (curarg st) t else Ptr (curarg st)) = Ptr s' \<and> sds_inv s' \<and>
      content s' = content (curarg st) @ t"
    if "length t \<le> length (piece_text p)" for t
    using cat [OF that] assms(3) by (cases "t = []") auto
  show ?thesis
  proof (cases p)
    case (PChar c)
    then show ?thesis using cat [of "[c]"] assms(2)
      by (auto simp: fmt_loop.simps [of dbl e "c # r"] new_arg_def)
  next
    case (PStr s)
    have "cstr s = s" using PStr assms(2) by (simp add: cstr_no_NUL)
    then have u: "fmt_loop dbl e (''%s'' @ r) (VStr s # ap) st =
        new_arg (if s \<noteq> [] then sdscatlen e (curarg st) s else Ptr (curarg st)) st (fmt_loop dbl e r ap)"
      by (simp add: fmt_loop.simps [of dbl e "CHR ''%'' # _"])
    obtain s' where "(if s \<noteq> [] then sdscatlen e (curarg st) s else Ptr (curarg st)) = Ptr s'" "sds_inv s'"
      "content s' = content (curarg st) @ s"
      using cat0 [of s] PStr by auto
    then show ?thesis using PStr u by (intro exI [of _ s']) (simp add: new_arg_def)
  next
    case (PBin s)
    have u: "fmt_loop dbl e (''%b'' @ r) (VStr s # VSize (length s) # ap) st =
        new_arg (if s \<noteq> [] then sdscatlen e (curarg st) s else Ptr (curarg st)) st (fmt_loop dbl e r ap)"
      by (simp add: fmt_loop.simps [of dbl e "CHR ''%'' # _"])
    obtain s' where "(if s \<noteq> [] then sdscatlen e (curarg st) s else Ptr (curarg st)) = Ptr s'" "sds_inv s'"
      "content s' = content (curarg st) @ s"
      using cat0 [of s] PBin by auto
    then show ?thesis using PBin u by (intro exI [of _ s']) (simp add: new_arg_def)
  next
    case PPct
    have "cstr ''%'' = ''%''" by (simp add: cstr_def)
    then show ?thesis using PPct cat [of "''%''"]
      by (auto simp: fmt_loop.simps [of dbl e "CHR ''%'' # _"] new_arg_def sdscat_def)
  next
    case (PInt i)
    have t: "c_printf dbl ''%d'' (VInt i) = dec_int i" using PInt assms(2) by (simp add: printf_d)
    obtain s' where "sdscatvprintf e (curarg st) (dec_int i) = Ptr s'" "sds_inv s'"
      "content s' = content (curarg st) @ dec_int i"
      using sdscatvprintf_ok [OF assms(1,3), of "dec_int i"] assms(4) PInt cstr_dec_int by auto
    then show ?thesis using PInt t
      by (auto simp: fmt_loop.simps [of dbl e "CHR ''%'' # _"] new_arg_def detect_d numeral_2_eq_2)
  qed
qed

lemma word_step:
  assumes "\<And>n. can_alloc e n"
  shows "list_all wf_piece ps \<Longrightarrow> sds_inv (curarg st) \<Longrightarrow>
    length (content (curarg st)) + length (concat (map piece_text ps)) < 1073741824 \<Longrightarrow>
    \<exists>s'. fmt_loop dbl e (concat (map render ps) @ r) (concat (map piece_args ps) @ ap) st =
      fmt_loop dbl e r ap (st\<lparr>curarg := s', touched := touched st \<or> ps \<noteq> []\<rparr>) \<and> sds_inv s' \<and>
      content s' = content (curarg st) @ concat (map piece_text ps)"
proof (induction ps arbitrary: st)
  case Nil
  then show ?case by (intro exI [of _ "curarg st"]) simp
next
  case (Cons p ps)
  have "length (content (curarg st)) + length (piece_text p) < 1073741824" using Cons.prems(3) by simp
  then obtain s1 where s1: "fmt_loop dbl e (render p @ concat (map render ps) @ r) (piece_args p @ concat (map piece_args ps) @ ap) st =
      fmt_loop dbl e (concat (map render ps) @ r) (concat (map piece_args ps) @ ap) (st\<lparr>curarg := s1, touched := True\<rparr>)"
      "sds_inv s1" "content s1 = content (curarg st) @ piece_text p"
    using piece_step [OF assms, of p st dbl "concat (map render ps) @ r" "concat (map piece_args ps) @ ap"] Cons.prems by auto
  obtain s2 where "fmt_loop dbl e (concat (map render ps) @ r) (concat (map piece_args ps) @ ap) (st\<lparr>curarg := s1, touched := True\<rparr>) =
      fmt_loop dbl e r ap (st\<lparr>curarg := s2, touched := True\<rparr>)" "sds_inv s2"
      "content s2 = content s1 @ concat (map piece_text ps)"
    using Cons.IH [of "st\<lparr>curarg := s1, touched := True\<rparr>"] Cons.prems s1(2,3) by auto
  then show ?case using s1 by (intro exI [of _ s2]) simp
qed

abbreviation word_text :: "piece list \<Rightarrow> string" where
  "word_text ps \<equiv> concat (map piece_text ps)"

definition bulk_total :: "string list \<Rightarrow> nat" where
  "bulk_total ws = sum_list (map (\<lambda>a. bulklen (length a)) ws)"

lemma push_arg_ok:
  assumes "\<And>n. can_alloc e n" "sds_inv (curarg st)" "f_totlen st = int (bulk_total (curargv st))"
    "bulk_total (curargv st @ [content (curarg st)]) < 2147483648"
  shows "push_arg e st = Some (st\<lparr>curargv := curargv st @ [content (curarg st)],
    f_totlen := int (bulk_total (curargv st @ [content (curarg st)]))\<rparr>)"
  using assms content_taken [OF assms(2)] sdslen_content [OF assms(2)]
  by (simp add: push_arg_def bytes_of_def bulk_total_def c_int_id)

text \<open>All words, separated by single spaces.\<close>

lemma words_step:
  assumes "\<And>n. can_alloc e n"
  shows "ws \<noteq> [] \<Longrightarrow> \<forall>w \<in> set ws. w \<noteq> [] \<and> list_all wf_piece w \<Longrightarrow> sds_inv (curarg st) \<Longrightarrow> content (curarg st) = [] \<Longrightarrow>
    f_totlen st = int (bulk_total (curargv st)) \<Longrightarrow> bulk_total (curargv st @ map word_text ws) < 1073741824 \<Longrightarrow> touched st = False \<Longrightarrow>
    \<exists>st'. fmt_loop dbl e (joined '' '' (map (\<lambda>w. concat (map render w)) ws)) (concat (map (\<lambda>w. concat (map piece_args w)) ws)) st = FEnd st' \<and>
      touched st' \<and> sds_inv (curarg st') \<and> curargv st' @ [content (curarg st')] = curargv st @ map word_text ws \<and>
      f_totlen st' = int (bulk_total (curargv st'))"
proof (induction ws arbitrary: st)
  case (Cons w ws)
  have small: "length a \<le> bulklen (length a)" for a :: string by (simp add: bulklen_def)
  have w: "length (content (curarg st)) + length (word_text w) < 1073741824"
    using Cons.prems(4,6) small [of "word_text w"] by (simp add: bulk_total_def)
  show ?case
  proof (cases ws)
    case Nil
    obtain s1 where "fmt_loop dbl e (concat (map render w) @ []) (concat (map piece_args w) @ []) st =
        fmt_loop dbl e [] [] (st\<lparr>curarg := s1, touched := touched st \<or> w \<noteq> []\<rparr>)" "sds_inv s1"
        "content s1 = content (curarg st) @ word_text w"
      using word_step [OF assms, of w st dbl "[]" "[]"] Cons.prems w by auto
    then show ?thesis using Nil Cons.prems
      by (intro exI [of _ "st\<lparr>curarg := s1, touched := True\<rparr>"]) (simp add: fmt_loop.simps [of dbl e "[]"])
  next
    case (Cons w' ws')
    let ?r = "joined '' '' (map (\<lambda>w. concat (map render w)) ws)" and ?ap = "concat (map (\<lambda>w. concat (map piece_args w)) ws)"
    obtain s1 where s1: "fmt_loop dbl e (concat (map render w) @ '' '' @ ?r) (concat (map piece_args w) @ ?ap) st =
        fmt_loop dbl e ('' '' @ ?r) ?ap (st\<lparr>curarg := s1, touched := touched st \<or> w \<noteq> []\<rparr>)" "sds_inv s1"
        "content s1 = content (curarg st) @ word_text w"
      using word_step [OF assms, of w st dbl "'' '' @ ?r" ?ap] Cons.prems w by auto
    let ?st = "st\<lparr>curarg := s1, touched := True\<rparr>"
    have "bulk_total (curargv st @ [word_text w]) < 2147483648"
      using Cons.prems(6) by (simp add: bulk_total_def)
    then have push: "push_arg e ?st = Some (?st\<lparr>curargv := curargv st @ [word_text w],
        f_totlen := int (bulk_total (curargv st @ [word_text w]))\<rparr>)"
      using push_arg_ok [OF assms, of ?st] s1 Cons.prems(4,5) by simp
    obtain s0 where s0: "sdsempty e = Ptr s0" "sds_inv s0" "content s0 = []" using sdsempty_ok [OF assms] by blast
    let ?st2 = "st\<lparr>curargv := curargv st @ [word_text w],
      f_totlen := int (bulk_total (curargv st @ [word_text w])), curarg := s0, touched := False\<rparr>"
    have "fmt_loop dbl e ('' '' @ ?r) ?ap ?st = fmt_loop dbl e ?r ?ap ?st2"
      using push s0(1) by (simp add: fmt_loop.simps [of dbl e "CHR '' '' # _"])
    moreover have "\<exists>st'. fmt_loop dbl e ?r ?ap ?st2 = FEnd st' \<and> touched st' \<and> sds_inv (curarg st') \<and>
        curargv st' @ [content (curarg st')] = curargv ?st2 @ map word_text ws \<and> f_totlen st' = int (bulk_total (curargv st'))"
      using Cons.prems s0 Cons by (intro Cons.IH) (auto simp: bulk_total_def)
    ultimately show ?thesis using s1(1) Cons Cons.prems(2) by simp
  qed
qed simp

lemma render_no_NUL: "wf_piece p \<Longrightarrow> NUL \<notin> set (render p)"
  by (cases p) auto

lemma set_joined: "set (joined sep xs) \<subseteq> set sep \<union> \<Union> (set ` set xs)"
  by (induction sep xs rule: joined.induct) auto

lemma format_words:
  assumes "\<And>n. can_alloc e n" "ws \<noteq> []" "\<forall>w \<in> set ws. w \<noteq> [] \<and> list_all wf_piece w"
    "length (multibulk (map word_text ws)) < 1073741824"
  shows "redisvFormatCommand dbl e (joined '' '' (map (\<lambda>w. concat (map render w)) ws))
      (concat (map (\<lambda>w. concat (map piece_args w)) ws)) =
    FOk (multibulk (map word_text ws)) (int (length (multibulk (map word_text ws))))"
proof -
  let ?f = "joined '' '' (map (\<lambda>w. concat (map render w)) ws)" and ?ap = "concat (map (\<lambda>w. concat (map piece_args w)) ws)"
  have "NUL \<notin> set (concat (map render w))" if "w \<in> set ws" for w
    using assms(3) that render_no_NUL by (auto simp: list_all_iff)
  then have "NUL \<notin> set ?f"
    using set_joined [of "'' ''" "map (\<lambda>w. concat (map render w)) ws"] by fastforce
  then have f: "cstr ?f = ?f" by (rule cstr_no_NUL)
  obtain s0 where s0: "sdsempty e = Ptr s0" "sds_inv s0" "content s0 = []" using sdsempty_ok [OF assms(1)] by blast
  let ?st = "\<lparr>curarg = s0, touched = False, curargv = [], f_totlen = 0\<rparr>"
  have tot: "length (multibulk (map word_text ws)) = 1 + countDigits (length ws) + 2 + bulk_total (map word_text ws)"
    by (simp add: length_multibulk bulk_total_def comp_def)
  obtain st' where st': "fmt_loop dbl e ?f ?ap ?st = FEnd st'" "touched st'" "sds_inv (curarg st')"
    "curargv st' @ [content (curarg st')] = map word_text ws" "f_totlen st' = int (bulk_total (curargv st'))"
    using words_step [OF assms(1,2,3), of ?st dbl] s0 assms(4) tot by (auto simp: bulk_total_def)
  have "bulk_total (curargv st' @ [content (curarg st')]) < 2147483648" using st'(4) tot assms(4) by simp
  then have push: "push_arg e st' = Some (st'\<lparr>curargv := map word_text ws, f_totlen := int (bulk_total (map word_text ws))\<rparr>)"
    using push_arg_ok [OF assms(1) st'(3,5)] st'(4) by simp
  have "c_int (int (bulk_total (map word_text ws)) + int (1 + countDigits (length ws) + 2)) = int (length (multibulk (map word_text ws)))"
    using tot assms(4) by (simp add: c_int_id)
  then show ?thesis
    using s0(1) f st'(1,2) push fill_cmd_ok [OF assms(1) refl, of "map word_text ws"]
    by (simp add: redisvFormatCommand_def)
qed

section \<open>Properties\<close>

text \<open>C28 The two argument-vector formatters agree with each other and with the protocol: when the
  argument bytes (cut at the first zero byte, or at the given lengths) make a command of less
  than 1 GiB and memory lasts, both return the multi bulk encoding of the arguments and its
  exact length; the length computed in advance by counting digits is the length written.\<close>

theorem format_argv_agree:
  assumes "\<And>n. can_alloc e n" "args_bytes argv argvlen = Some args" "length (multibulk args) + 1 < 1073741824"
  shows "redisFormatCommandArgv e argv argvlen = FOk (multibulk args) (int (length (multibulk args))) \<and>
    redisFormatSdsCommandArgv e argv argvlen = redisFormatCommandArgv e argv argvlen"
proof -
  have "length (multibulk args) < 2147483648" using assms(3) by simp
  then show ?thesis
    using format_argv [OF assms(1,2)] format_sds_argv [OF assms] by simp
qed

theorem format_argv_agree_witness:
  "redisFormatCommandArgv \<lparr>can_alloc = (\<lambda>n. True), junk = (\<lambda>n. NUL)\<rparr> [''GET'', [CHR ''k'', NUL]] (Some [3, 2]) =
     FOk (multibulk [''GET'', [CHR ''k'', NUL]]) (int (length (multibulk [''GET'', [CHR ''k'', NUL]]))) \<and>
   redisFormatSdsCommandArgv \<lparr>can_alloc = (\<lambda>n. True), junk = (\<lambda>n. NUL)\<rparr> [''GET'', [CHR ''k'', NUL]] (Some [3, 2]) =
     redisFormatCommandArgv \<lparr>can_alloc = (\<lambda>n. True), junk = (\<lambda>n. NUL)\<rparr> [''GET'', [CHR ''k'', NUL]] (Some [3, 2])"
  by (rule format_argv_agree) (simp_all add: arg_bytes_def multibulk_def bulk_def dec.simps)

text \<open>C27 \<^verbatim>\<open>redisvFormatCommand\<close> interpolates: a format of words separated by single spaces, each a
  non-empty sequence of ordinary characters, \<^verbatim>\<open>%s\<close>, \<^verbatim>\<open>%b\<close>, \<^verbatim>\<open>%%\<close> and \<^verbatim>\<open>%d\<close>, gives the multi bulk
  encoding with one argument per word.  An interpolated value never starts a new argument:
  spaces, line ends and zero bytes in it are part of its word, and an empty value still
  makes an argument.\<close>

theorem format_command_interpolates:
  assumes "\<And>n. can_alloc e n" "ws \<noteq> []" "\<forall>w \<in> set ws. w \<noteq> [] \<and> list_all wf_piece w"
    "length (multibulk (map word_text ws)) < 1073741824"
  shows "redisvFormatCommand dbl e (joined '' '' (map (\<lambda>w. concat (map render w)) ws))
      (concat (map (\<lambda>w. concat (map piece_args w)) ws)) =
    FOk (multibulk (map word_text ws)) (int (length (multibulk (map word_text ws))))"
  by (rule format_words [OF assms])

theorem format_command_interpolates_witness:
  "redisvFormatCommand (\<lambda>f d. []) \<lparr>can_alloc = (\<lambda>n. True), junk = (\<lambda>n. NUL)\<rparr>
     (joined '' '' (map (\<lambda>w. concat (map render w)) [[PChar (CHR ''G'')], [PStr ''a b'', PInt 7], [PBin []]]))
     (concat (map (\<lambda>w. concat (map piece_args w)) [[PChar (CHR ''G'')], [PStr ''a b'', PInt 7], [PBin []]])) =
   FOk (multibulk (map word_text [[PChar (CHR ''G'')], [PStr ''a b'', PInt 7], [PBin []]]))
     (int (length (multibulk (map word_text [[PChar (CHR ''G'')], [PStr ''a b'', PInt 7], [PBin []]]))))"
  by (rule format_command_interpolates)
    (simp_all add: multibulk_def bulk_def dec_int_def dec.simps)


end
