(* ===== verification/Reply.thy ===== *)
theory Reply
  imports Protocol
begin

text \<open>
  Reply objects: the read tasks and callback table of \<^verbatim>\<open>read.h\<close>, the \<^verbatim>\<open>redisReply\<close>
  structure of \<^verbatim>\<open>hiredis.h\<close> and the default callbacks of \<^verbatim>\<open>hiredis.c\<close> that build replies in
  memory.  Objects live in an explicit store, because an array is linked into its parent
  before its own elements exist.  The store numbers its allocations; which of them fail is
  a field of the store, so every out-of-memory path is a path of the model.  The reply
  values of the protocol, their encoding and the relation between a value and the objects
  that represent it are the specification side.
\<close>

section \<open>Tasks and callbacks\<close>

text \<open>A \<^verbatim>\<open>void *\<close> made by a callback: the address of an object, or a small constant when there
  is no callback.  The parent of a task is its index in the task stack.\<close>

datatype obj = Addr nat | Tag int

record redisReadTask =
  t_type :: int
  t_elements :: int
  t_idx :: int
  t_obj :: "obj option"
  t_parent :: "nat option"
  t_privdata :: nat

abbreviation (input) "REDIS_REPLY_STRING \<equiv> 1 :: int"
abbreviation (input) "REDIS_REPLY_ARRAY \<equiv> 2 :: int"
abbreviation (input) "REDIS_REPLY_INTEGER \<equiv> 3 :: int"
abbreviation (input) "REDIS_REPLY_NIL \<equiv> 4 :: int"
abbreviation (input) "REDIS_REPLY_STATUS \<equiv> 5 :: int"
abbreviation (input) "REDIS_REPLY_ERROR \<equiv> 6 :: int"

text \<open>What a callback does: it makes an object, reports that memory is exhausted (a null
  pointer), or runs into a failed assertion or an invalid access.\<close>

datatype 'h made = Made obj 'h | Oom 'h | Fault

record 'h redisReplyObjectFunctions =
  createString :: "(redisReadTask list \<Rightarrow> nat \<Rightarrow> string \<Rightarrow> 'h \<Rightarrow> 'h made) option"
  createArray :: "(redisReadTask list \<Rightarrow> nat \<Rightarrow> int \<Rightarrow> 'h \<Rightarrow> 'h made) option"
  createInteger :: "(redisReadTask list \<Rightarrow> nat \<Rightarrow> int \<Rightarrow> 'h \<Rightarrow> 'h made) option"
  createNil :: "(redisReadTask list \<Rightarrow> nat \<Rightarrow> 'h \<Rightarrow> 'h made) option"
  freeObject :: "(obj \<Rightarrow> 'h \<Rightarrow> 'h option) option"

section \<open>The store of replies\<close>

record redisReply =
  rp_type :: int
  rp_integer :: int
  rp_len :: int
  rp_str :: "string option"
  rp_elements :: nat
  rp_element :: "nat option list option"

record heap =
  objs :: "nat \<rightharpoonup> redisReply"
  hcount :: nat
  hfail :: "nat \<Rightarrow> bool"

definition halloc :: "heap \<Rightarrow> bool \<times> heap" where
  "halloc h = (\<not> hfail h (hcount h), h\<lparr>hcount := Suc (hcount h)\<rparr>)"

definition hput :: "nat \<Rightarrow> redisReply \<Rightarrow> heap \<Rightarrow> heap" where
  "hput a r h = h\<lparr>objs := (objs h)(a \<mapsto> r)\<rparr>"

definition zeroed :: "int \<Rightarrow> redisReply" where
  "zeroed ty = \<lparr> rp_type = ty, rp_integer = 0, rp_len = 0, rp_str = None, rp_elements = 0,
     rp_element = None \<rparr>"

definition createReplyObject :: "int \<Rightarrow> heap \<Rightarrow> nat option \<times> heap" where
  "createReplyObject ty h =
     (case halloc h of
        (False, h') \<Rightarrow> (None, h')
      | (True, h') \<Rightarrow> (Some (hcount h), hput (hcount h) (zeroed ty) h'))"

text \<open>Freeing follows the elements of arrays; the fuel is the number of objects ever made,
  which bounds the nesting of a tree of distinct objects.  Freeing an address that holds
  no object is an error.\<close>

fun free_elements :: "(nat \<Rightarrow> heap \<Rightarrow> heap option) \<Rightarrow> nat option list \<Rightarrow> heap \<Rightarrow> heap option" where
  "free_elements f [] h = Some h"
| "free_elements f (None # es) h = free_elements f es h"
| "free_elements f (Some a # es) h =
     (case f a h of None \<Rightarrow> None | Some h' \<Rightarrow> free_elements f es h')"

primrec free_reply :: "nat \<Rightarrow> nat \<Rightarrow> heap \<Rightarrow> heap option" where
  "free_reply 0 a h = None"
| "free_reply (Suc n) a h =
     (case objs h a of
        None \<Rightarrow> None
      | Some r \<Rightarrow>
          (case (if rp_type r = REDIS_REPLY_ARRAY then
                   (case rp_element r of
                      None \<Rightarrow> Some h
                    | Some es \<Rightarrow>
                        if rp_elements r \<le> length es
                        then free_elements (free_reply n) (take (rp_elements r) es) h else None)
                 else Some h) of
             None \<Rightarrow> None
           | Some h' \<Rightarrow> Some (h'\<lparr>objs := (objs h')(a := None)\<rparr>)))"

definition freeReplyObject :: "obj \<Rightarrow> heap \<Rightarrow> heap option" where
  "freeReplyObject p h = (case p of Addr a \<Rightarrow> free_reply (Suc (hcount h)) a h | Tag n \<Rightarrow> None)"

section \<open>The default callbacks\<close>

text \<open>The last step of every callback links the object into the parent array.\<close>

definition set_element :: "redisReadTask list \<Rightarrow> nat \<Rightarrow> nat \<Rightarrow> heap \<Rightarrow> heap made" where
  "set_element rs t a h =
     (case t_parent (rs ! t) of
        None \<Rightarrow> Made (Addr a) h
      | Some p \<Rightarrow>
          (case t_obj (rs ! p) of
             Some (Addr pa) \<Rightarrow>
               (case objs h pa of
                  None \<Rightarrow> Fault
                | Some pr \<Rightarrow>
                    if rp_type pr = REDIS_REPLY_ARRAY then
                      (case rp_element pr of
                         None \<Rightarrow> Fault
                       | Some es \<Rightarrow>
                           if 0 \<le> t_idx (rs ! t) \<and> nat (t_idx (rs ! t)) < length es
                           then Made (Addr a)
                             (hput pa (pr\<lparr>rp_element := Some (es[nat (t_idx (rs ! t)) := Some a])\<rparr>) h)
                           else Fault)
                    else Fault)
           | _ \<Rightarrow> Fault))"

definition createStringObject :: "redisReadTask list \<Rightarrow> nat \<Rightarrow> string \<Rightarrow> heap \<Rightarrow> heap made" where
  "createStringObject rs t s h =
     (let ty = t_type (rs ! t) in
      case createReplyObject ty h of
        (None, h) \<Rightarrow> Oom h
      | (Some a, h) \<Rightarrow>
          (case halloc h of
             (False, h) \<Rightarrow> (case freeReplyObject (Addr a) h of None \<Rightarrow> Fault | Some h \<Rightarrow> Oom h)
           | (True, h) \<Rightarrow>
               if ty = REDIS_REPLY_ERROR \<or> ty = REDIS_REPLY_STATUS \<or> ty = REDIS_REPLY_STRING then
                 set_element rs t a
                   (hput a ((zeroed ty)\<lparr>rp_str := Some (s @ [NUL]), rp_len := c_int (int (length s))\<rparr>) h)
               else Fault))"

definition createArrayObject :: "redisReadTask list \<Rightarrow> nat \<Rightarrow> int \<Rightarrow> heap \<Rightarrow> heap made" where
  "createArrayObject rs t n h =
     (case createReplyObject REDIS_REPLY_ARRAY h of
        (None, h) \<Rightarrow> Oom h
      | (Some a, h) \<Rightarrow>
          if n > 0 then
            (case halloc h of
               (False, h) \<Rightarrow> (case freeReplyObject (Addr a) h of None \<Rightarrow> Fault | Some h \<Rightarrow> Oom h)
             | (True, h) \<Rightarrow>
                 set_element rs t a
                   (hput a ((zeroed REDIS_REPLY_ARRAY)\<lparr>rp_elements := c_size n,
                      rp_element := Some (replicate (nat n) None)\<rparr>) h))
          else
            set_element rs t a (hput a ((zeroed REDIS_REPLY_ARRAY)\<lparr>rp_elements := c_size n\<rparr>) h))"

definition createIntegerObject :: "redisReadTask list \<Rightarrow> nat \<Rightarrow> int \<Rightarrow> heap \<Rightarrow> heap made" where
  "createIntegerObject rs t v h =
     (case createReplyObject REDIS_REPLY_INTEGER h of
        (None, h) \<Rightarrow> Oom h
      | (Some a, h) \<Rightarrow> set_element rs t a (hput a ((zeroed REDIS_REPLY_INTEGER)\<lparr>rp_integer := v\<rparr>) h))"

definition createNilObject :: "redisReadTask list \<Rightarrow> nat \<Rightarrow> heap \<Rightarrow> heap made" where
  "createNilObject rs t h =
     (case createReplyObject REDIS_REPLY_NIL h of
        (None, h) \<Rightarrow> Oom h
      | (Some a, h) \<Rightarrow> set_element rs t a h)"

definition defaultFunctions :: "heap redisReplyObjectFunctions" where
  "defaultFunctions = \<lparr> createString = Some createStringObject, createArray = Some createArrayObject,
     createInteger = Some createIntegerObject, createNil = Some createNilObject,
     freeObject = Some freeReplyObject \<rparr>"

end
