(* ===== verification/Reader.thy ===== *)
theory Reader
  imports Reply Sds
begin

text \<open>
  Model of the incremental reply reader \<^verbatim>\<open>read.c\<close>: the reader structure with its dynamic
  input buffer, the stack of nine read tasks, the line and bulk scanners, one definition
  per function.  An operation returns \<open>Ret ok r\<close> with \<open>ok\<close> for \<^verbatim>\<open>REDIS_OK\<close>, or \<open>Stuck\<close> when
  an assertion fails or memory outside a block is read.  The loop over items is a partial
  function; that it always returns is proved.  Signed overflow of the digit loop wraps.
\<close>

section \<open>State\<close>

record 'h redisReader =
  r_err :: int
  r_errstr :: string
  r_buf :: "sds option"
  r_pos :: nat
  r_len :: nat
  r_maxbuf :: nat
  rstack :: "redisReadTask list"
  ridx :: int
  r_reply :: "obj option"
  r_fn :: "'h redisReplyObjectFunctions option"
  r_privdata :: nat
  r_heap :: 'h

abbreviation (input) "REDIS_ERR_IO \<equiv> 1 :: int"
abbreviation (input) "REDIS_ERR_OTHER \<equiv> 2 :: int"
abbreviation (input) "REDIS_ERR_EOF \<equiv> 3 :: int"
abbreviation (input) "REDIS_ERR_PROTOCOL \<equiv> 4 :: int"
abbreviation (input) "REDIS_ERR_OOM \<equiv> 5 :: int"

datatype 'r run = Ret bool 'r | Stuck

definition bytes :: "'h redisReader \<Rightarrow> string" where
  "bytes r = (case r_buf r of None \<Rightarrow> [] | Some b \<Rightarrow> sbuf b)"

section \<open>Errors\<close>

definition redisReaderSetError :: "'h redisReader \<Rightarrow> int \<Rightarrow> string \<Rightarrow> 'h redisReader run" where
  "redisReaderSetError r ty s =
     (let freed =
        (case (r_reply r, r_fn r) of
           (Some p, Some f) \<Rightarrow>
             (case freeObject f of
                None \<Rightarrow> Some r
              | Some fr \<Rightarrow>
                  (case fr p (r_heap r) of
                     None \<Rightarrow> None
                   | Some h \<Rightarrow> Some (r\<lparr>r_reply := None, r_heap := h\<rparr>)))
         | _ \<Rightarrow> Some r) in
      case freed of
        None \<Rightarrow> Stuck
      | Some r \<Rightarrow>
          (let r = (case r_buf r of None \<Rightarrow> r | Some b \<Rightarrow> r\<lparr>r_buf := None, r_pos := 0, r_len := 0\<rparr>) in
           Ret False (r\<lparr>r_err := ty, r_errstr := take 127 (cstr s), ridx := - 1\<rparr>)))"

text \<open>\<^verbatim>\<open>snprintf\<close> into a buffer of the given size keeps one byte less.\<close>

definition chrtos :: "nat \<Rightarrow> char \<Rightarrow> string" where
  "chrtos n b =
     take (n - 1)
       (CHR 0x22 #
        (if b = CHR 0x5C \<or> b = CHR 0x22 then [CHR 0x5C, b]
         else if b = LF then [CHR 0x5C, CHR ''n'']
         else if b = CR then [CHR 0x5C, CHR ''r'']
         else if b = CHR 0x09 then [CHR 0x5C, CHR ''t'']
         else if b = CHR 0x07 then [CHR 0x5C, CHR ''a'']
         else if b = CHR 0x08 then [CHR 0x5C, CHR ''b'']
         else if isprint b then [b]
         else [CHR 0x5C, CHR ''x'', hexdig (ord b div 16), hexdig (ord b mod 16)]) @ [CHR 0x22])"

definition redisReaderSetErrorProtocolByte :: "'h redisReader \<Rightarrow> char \<Rightarrow> 'h redisReader run" where
  "redisReaderSetErrorProtocolByte r b =
     redisReaderSetError r REDIS_ERR_PROTOCOL
       (take 127 (''Protocol error, got '' @ chrtos 8 b @ '' as reply type byte''))"

definition redisReaderSetErrorOOM :: "'h redisReader \<Rightarrow> 'h redisReader run" where
  "redisReaderSetErrorOOM r = redisReaderSetError r REDIS_ERR_OOM ''Out of memory''"

section \<open>Scanning the buffer\<close>

definition readBytes :: "'h redisReader \<Rightarrow> nat \<Rightarrow> (nat \<times> 'h redisReader) option" where
  "readBytes r n =
     (if n \<le> c_size (int (r_len r) - int (r_pos r))
      then Some (r_pos r, r\<lparr>r_pos := r_pos r + n\<rparr>) else None)"

function find_cr :: "string \<Rightarrow> int \<Rightarrow> nat \<Rightarrow> nat ptr" where
  "find_cr s l p =
     (if int p < l then
        if p < length s then (if s ! p \<noteq> CR then find_cr s l (Suc p) else Ptr p) else Crash
      else Ptr p)"
  by pat_completeness auto
termination by (relation "measure (\<lambda>(s, l, p). nat (l - int p))") auto

declare find_cr.simps [simp del]

lemma find_cr_ge: "find_cr s l p = Ptr q \<Longrightarrow> p \<le> q"
proof (induction s l p rule: find_cr.induct)
  case (1 s l p)
  then show ?case by (subst (asm) (2) find_cr.simps) (auto split: if_splits)
qed

function seek_loop :: "string \<Rightarrow> int \<Rightarrow> nat \<Rightarrow> nat ptr" where
  "seek_loop s l p =
     (if int p < l then
        (case find_cr s l p of
           Ptr q \<Rightarrow>
             if q < length s then
               if s ! q \<noteq> CR then Null
               else if Suc q < length s then
                 (if s ! Suc q = LF then Ptr q else seek_loop s l (Suc q))
               else Crash
             else Crash
         | _ \<Rightarrow> Crash)
      else Null)"
  by pat_completeness auto
termination
  by (relation "measure (\<lambda>(s, l, p). nat (l - int p))") (auto dest: find_cr_ge)

declare seek_loop.simps [simp del]

definition seekNewline :: "string \<Rightarrow> nat \<Rightarrow> nat ptr" where
  "seekNewline s len = seek_loop s (c_int (int len - 1)) 0"

fun rll_loop :: "int \<Rightarrow> int \<Rightarrow> string \<Rightarrow> int ptr" where
  "rll_loop mult v [] = Crash"
| "rll_loop mult v (c # s) =
     (if c = CR then Ptr (c_llong (mult * v))
      else if isdigit c then rll_loop mult (c_llong (c_llong (v * 10) + int (digit_val c))) s
      else Ptr (- 1))"

definition readLongLong :: "string \<Rightarrow> int ptr" where
  "readLongLong s =
     (case s of
        [] \<Rightarrow> Crash
      | c # s' \<Rightarrow>
          if c = CHR ''-'' then rll_loop (- 1) 0 s'
          else if c = CHR ''+'' then rll_loop 1 0 s'
          else rll_loop 1 0 s)"

definition readLine :: "'h redisReader \<Rightarrow> (nat \<times> int \<times> 'h redisReader) ptr" where
  "readLine r =
     (let p = r_pos r in
      case seekNewline (drop p (bytes r)) (c_size (int (r_len r) - int (r_pos r))) of
        Ptr k \<Rightarrow>
          (let len = c_int (int k) in
           Ptr (p, len, r\<lparr>r_pos := c_size (int (r_pos r) + (len + 2))\<rparr>))
      | Null \<Rightarrow> Null
      | Crash \<Rightarrow> Crash)"

section \<open>Items\<close>

function moveToNextTask :: "'h redisReader \<Rightarrow> 'h redisReader run" where
  "moveToNextTask r =
     (if ridx r < 0 then Ret True r
      else if ridx r = 0 then Ret True (r\<lparr>ridx := ridx r - 1\<rparr>)
      else
        (let i = nat (ridx r); cur = rstack r ! i; prv = rstack r ! (i - 1) in
         if t_type prv \<noteq> REDIS_REPLY_ARRAY then Stuck
         else if t_idx cur = c_int (t_elements prv - 1) then moveToNextTask (r\<lparr>ridx := ridx r - 1\<rparr>)
         else if t_idx cur < t_elements prv then
           Ret True (r\<lparr>rstack := (rstack r)[i := cur\<lparr>t_type := - 1, t_elements := - 1,
             t_idx := t_idx cur + 1\<rparr>]\<rparr>)
         else Stuck))"
  by pat_completeness auto
termination by (relation "measure (\<lambda>r. nat (ridx r))") auto

declare moveToNextTask.simps [simp del]

text \<open>A callback is used when the table and the entry are present; otherwise the object is
  the type number.\<close>

definition callback ::
  "('h redisReplyObjectFunctions \<Rightarrow> 'c option) \<Rightarrow> 'h redisReader \<Rightarrow> ('c \<Rightarrow> 'h made) \<Rightarrow> int \<Rightarrow> 'h made" where
  "callback sel r call ty =
     (case r_fn r of
        None \<Rightarrow> Made (Tag ty) (r_heap r)
      | Some f \<Rightarrow> (case sel f of None \<Rightarrow> Made (Tag ty) (r_heap r) | Some g \<Rightarrow> call g))"

definition cut :: "string \<Rightarrow> nat \<Rightarrow> nat \<Rightarrow> string option" where
  "cut s i n = (if i + n \<le> length s then Some (take n (drop i s)) else None)"

text \<open>Storing the object as the root reply, then moving on.\<close>

definition finish_item :: "'h redisReader \<Rightarrow> 'h made \<Rightarrow> nat \<Rightarrow> 'h redisReader run" where
  "finish_item r obj p =
     (case obj of
        Fault \<Rightarrow> Stuck
      | Oom h \<Rightarrow> redisReaderSetErrorOOM (r\<lparr>r_heap := h\<rparr>)
      | Made ob h \<Rightarrow>
          (let r = r\<lparr>r_pos := p, r_heap := h\<rparr> in
           moveToNextTask (if ridx r = 0 then r\<lparr>r_reply := Some ob\<rparr> else r)))"

definition processLineItem :: "'h redisReader \<Rightarrow> 'h redisReader run" where
  "processLineItem r =
     (let t = nat (ridx r); ty = t_type (rstack r ! t) in
      case readLine r of
        Crash \<Rightarrow> Stuck
      | Null \<Rightarrow> Ret False r
      | Ptr (p, len, r) \<Rightarrow>
          (let obj =
             (if ty = REDIS_REPLY_INTEGER then
                callback createInteger r
                  (\<lambda>f. case readLongLong (drop p (bytes r)) of
                         Ptr v \<Rightarrow> f (rstack r) t v (r_heap r)
                       | _ \<Rightarrow> Fault) REDIS_REPLY_INTEGER
              else
                callback createString r
                  (\<lambda>f. case cut (bytes r) p (c_size len) of
                         None \<Rightarrow> Fault
                       | Some s \<Rightarrow> f (rstack r) t s (r_heap r)) ty) in
           finish_item r obj (r_pos r)))"

definition processBulkItem :: "'h redisReader \<Rightarrow> 'h redisReader run" where
  "processBulkItem r =
     (let t = nat (ridx r); p = r_pos r in
      case seekNewline (drop p (bytes r)) (c_size (int (r_len r) - int p)) of
        Crash \<Rightarrow> Stuck
      | Null \<Rightarrow> Ret False r
      | Ptr s \<Rightarrow>
          (let bytelen = s + 2 in
           case readLongLong (drop p (bytes r)) of
             Ptr len \<Rightarrow>
               if len < 0 then
                 finish_item r
                   (callback createNil r (\<lambda>f. f (rstack r) t (r_heap r)) REDIS_REPLY_NIL)
                   (c_size (int p + int bytelen))
               else
                 (let bytelen = c_size (int bytelen + c_llong (len + 2)) in
                  if c_size (int p + int bytelen) \<le> r_len r then
                    finish_item r
                      (callback createString r
                         (\<lambda>f. case cut (bytes r) (p + s + 2) (nat len) of
                                None \<Rightarrow> Fault
                              | Some x \<Rightarrow> f (rstack r) t x (r_heap r)) REDIS_REPLY_STRING)
                      (c_size (int p + int bytelen))
                  else Ret False r)
           | _ \<Rightarrow> Stuck))"

definition push_task :: "'h redisReader \<Rightarrow> int \<Rightarrow> obj \<Rightarrow> 'h redisReader run" where
  "push_task r n ob =
     (let i = nat (ridx r); cur = rstack r ! i; j = Suc i in
      if j < length (rstack r) then
        Ret True (r\<lparr>rstack := (rstack r)[i := cur\<lparr>t_elements := c_int n, t_obj := Some ob\<rparr>,
                       j := \<lparr>t_type = - 1, t_elements = - 1, t_idx = 0, t_obj = None,
                             t_parent = Some i, t_privdata = r_privdata r\<rparr>],
                    ridx := ridx r + 1\<rparr>)
      else Stuck)"

definition set_root :: "bool \<Rightarrow> obj \<Rightarrow> 'h redisReader run \<Rightarrow> 'h redisReader run" where
  "set_root root ob x =
     (case x of Stuck \<Rightarrow> Stuck | Ret ok r \<Rightarrow> Ret ok (if root then r\<lparr>r_reply := Some ob\<rparr> else r))"

definition processMultiBulkItem :: "'h redisReader \<Rightarrow> 'h redisReader run" where
  "processMultiBulkItem r =
     (let t = nat (ridx r) in
      if ridx r = 8 then
        redisReaderSetError r REDIS_ERR_PROTOCOL
          ''No support for nested multi bulk replies with depth > 7''
      else
        (case readLine r of
           Crash \<Rightarrow> Stuck
         | Null \<Rightarrow> Ret False r
         | Ptr (p, len, r) \<Rightarrow>
             (case readLongLong (drop p (bytes r)) of
                Ptr elements \<Rightarrow>
                  (let root = (ridx r = 0) in
                   if elements = - 1 then
                     (case callback createNil r (\<lambda>f. f (rstack r) t (r_heap r)) REDIS_REPLY_NIL of
                        Fault \<Rightarrow> Stuck
                      | Oom h \<Rightarrow> redisReaderSetErrorOOM (r\<lparr>r_heap := h\<rparr>)
                      | Made ob h \<Rightarrow> set_root root ob (moveToNextTask (r\<lparr>r_heap := h\<rparr>)))
                   else
                     (case callback createArray r
                             (\<lambda>f. f (rstack r) t (c_int elements) (r_heap r)) REDIS_REPLY_ARRAY of
                        Fault \<Rightarrow> Stuck
                      | Oom h \<Rightarrow> redisReaderSetErrorOOM (r\<lparr>r_heap := h\<rparr>)
                      | Made ob h \<Rightarrow>
                          set_root root ob
                            (if elements > 0 then push_task (r\<lparr>r_heap := h\<rparr>) elements ob
                             else moveToNextTask (r\<lparr>r_heap := h\<rparr>))))
              | _ \<Rightarrow> Stuck)))"

definition reply_type_byte :: "char \<Rightarrow> int option" where
  "reply_type_byte c =
     (if c = CHR ''-'' then Some REDIS_REPLY_ERROR
      else if c = CHR ''+'' then Some REDIS_REPLY_STATUS
      else if c = CHR '':'' then Some REDIS_REPLY_INTEGER
      else if c = CHR ''$'' then Some REDIS_REPLY_STRING
      else if c = CHR ''*'' then Some REDIS_REPLY_ARRAY
      else None)"

definition process_typed :: "'h redisReader \<Rightarrow> 'h redisReader run" where
  "process_typed r =
     (let ty = t_type (rstack r ! nat (ridx r)) in
      if ty = REDIS_REPLY_ERROR \<or> ty = REDIS_REPLY_STATUS \<or> ty = REDIS_REPLY_INTEGER
      then processLineItem r
      else if ty = REDIS_REPLY_STRING then processBulkItem r
      else if ty = REDIS_REPLY_ARRAY then processMultiBulkItem r
      else Stuck)"

definition processItem :: "'h redisReader \<Rightarrow> 'h redisReader run" where
  "processItem r =
     (if \<not> (0 \<le> ridx r \<and> nat (ridx r) < length (rstack r)) then Stuck
      else
        (let i = nat (ridx r); cur = rstack r ! i in
         if t_type cur < 0 then
           (case readBytes r 1 of
              None \<Rightarrow> Ret False r
            | Some (p, r) \<Rightarrow>
                if p < length (bytes r) then
                  (case reply_type_byte (bytes r ! p) of
                     None \<Rightarrow> redisReaderSetErrorProtocolByte r (bytes r ! p)
                   | Some ty \<Rightarrow> process_typed (r\<lparr>rstack := (rstack r)[i := cur\<lparr>t_type := ty\<rparr>]\<rparr>))
                else Stuck)
         else process_typed r))"

section \<open>The public operations\<close>

definition empty_task :: redisReadTask where
  "empty_task = \<lparr>t_type = 0, t_elements = 0, t_idx = 0, t_obj = None, t_parent = None, t_privdata = 0\<rparr>"

definition redisReaderCreateWithFunctions ::
  "menv \<Rightarrow> 'h redisReplyObjectFunctions option \<Rightarrow> 'h \<Rightarrow> 'h redisReader ptr" where
  "redisReaderCreateWithFunctions e f h =
     check (sdsempty e) (\<lambda>b.
       Ptr \<lparr>r_err = 0, r_errstr = [], r_buf = Some b, r_pos = 0, r_len = 0, r_maxbuf = 16384,
            rstack = replicate 9 empty_task, ridx = - 1, r_reply = None, r_fn = f, r_privdata = 0,
            r_heap = h\<rparr>)"

definition redisReaderFeed :: "menv \<Rightarrow> 'h redisReader \<Rightarrow> string \<Rightarrow> 'h redisReader run" where
  "redisReaderFeed e r t =
     (if r_err r \<noteq> 0 then Ret False r
      else if t = [] then Ret True r
      else
        (case r_buf r of
           None \<Rightarrow> Stuck
         | Some b \<Rightarrow>
             (let fresh =
                (if r_len r = 0 \<and> r_maxbuf r \<noteq> 0 \<and> sdsavail b > r_maxbuf r then
                   (case sdsempty e of Ptr b' \<Rightarrow> Some (b', r\<lparr>r_buf := Some b', r_pos := 0\<rparr>) | _ \<Rightarrow> None)
                 else Some (b, r)) in
              case fresh of
                None \<Rightarrow> Stuck
              | Some (b, r) \<Rightarrow>
                  (case sdscatlen e b t of
                     Crash \<Rightarrow> Stuck
                   | Null \<Rightarrow> redisReaderSetErrorOOM r
                   | Ptr b' \<Rightarrow> Ret True (r\<lparr>r_buf := Some b', r_len := sdslen b'\<rparr>)))))"

partial_function (option) process_loop :: "'h redisReader \<Rightarrow> 'h redisReader run option" where
  "process_loop r =
     (if ridx r \<ge> 0 then
        (case processItem r of
           Stuck \<Rightarrow> Some Stuck
         | Ret ok r' \<Rightarrow> if ok then process_loop r' else Some (Ret False r'))
      else Some (Ret True r))"

definition first_task :: "nat \<Rightarrow> redisReadTask" where
  "first_task pd = \<lparr>t_type = - 1, t_elements = - 1, t_idx = - 1, t_obj = None, t_parent = None,
     t_privdata = pd\<rparr>"

text \<open>Discarding at least 1k of consumed input.\<close>

definition discard :: "'h redisReader \<Rightarrow> 'h redisReader run" where
  "discard r =
     (if r_pos r \<ge> 1024 then
        (case r_buf r of
           None \<Rightarrow> Stuck
         | Some b \<Rightarrow>
             (case sdsrange b (c_int (int (r_pos r))) (- 1) of
                Ptr b' \<Rightarrow> Ret True (r\<lparr>r_buf := Some b', r_pos := 0, r_len := sdslen b'\<rparr>)
              | _ \<Rightarrow> Stuck))
      else Ret True r)"

definition redisReaderGetReply :: "'h redisReader \<Rightarrow> ('h redisReader \<times> obj option) run option" where
  "redisReaderGetReply r =
     (if r_err r \<noteq> 0 then Some (Ret False (r, None))
      else if r_len r = 0 then Some (Ret True (r, None))
      else
        (let r = (if ridx r = - 1
                  then r\<lparr>rstack := (rstack r)[0 := first_task (r_privdata r)], ridx := 0\<rparr> else r) in
         case process_loop r of
           None \<Rightarrow> None
         | Some Stuck \<Rightarrow> Some Stuck
         | Some (Ret ok r) \<Rightarrow>
             if r_err r \<noteq> 0 then Some (Ret False (r, None))
             else
               (case discard r of
                  Stuck \<Rightarrow> Some Stuck
                | Ret _ r \<Rightarrow>
                    Some (if ridx r = - 1 then Ret True (r\<lparr>r_reply := None\<rparr>, r_reply r)
                          else Ret True (r, None)))))"

end
