(* ===== verification/ReaderSpec.thy ===== *)
theory ReaderSpec
  imports Reader
begin

text \<open>
  The reply reader as a function of the bytes that are still to be read.  The specification
  \<open>aitem\<close> processes one item of a byte list without buffers, positions or machine integers
  and says how many bytes it consumes; \<open>aloop\<close> iterates it.  The lemmas show that
  \<^verbatim>\<open>processItem\<close> and the loop of \<^verbatim>\<open>redisReaderGetReply\<close> refine them, that an item consumes
  input, so the loop ends, and that input may be cut anywhere.
\<close>

section \<open>Lines\<close>

fun find_crlf :: "string \<Rightarrow> nat option" where
  "find_crlf (c # d # s) =
     (if c = CR \<and> d = LF then Some 0 else map_option Suc (find_crlf (d # s)))"
| "find_crlf _ = None"

definition crlf_at :: "string \<Rightarrow> nat \<Rightarrow> bool" where
  "crlf_at s i \<longleftrightarrow> Suc i < length s \<and> s ! i = CR \<and> s ! Suc i = LF"

lemma crlf_at_Cons: "crlf_at (c # d # s) i \<longleftrightarrow>
    (case i of 0 \<Rightarrow> c = CR \<and> d = LF | Suc j \<Rightarrow> crlf_at (d # s) j)"
  by (cases i) (auto simp: crlf_at_def)

lemma find_crlf_iff:
  "(case find_crlf s of None \<Rightarrow> \<forall>i. \<not> crlf_at s i
    | Some k \<Rightarrow> crlf_at s k \<and> (\<forall>i < k. \<not> crlf_at s i))"
proof (induction s rule: find_crlf.induct)
  case (1 c d s)
  show ?case
  proof (cases "c = CR \<and> d = LF")
    case True
    then show ?thesis by (simp add: crlf_at_Cons)
  next
    case False
    then show ?thesis using "1.IH" [OF False]
      by (cases "find_crlf (d # s)") (auto simp: crlf_at_Cons simp del: find_crlf.simps(1) split: nat.splits,
          (simp add: crlf_at_Cons split: nat.splits)+)
  qed
qed (auto simp: crlf_at_def)

lemma find_crlf_Some: "find_crlf s = Some k \<longleftrightarrow> crlf_at s k \<and> (\<forall>i < k. \<not> crlf_at s i)"
  using find_crlf_iff [of s] by (cases "find_crlf s") (auto, metis nat_neq_iff)

lemma find_crlf_None: "find_crlf s = None \<longleftrightarrow> (\<forall>i. \<not> crlf_at s i)"
  using find_crlf_iff [of s] by (cases "find_crlf s") auto

lemma crlf_at_append: "crlf_at s i \<Longrightarrow> crlf_at (s @ t) i"
  by (auto simp: crlf_at_def nth_append)

lemma crlf_at_append_less: "Suc i < length s \<Longrightarrow> crlf_at (s @ t) i \<longleftrightarrow> crlf_at s i"
  by (auto simp: crlf_at_def nth_append)

lemma find_crlf_append: "find_crlf s = Some k \<Longrightarrow> find_crlf (s @ t) = Some k"
  using crlf_at_append_less [of _ s t] by (auto simp: find_crlf_Some crlf_at_append) (auto simp: crlf_at_def)

lemma find_crlf_split:
  assumes "find_crlf d = Some k"
  shows "k + 2 \<le> length d" "d = take k d @ CR # LF # drop (k + 2) d"
proof -
  have k: "Suc k < length d" "d ! k = CR" "d ! Suc k = LF" using assms by (auto simp: find_crlf_Some crlf_at_def)
  show "k + 2 \<le> length d" using k by simp
  have "drop k d = CR # LF # drop (k + 2) d"
    using k by (metis Cons_nth_drop_Suc Suc_lessD add_2_eq_Suc')
  then show "d = take k d @ CR # LF # drop (k + 2) d" by (metis append_take_drop_id)
qed

lemma find_crlf_line:
  assumes "find_crlf x = None"
  shows "find_crlf (x @ CR # LF # y) = Some (length x)"
proof -
  have "\<not> crlf_at (x @ CR # LF # y) i" if "i < length x" for i
  proof (cases "Suc i < length x")
    case True
    then show ?thesis using assms crlf_at_append_less by (metis find_crlf_None)
  next
    case False
    with that have "Suc i = length x" by simp
    then show ?thesis by (auto simp: crlf_at_def nth_append)
  qed
  then show ?thesis by (auto simp: find_crlf_Some crlf_at_def nth_append)
qed

text \<open>A byte string without carriage return has no line end.\<close>

lemma find_crlf_no_CR: "CR \<notin> set x \<Longrightarrow> find_crlf x = None"
  by (metis Suc_lessD crlf_at_def find_crlf_None nth_mem)

section \<open>The scanners\<close>

lemma find_cr_spec:
  assumes "p \<le> m" "m < length s"
  shows "\<exists>q. find_cr s (int m) p = Ptr q \<and> p \<le> q \<and> q \<le> m \<and> (\<forall>j. p \<le> j \<longrightarrow> j < q \<longrightarrow> s ! j \<noteq> CR) \<and>
    (q < m \<longrightarrow> s ! q = CR)"
  using assms
proof (induction "m - p" arbitrary: p)
  case 0
  then show ?case by (subst find_cr.simps) simp
next
  case (Suc x)
  show ?case
  proof (cases "s ! p = CR")
    case True
    then show ?thesis using Suc by (subst find_cr.simps) auto
  next
    case False
    have "x = m - Suc p" "Suc p \<le> m" using Suc by simp_all
    from Suc.hyps(1) [OF this Suc.prems(2)] obtain q where q: "find_cr s (int m) (Suc p) = Ptr q"
      "Suc p \<le> q" "q \<le> m" "\<forall>j. Suc p \<le> j \<longrightarrow> j < q \<longrightarrow> s ! j \<noteq> CR" "q < m \<longrightarrow> s ! q = CR" by blast
    have "find_cr s (int m) p = Ptr q"
      using False q(1) Suc by (subst find_cr.simps) auto
    moreover have "\<forall>j. p \<le> j \<longrightarrow> j < q \<longrightarrow> s ! j \<noteq> CR"
      using q(4) False by (metis Suc_leI le_neq_implies_less)
    ultimately show ?thesis using q by auto
  qed
qed

lemma seek_loop_spec:
  assumes "p \<le> n" "n < length s" "s ! n \<noteq> LF" "\<forall>j < p. \<not> crlf_at (take n s) j"
  shows "(\<exists>i. seek_loop s (int n - 1) p = Ptr i \<and> crlf_at (take n s) i \<and> (\<forall>j < i. \<not> crlf_at (take n s) j)) \<or>
    (seek_loop s (int n - 1) p = Null \<and> (\<forall>i. \<not> crlf_at (take n s) i))"
  using assms
proof (induction "n - p" arbitrary: p rule: less_induct)
  case less
  show ?case
  proof (cases "int p < int n - 1")
    case False
    have "\<not> crlf_at (take n s) i" for i
      using less.prems(4) False by (cases "i < p") (auto simp: crlf_at_def)
    with False show ?thesis by (subst seek_loop.simps, subst (2) seek_loop.simps) simp
  next
    case True
    define m where "m = n - 1"
    have m: "int n - 1 = int m" "p < m" "n = Suc m" using True by (auto simp: m_def)
    obtain q where q: "find_cr s (int m) p = Ptr q" "p \<le> q" "q \<le> m"
      "\<forall>j. p \<le> j \<longrightarrow> j < q \<longrightarrow> s ! j \<noteq> CR" "q < m \<longrightarrow> s ! q = CR"
      using find_cr_spec [of p m s] m less.prems by auto
    have before: "\<not> crlf_at (take n s) j" if "j < q" for j
      using that less.prems(4) q(4) by (cases "j < p") (auto simp: crlf_at_def)
    have l: "q < length s" "Suc q < length s" using q(3) m(3) less.prems(2) by simp_all
    have u: "seek_loop s (int n - 1) p = (if s ! q \<noteq> CR then Null
        else if s ! Suc q = LF then Ptr q else seek_loop s (int n - 1) (Suc q))"
      using q(1) m l by (subst seek_loop.simps) simp
    show ?thesis
    proof (cases "s ! q = CR")
      case False
      then have "q = m" using q by auto
      then have "\<not> crlf_at (take n s) j" for j
        using before by (cases "j < q") (auto simp: crlf_at_def m(3))
      with u False show ?thesis by simp
    next
      case cr: True
      show ?thesis
      proof (cases "s ! Suc q = LF")
        case True
        then have "q < m" using less.prems(3) m(3) q(3) by (metis le_neq_implies_less)
        then have "crlf_at (take n s) q"
          using True cr l m(3) by (auto simp: crlf_at_def)
        with u cr True before show ?thesis by auto
      next
        case False
        have "\<forall>j < Suc q. \<not> crlf_at (take n s) j"
          using before False by (auto simp: less_Suc_eq crlf_at_def)
        then have "(\<exists>i. seek_loop s (int n - 1) (Suc q) = Ptr i \<and> crlf_at (take n s) i \<and>
              (\<forall>j < i. \<not> crlf_at (take n s) j)) \<or>
            (seek_loop s (int n - 1) (Suc q) = Null \<and> (\<forall>i. \<not> crlf_at (take n s) i))"
          using less.hyps [of "Suc q"] less.prems q m by simp
        then show ?thesis using u cr False by simp
      qed
    qed
  qed
qed

lemma seekNewline_spec:
  assumes "n < length s" "n < 2147483648" "s ! n \<noteq> LF"
  shows "seekNewline s n = (case find_crlf (take n s) of None \<Rightarrow> Null | Some k \<Rightarrow> Ptr k)"
proof -
  have "c_int (int n - 1) = int n - 1" using assms by (simp add: c_int_id)
  moreover from seek_loop_spec [of 0 n s] assms have
    "(\<exists>i. seek_loop s (int n - 1) 0 = Ptr i \<and> find_crlf (take n s) = Some i) \<or>
     seek_loop s (int n - 1) 0 = Null \<and> find_crlf (take n s) = None"
    unfolding find_crlf_Some find_crlf_None by auto
  ultimately show ?thesis unfolding seekNewline_def by auto
qed

text \<open>The value of a line of digits.\<close>

definition line_ll :: "string \<Rightarrow> int" where
  "line_ll x = (case readLongLong (x @ [CR]) of Ptr v \<Rightarrow> v | _ \<Rightarrow> 0)"

lemma rll_loop_cut: "rll_loop m v (x @ CR # y) = rll_loop m v (x @ [CR])"
  by (induction x arbitrary: v) auto

lemma rll_loop_line: "\<exists>w. rll_loop m v (x @ [CR]) = Ptr w"
  by (induction x arbitrary: v) auto

lemma readLongLong_cut: "readLongLong (x @ CR # y) = readLongLong (x @ [CR])"
  by (cases x) (simp_all add: readLongLong_def rll_loop_cut [of _ _ _ y] rll_loop_cut [of 1 0 "_ # _" y, simplified])

lemma readLongLong_ex: "\<exists>w. readLongLong (x @ [CR]) = Ptr w"
  using rll_loop_line [of 1 0 x] rll_loop_line [of _ 0 "tl x"]
  by (cases x) (simp_all add: readLongLong_def)

lemma readLongLong_line: "readLongLong (x @ CR # y) = Ptr (line_ll x)"
  using readLongLong_ex [of x] by (auto simp: readLongLong_cut [of x y] line_ll_def)

lemma c_llong_range: "- 9223372036854775808 \<le> c_llong x \<and> c_llong x < 9223372036854775808"
proof -
  have "0 \<le> (x + 9223372036854775808) mod 18446744073709551616 \<and>
      (x + 9223372036854775808) mod 18446744073709551616 < 18446744073709551616"
    by simp
  then show ?thesis unfolding c_llong_def by linarith
qed

lemma c_llong_mod: "(a + c_llong x) mod 18446744073709551616 = (a + x) mod 18446744073709551616"
proof -
  define q where "q = (x + 9223372036854775808) div 18446744073709551616"
  have "(x + 9223372036854775808) mod 18446744073709551616 = x + 9223372036854775808 - 18446744073709551616 * q"
    unfolding q_def by (simp only: minus_mult_div_eq_mod)
  then have "a + c_llong x = (a + x) + 18446744073709551616 * (- q)"
    unfolding c_llong_def by linarith
  then show ?thesis by (metis mod_mult_self2)
qed

lemma rll_loop_range: "rll_loop m v s = Ptr w \<Longrightarrow> - 9223372036854775808 \<le> w \<and> w < 9223372036854775808"
proof (induction s arbitrary: v)
  case (Cons c s)
  then show ?case using c_llong_range by (auto split: if_splits)
qed simp

lemma line_ll_range: "- 9223372036854775808 \<le> line_ll x \<and> line_ll x < 9223372036854775808"
  using rll_loop_range c_llong_range [of 0] unfolding line_ll_def readLongLong_def
  by (auto split: ptr.splits list.splits if_splits)

lemma rll_loop_digits:
  assumes "\<forall>c \<in> set x. isdigit c" "dval a x < 9223372036854775808" "mult = 1 \<or> mult = - 1"
  shows "rll_loop mult (int a) (x @ [CR]) = Ptr (mult * int (dval a x))"
  using assms(1,2)
proof (induction x arbitrary: a)
  case Nil
  then show ?case using assms(3) by (auto simp: c_llong_id)
next
  case (Cons c x)
  have a: "a * 10 + digit_val c < 9223372036854775808"
    using Cons.prems(2) dval_mono [of "a * 10 + digit_val c" x] by simp
  then have "c_llong (c_llong (int a * 10) + int (digit_val c)) = int (a * 10 + digit_val c)"
    by (simp add: c_llong_id)
  moreover have "isdigit c" "c \<noteq> CR" using Cons.prems(1) by auto
  ultimately show ?case using Cons.IH [of "a * 10 + digit_val c"] Cons.prems by simp
qed

lemma hd_dec: "\<exists>c s. dec n = c # s \<and> isdigit c"
  by (metis dec_digits dec_nonempty list.exhaust list.set_intros(1))

lemma line_ll_dec_int:
  assumes "- 9223372036854775808 < i" "i < 9223372036854775808"
  shows "line_ll (dec_int i) = i"
proof (cases "i < 0")
  case True
  have "rll_loop (- 1) (int 0) (dec (nat (- i)) @ [CR]) = Ptr (- 1 * int (dval 0 (dec (nat (- i)))))"
    using assms True by (intro rll_loop_digits) (auto intro: dec_digits)
  then show ?thesis using True by (simp add: line_ll_def dec_int_def readLongLong_def)
next
  case False
  have "rll_loop 1 (int 0) (dec (nat i) @ [CR]) = Ptr (1 * int (dval 0 (dec (nat i))))"
    using assms False by (intro rll_loop_digits) (auto intro: dec_digits)
  then have r: "rll_loop 1 0 (dec (nat i) @ [CR]) = Ptr i" using False by simp
  obtain c s where "dec (nat i) = c # s" "isdigit c" using hd_dec by blast
  then have "readLongLong (dec (nat i) @ [CR]) = rll_loop 1 0 (dec (nat i) @ [CR])"
    by (auto simp: readLongLong_def)
  with r False show ?thesis by (simp add: line_ll_def dec_int_def)
qed

lemma line_ll_dec: "n < 9223372036854775808 \<Longrightarrow> line_ll (dec n) = int n"
  using line_ll_dec_int [of "int n"] by (simp add: dec_int_def)

section \<open>Items of a byte list\<close>

text \<open>The reader without its buffer, and the buffer put back.\<close>

definition wb :: "sds option \<Rightarrow> nat \<Rightarrow> nat \<Rightarrow> 'h redisReader \<Rightarrow> 'h redisReader" where
  "wb b p l r = r\<lparr>r_buf := b, r_pos := p, r_len := l\<rparr>"

definition core :: "'h redisReader \<Rightarrow> 'h redisReader" where
  "core r = wb None 0 0 r"

definition pending :: "'h redisReader \<Rightarrow> string" where
  "pending r = (case r_buf r of None \<Rightarrow> [] | Some b \<Rightarrow> drop (r_pos r) (content b))"

definition buf_ok :: "'h redisReader \<Rightarrow> bool" where
  "buf_ok r \<longleftrightarrow> (\<exists>b. r_buf r = Some b \<and> sds_inv b \<and> r_len r = length (content b) \<and>
     r_pos r \<le> r_len r \<and> r_len r < 1073741824)"

datatype 'h item = More "'h redisReader" nat | Wait "'h redisReader" nat | Fail "'h redisReader" | Bad

definition consumed :: "nat \<Rightarrow> 'h redisReader run \<Rightarrow> 'h item" where
  "consumed k x = (case x of Stuck \<Rightarrow> Bad | Ret ok c \<Rightarrow> if ok then More c k else Fail c)"

definition line_obj :: "'h redisReader \<Rightarrow> string \<Rightarrow> 'h made" where
  "line_obj c x =
     (let t = nat (ridx c); ty = t_type (rstack c ! t) in
      if ty = REDIS_REPLY_INTEGER
      then callback createInteger c (\<lambda>f. f (rstack c) t (line_ll x) (r_heap c)) REDIS_REPLY_INTEGER
      else callback createString c (\<lambda>f. f (rstack c) t x (r_heap c)) ty)"

definition aline :: "'h redisReader \<Rightarrow> string \<Rightarrow> 'h item" where
  "aline c d =
     (case find_crlf d of
        None \<Rightarrow> Wait c 0
      | Some k \<Rightarrow> consumed (k + 2) (finish_item c (line_obj c (take k d)) 0))"

definition nil_obj :: "'h redisReader \<Rightarrow> 'h made" where
  "nil_obj c = callback createNil c (\<lambda>f. f (rstack c) (nat (ridx c)) (r_heap c)) REDIS_REPLY_NIL"

definition bulk_obj :: "'h redisReader \<Rightarrow> string \<Rightarrow> 'h made" where
  "bulk_obj c x =
     callback createString c (\<lambda>f. f (rstack c) (nat (ridx c)) x (r_heap c)) REDIS_REPLY_STRING"

definition abulk :: "'h redisReader \<Rightarrow> string \<Rightarrow> 'h item" where
  "abulk c d =
     (case find_crlf d of
        None \<Rightarrow> Wait c 0
      | Some k \<Rightarrow>
          (let n = line_ll (take k d) in
           if n < 0 then consumed (k + 2) (finish_item c (nil_obj c) 0)
           else if k + nat n + 4 \<le> length d
           then consumed (k + nat n + 4) (finish_item c (bulk_obj c (take (nat n) (drop (k + 2) d))) 0)
           else Wait c 0))"

definition array_obj :: "'h redisReader \<Rightarrow> int \<Rightarrow> 'h made" where
  "array_obj c n =
     (if n = - 1 then nil_obj c
      else callback createArray c (\<lambda>f. f (rstack c) (nat (ridx c)) (c_int n) (r_heap c))
             REDIS_REPLY_ARRAY)"

definition array_item :: "'h redisReader \<Rightarrow> int \<Rightarrow> 'h redisReader run" where
  "array_item c n =
     (case array_obj c n of
        Fault \<Rightarrow> Stuck
      | Oom h \<Rightarrow> redisReaderSetErrorOOM (c\<lparr>r_heap := h\<rparr>)
      | Made ob h \<Rightarrow>
          set_root (ridx c = 0) ob
            (if n > 0 then push_task (c\<lparr>r_heap := h\<rparr>) n ob else moveToNextTask (c\<lparr>r_heap := h\<rparr>)))"

definition amulti :: "'h redisReader \<Rightarrow> string \<Rightarrow> 'h item" where
  "amulti c d =
     (if ridx c = 8 then
        consumed 0 (redisReaderSetError c REDIS_ERR_PROTOCOL
          ''No support for nested multi bulk replies with depth > 7'')
      else
        (case find_crlf d of
           None \<Rightarrow> Wait c 0
         | Some k \<Rightarrow> consumed (k + 2) (array_item c (line_ll (take k d)))))"

definition atyped :: "'h redisReader \<Rightarrow> string \<Rightarrow> 'h item" where
  "atyped c d =
     (let ty = t_type (rstack c ! nat (ridx c)) in
      if ty = REDIS_REPLY_ERROR \<or> ty = REDIS_REPLY_STATUS \<or> ty = REDIS_REPLY_INTEGER then aline c d
      else if ty = REDIS_REPLY_STRING then abulk c d
      else if ty = REDIS_REPLY_ARRAY then amulti c d
      else Bad)"

fun plus_item :: "nat \<Rightarrow> 'h item \<Rightarrow> 'h item" where
  "plus_item m (More c k) = More c (m + k)"
| "plus_item m (Wait c k) = Wait c (m + k)"
| "plus_item m x = x"

definition retype :: "int \<Rightarrow> 'h redisReader \<Rightarrow> 'h redisReader" where
  "retype ty c =
     c\<lparr>rstack := (rstack c)[nat (ridx c) := (rstack c ! nat (ridx c))\<lparr>t_type := ty\<rparr>]\<rparr>"

definition aitem :: "'h redisReader \<Rightarrow> string \<Rightarrow> 'h item" where
  "aitem c d =
     (if \<not> (0 \<le> ridx c \<and> nat (ridx c) < length (rstack c)) then Bad
      else if t_type (rstack c ! nat (ridx c)) < 0 then
        (case d of
           [] \<Rightarrow> Wait c 0
         | b # d' \<Rightarrow>
             (case reply_type_byte b of
                None \<Rightarrow> consumed 0 (redisReaderSetErrorProtocolByte c b)
              | Some ty \<Rightarrow> plus_item 1 (atyped (retype ty c) d')))
      else atyped c d)"

section \<open>The reader refines the specification\<close>

text \<open>The result of an item on a reader with the given buffer.\<close>

fun buffered :: "sds option \<Rightarrow> nat \<Rightarrow> nat \<Rightarrow> 'h item \<Rightarrow> 'h redisReader run" where
  "buffered b p l (More c k) = Ret True (wb b (p + k) l c)"
| "buffered b p l (Wait c k) = Ret False (wb b (p + k) l c)"
| "buffered b p l (Fail c) = Ret False c"
| "buffered b p l Bad = Stuck"

lemma wb_sel [simp]:
  "r_err (wb b p l r) = r_err r" "r_errstr (wb b p l r) = r_errstr r" "r_buf (wb b p l r) = b"
  "r_pos (wb b p l r) = p" "r_len (wb b p l r) = l" "r_maxbuf (wb b p l r) = r_maxbuf r"
  "rstack (wb b p l r) = rstack r" "ridx (wb b p l r) = ridx r" "r_reply (wb b p l r) = r_reply r"
  "r_fn (wb b p l r) = r_fn r" "r_privdata (wb b p l r) = r_privdata r" "r_heap (wb b p l r) = r_heap r"
  by (simp_all add: wb_def)

lemma wb_wb [simp]: "wb b p l (wb b' p' l' r) = wb b p l r"
  by (simp add: wb_def)

lemma core_sel [simp]:
  "r_err (core r) = r_err r" "r_errstr (core r) = r_errstr r" "r_buf (core r) = None"
  "r_pos (core r) = 0" "r_len (core r) = 0" "r_maxbuf (core r) = r_maxbuf r"
  "rstack (core r) = rstack r" "ridx (core r) = ridx r" "r_reply (core r) = r_reply r"
  "r_fn (core r) = r_fn r" "r_privdata (core r) = r_privdata r" "r_heap (core r) = r_heap r"
  by (simp_all add: core_def)

lemma core_wb [simp]: "core (wb b p l r) = core r" "wb b p l (core r) = wb b p l r"
  "core (core r) = core r"
  by (simp_all add: core_def)

lemma wb_same: "r_buf r = b \<Longrightarrow> r_pos r = p \<Longrightarrow> r_len r = l \<Longrightarrow> wb b p l r = r"
  by (auto simp: wb_def)

lemma wb_upd:
  "wb b p l (r\<lparr>r_heap := h\<rparr>) = (wb b p l r)\<lparr>r_heap := h\<rparr>"
  "wb b p l (r\<lparr>ridx := i\<rparr>) = (wb b p l r)\<lparr>ridx := i\<rparr>"
  "wb b p l (r\<lparr>rstack := rs\<rparr>) = (wb b p l r)\<lparr>rstack := rs\<rparr>"
  "wb b p l (r\<lparr>r_reply := x\<rparr>) = (wb b p l r)\<lparr>r_reply := x\<rparr>"
  by (simp_all add: wb_def)

lemma wb_pos: "(wb b p l r)\<lparr>r_pos := q\<rparr> = wb b q l r"
  by (simp add: wb_def)

lemma core_upd:
  "core (r\<lparr>r_heap := h\<rparr>) = (core r)\<lparr>r_heap := h\<rparr>"
  "core (r\<lparr>r_pos := p\<rparr>) = core r"
  "core (r\<lparr>rstack := rs\<rparr>) = (core r)\<lparr>rstack := rs\<rparr>"
  by (simp_all add: core_def wb_def)

lemma move_wb: "moveToNextTask (wb b p l r) = map_run (wb b p l) (moveToNextTask r)"
proof (induction r rule: moveToNextTask.induct)
  case (1 r)
  show ?case
  proof (cases "ridx r \<le> 0")
    case True
    then show ?thesis
      by (subst moveToNextTask.simps, subst (2) moveToNextTask.simps) (auto simp: wb_upd)
  next
    case False
    show ?thesis
      using False "1.IH" [OF _ _ refl refl refl]
      by (subst moveToNextTask.simps, subst (2) moveToNextTask.simps) (simp add: wb_upd Let_def)
  qed
qed

lemma move_ok: "moveToNextTask r = Ret ok r' \<Longrightarrow> ok"
proof (induction r rule: moveToNextTask.induct)
  case (1 r)
  then show ?case
    by (subst (asm) (2) moveToNextTask.simps) (auto simp: Let_def split: if_splits)
qed

lemma set_error_core: "redisReaderSetError (wb (Some b) p l r) ty s = redisReaderSetError (core r) ty s"
  by (simp add: redisReaderSetError_def core_def wb_def Let_def split: option.splits)

lemma set_error_False: "redisReaderSetError r ty s = Ret ok r' \<Longrightarrow> \<not> ok"
  by (auto simp: redisReaderSetError_def Let_def split: option.splits)

lemma callback_wb: "callback sel (wb b p l r) f ty = callback sel r f ty"
  by (simp add: callback_def split: option.split)

lemma finish_item_wb:
  "finish_item (wb (Some b) q l c) ob p = buffered (Some b) p l (consumed 0 (finish_item (core c) ob 0))"
proof (cases ob)
  case (Made x h)
  let ?c = "(if ridx c = 0 then c\<lparr>r_heap := h, r_reply := Some x\<rparr> else c\<lparr>r_heap := h\<rparr>)"
  have "finish_item (wb (Some b) q l c) ob p = moveToNextTask (wb (Some b) p l ?c)"
    by (simp add: finish_item_def Made wb_upd wb_pos Let_def)
  moreover have "finish_item (core c) ob 0 = moveToNextTask (wb None 0 0 ?c)"
    by (simp add: finish_item_def Made core_def wb_upd wb_pos Let_def)
  ultimately show ?thesis
    using move_ok [of ?c] by (cases "moveToNextTask ?c") (auto simp: move_wb consumed_def)
next
  case (Oom h)
  have "redisReaderSetErrorOOM ((wb (Some b) q l c)\<lparr>r_heap := h\<rparr>) = redisReaderSetErrorOOM ((core c)\<lparr>r_heap := h\<rparr>)"
    using set_error_core [of b q l "c\<lparr>r_heap := h\<rparr>"]
    by (simp add: redisReaderSetErrorOOM_def wb_upd core_upd)
  then show ?thesis
    by (auto simp: finish_item_def Oom consumed_def redisReaderSetErrorOOM_def split: run.splits
        dest: set_error_False)
qed (simp add: finish_item_def consumed_def)

lemma consumed_shift: "buffered b p l (consumed k x) = buffered b (p + k) l (consumed 0 x)"
  by (auto simp: consumed_def split: run.splits)

lemma buffer_view:
  assumes "buf_ok r"
  shows "length (pending r) = r_len r - r_pos r" "r_pos r \<le> r_len r" "r_len r < 1073741824"
    "\<exists>y. drop (r_pos r) (bytes r) = pending r @ NUL # y" "\<exists>b. r_buf r = Some b"
proof -
  from assms obtain b where b: "r_buf r = Some b" "sds_inv b" "r_len r = length (content b)"
    "r_pos r \<le> r_len r" "r_len r < 1073741824" by (auto simp: buf_ok_def)
  then show "length (pending r) = r_len r - r_pos r" "r_pos r \<le> r_len r" "r_len r < 1073741824"
    "\<exists>b. r_buf r = Some b" by (simp_all add: pending_def)
  have n: "nat (slen b) < length (sbuf b)" "sbuf b ! nat (slen b) = NUL" "nat (slen b) = r_len r"
    using b(2,3) length_content [OF b(2)] by (auto simp: sds_inv_def)
  have "sbuf b = content b @ NUL # drop (Suc (nat (slen b))) (sbuf b)"
    using id_take_nth_drop [OF n(1)] n(2) by (simp add: content_def)
  moreover have "drop (r_pos r) (content b @ ys) = pending r @ ys" for ys
    using b by (simp add: pending_def)
  ultimately show "\<exists>y. drop (r_pos r) (bytes r) = pending r @ NUL # y"
    using b(1) by (metis bytes_def option.simps(5))
qed

lemma seek_pending:
  assumes "buf_ok r"
  shows "seekNewline (drop (r_pos r) (bytes r)) (c_size (int (r_len r) - int (r_pos r))) =
    (case find_crlf (pending r) of None \<Rightarrow> Null | Some k \<Rightarrow> Ptr k)"
proof -
  note v = buffer_view [OF assms]
  obtain y where y: "drop (r_pos r) (bytes r) = pending r @ NUL # y" using v(4) by blast
  have "c_size (int (r_len r) - int (r_pos r)) = length (pending r)"
    using v(1-3) by (simp add: c_size_id nat_diff_distrib)
  moreover have "length (pending r) < 2147483648" using v(1-3) by linarith
  ultimately show ?thesis
    using seekNewline_spec [of "length (pending r)" "pending r @ NUL # y"] by (simp add: y)
qed

lemma pending_line:
  assumes "buf_ok r" "find_crlf (pending r) = Some k"
  shows "readLongLong (drop (r_pos r) (bytes r)) = Ptr (line_ll (take k (pending r)))"
  using find_crlf_split(2) [OF assms(2)] buffer_view(4) [OF assms(1)] readLongLong_line
  by (metis append.assoc append_Cons)

lemma pending_cut:
  assumes "buf_ok r" "i + n \<le> length (pending r)"
  shows "cut (bytes r) (r_pos r + i) n = Some (take n (drop i (pending r)))"
proof -
  obtain y where y: "drop (r_pos r) (bytes r) = pending r @ NUL # y" using buffer_view(4) [OF assms(1)] by blast
  have "length (drop (r_pos r) (bytes r)) = length (pending r) + 1 + length y" by (simp add: y)
  then have "r_pos r + i + n \<le> length (bytes r)" using assms(2) by (simp only: length_drop)
  moreover have "drop (r_pos r + i) (bytes r) = drop i (pending r) @ NUL # y"
    using assms(2) y by (simp add: add.commute [of "r_pos r"] flip: drop_drop)
  ultimately show ?thesis using assms(2) by (simp add: cut_def)
qed

lemma readLine_pending:
  assumes "buf_ok r"
  shows "readLine r = (case find_crlf (pending r) of None \<Rightarrow> Null
    | Some k \<Rightarrow> Ptr (r_pos r, int k, r\<lparr>r_pos := r_pos r + k + 2\<rparr>))"
proof -
  have "c_int (int k) = int k \<and> c_size (int (r_pos r) + (int k + 2)) = r_pos r + k + 2"
    if "find_crlf (pending r) = Some k" for k
    using find_crlf_split(1) [OF that] buffer_view(1-3) [OF assms]
    by (simp add: c_int_id c_size_id nat_add_distrib)
  then show ?thesis
    by (auto simp: readLine_def seek_pending [OF assms] Let_def split: option.splits)
qed

text \<open>A reader with a good buffer is its core with the buffer put back.\<close>

lemma buf_split: "r = wb (r_buf r) (r_pos r) (r_len r) (core r)"
  by (simp add: core_def wb_def)

lemma callback_core: "callback sel (core r) f ty = callback sel r f ty"
  by (simp add: core_def callback_wb)

lemma callback_pos: "callback sel (r\<lparr>r_pos := p\<rparr>) f ty = callback sel r f ty"
  by (simp add: callback_def split: option.split)

lemma line_refines:
  assumes "buf_ok r"
  shows "processLineItem r = buffered (r_buf r) (r_pos r) (r_len r) (aline (core r) (pending r))"
proof (cases "find_crlf (pending r)")
  case None
  then show ?thesis
    by (simp add: processLineItem_def readLine_pending [OF assms] aline_def wb_def core_def Let_def)
next
  case (Some k)
  obtain b where b: "r_buf r = Some b" using buffer_view(5) [OF assms] by blast
  define r1 where "r1 = r\<lparr>r_pos := r_pos r + k + 2\<rparr>"
  have r1: "r1 = wb (Some b) (r_pos r + k + 2) (r_len r) (core r)" "bytes r1 = bytes r"
    "rstack r1 = rstack r" "r_heap r1 = r_heap r"
    by (simp_all add: r1_def core_def wb_def bytes_def flip: b)
  have rl: "readLine r = Ptr (r_pos r, int k, r1)"
    by (simp add: readLine_pending [OF assms] Some r1_def)
  have cb: "callback sel r1 f ty = callback sel r f ty" for sel :: "'a redisReplyObjectFunctions \<Rightarrow> 'c option" and f ty
    unfolding r1_def by (rule callback_pos)
  have k: "k + 2 \<le> length (pending r)" using find_crlf_split(1) [OF Some] .
  have c: "cut (bytes r) (r_pos r) k = Some (take k (pending r))"
    using pending_cut [OF assms, of 0 k] k by simp
  have "c_size (int k) = k" using k buffer_view(1-3) [OF assms] by (simp add: c_size_of_nat)
  then have "processLineItem r = finish_item r1 (line_obj (core r) (take k (pending r))) (r_pos r1)"
    by (simp add: processLineItem_def rl Let_def c r1(2-4) cb callback_core
        pending_line [OF assms Some] line_obj_def)
  then show ?thesis
    by (simp add: r1(1) finish_item_wb aline_def Some b consumed_shift [of _ _ _ "Suc (Suc k)"] add.assoc)
qed

lemma bulk_refines:
  assumes "buf_ok r"
  shows "processBulkItem r = buffered (r_buf r) (r_pos r) (r_len r) (abulk (core r) (pending r))"
proof (cases "find_crlf (pending r)")
  case None
  then show ?thesis
    by (simp add: processBulkItem_def seek_pending [OF assms] abulk_def wb_def core_def Let_def)
next
  case (Some k)
  obtain b where b: "r_buf r = Some b" using buffer_view(5) [OF assms] by blast
  have r: "r = wb (Some b) (r_pos r) (r_len r) (core r)" using buf_split [of r] b by simp
  note v = buffer_view(1-3) [OF assms]
  have k: "k + 2 \<le> length (pending r)" using find_crlf_split(1) [OF Some] .
  define n where "n = line_ll (take k (pending r))"
  have n: "n < 9223372036854775808" using line_ll_range n_def by simp
  have fin: "finish_item r ob p = buffered (Some b) p (r_len r) (consumed 0 (finish_item (core r) ob 0))" for ob p
    using finish_item_wb [of b "r_pos r" "r_len r" "core r"] r by simp
  have s2: "c_size (int (r_pos r) + (2 + int k)) = r_pos r + (k + 2)"
    using k v by (simp add: c_size_id nat_add_distrib)
  have nil: "callback createNil r (\<lambda>f. f (rstack r) (nat (ridx r)) (r_heap r)) REDIS_REPLY_NIL = nil_obj (core r)"
    by (simp add: nil_obj_def core_def callback_wb)
  show ?thesis
  proof (cases "n < 0")
    case True
    then show ?thesis
      by (simp add: processBulkItem_def seek_pending [OF assms] Some pending_line [OF assms Some] Let_def
          fin nil s2 abulk_def b consumed_shift [of _ _ _ "Suc (Suc k)"] flip: n_def)
  next
    case False
    define w where "w = k + nat n + 4"
    have w: "c_size (2 + int k + c_llong (n + 2)) = w" "c_size (int (r_pos r) + int w) = r_pos r + w"
    proof -
      have "(2 + int k + c_llong (n + 2)) mod 18446744073709551616 = (2 + int k + (n + 2)) mod 18446744073709551616"
        by (rule c_llong_mod)
      also have "\<dots> = int w" using n False k v by (simp add: w_def)
      finally show "c_size (2 + int k + c_llong (n + 2)) = w" by (simp add: c_size_def)
      show "c_size (int (r_pos r) + int w) = r_pos r + w"
        using n False k v by (simp add: c_size_id w_def nat_add_distrib)
    qed
    have le: "r_pos r + w \<le> r_len r \<longleftrightarrow> w \<le> length (pending r)" using v by linarith
    have cut: "cut (bytes r) (r_pos r + k + 2) (nat n) = Some (take (nat n) (drop (k + 2) (pending r)))"
      if "w \<le> length (pending r)"
      using pending_cut [OF assms, of "k + 2" "nat n"] that by (simp add: w_def add.assoc)
    have lhs: "processBulkItem r = (if w \<le> length (pending r) then
        finish_item r (bulk_obj (core r) (take (nat n) (drop (k + 2) (pending r)))) (r_pos r + w) else Ret False r)"
      using False w le cut
      by (simp add: processBulkItem_def seek_pending [OF assms] Some pending_line [OF assms Some] Let_def
          bulk_obj_def core_def callback_wb flip: n_def)
    have rhs: "abulk (core r) (pending r) = (if w \<le> length (pending r) then
        consumed w (finish_item (core r) (bulk_obj (core r) (take (nat n) (drop (k + 2) (pending r)))) 0)
        else Wait (core r) 0)"
      using False by (simp add: abulk_def Some w_def Let_def flip: n_def)
    show ?thesis unfolding lhs rhs
      using r by (simp add: fin b consumed_shift [of _ _ _ w])
  qed
qed

lemma set_root_map: "set_root root ob (map_run (wb b p l) x) = map_run (wb b p l) (set_root root ob x)"
  by (cases x) (simp_all add: set_root_def wb_upd)

lemma push_wb: "push_task (wb b p l r) n ob = map_run (wb b p l) (push_task r n ob)"
  by (simp add: push_task_def Let_def wb_def)

lemma array_obj_wb: "array_obj (wb b p l c) n = array_obj c n"
  by (simp add: array_obj_def nil_obj_def callback_wb)

lemma array_item_wb:
  "array_item (wb (Some b) p l c) n = buffered (Some b) p l (consumed 0 (array_item (core c) n))"
proof (cases "array_obj c n")
  case (Made x h)
  define m where "m = set_root (ridx c = 0) x
    (if n > 0 then push_task (c\<lparr>r_heap := h\<rparr>) n x else moveToNextTask (c\<lparr>r_heap := h\<rparr>))"
  have "array_item (wb b' p' l' c) n = map_run (wb b' p' l') m" for b' p' l'
    using Made move_wb [of b' p' l' "c\<lparr>r_heap := h\<rparr>"] push_wb [of b' p' l' "c\<lparr>r_heap := h\<rparr>"]
    by (simp add: array_item_def array_obj_wb m_def wb_upd set_root_map flip: set_root_map)
  moreover have "m = Ret ok r' \<Longrightarrow> ok" for ok r'
    by (auto simp: m_def set_root_def push_task_def Let_def split: run.splits if_splits dest: move_ok)
  ultimately show ?thesis by (cases m) (auto simp: consumed_def core_def)
next
  case (Oom h)
  have "redisReaderSetErrorOOM ((wb (Some b) p l c)\<lparr>r_heap := h\<rparr>) = redisReaderSetErrorOOM ((core c)\<lparr>r_heap := h\<rparr>)"
    using set_error_core [of b p l "c\<lparr>r_heap := h\<rparr>"]
    by (simp add: redisReaderSetErrorOOM_def wb_upd core_upd)
  then show ?thesis using Oom
    by (auto simp: array_item_def array_obj_wb consumed_def redisReaderSetErrorOOM_def core_def split: run.splits
        dest: set_error_False)
next
  case Fault
  then show ?thesis
    by (simp add: array_item_def array_obj_wb consumed_def core_def)
qed

lemma multi_refines:
  assumes "buf_ok r"
  shows "processMultiBulkItem r = buffered (r_buf r) (r_pos r) (r_len r) (amulti (core r) (pending r))"
proof -
  obtain b where b: "r_buf r = Some b" using buffer_view(5) [OF assms] by blast
  have r: "r = wb (Some b) (r_pos r) (r_len r) (core r)" using buf_split [of r] b by simp
  show ?thesis
  proof (cases "ridx r = 8")
    case True
    have "redisReaderSetError r ty s = buffered (r_buf r) (r_pos r) (r_len r) (consumed 0 (redisReaderSetError (core r) ty s))" for ty s
      using set_error_core [of b "r_pos r" "r_len r" "core r" ty s] r
      by (auto simp: consumed_def split: run.splits dest: set_error_False)
    with True show ?thesis by (simp add: processMultiBulkItem_def amulti_def)
  next
    case False
    show ?thesis
    proof (cases "find_crlf (pending r)")
      case None
      then show ?thesis using False r
        by (simp add: processMultiBulkItem_def readLine_pending [OF assms] amulti_def)
    next
      case (Some k)
      define r1 where "r1 = r\<lparr>r_pos := r_pos r + k + 2\<rparr>"
      have r1: "r1 = wb (Some b) (r_pos r + k + 2) (r_len r) (core r)" "bytes r1 = bytes r"
        by (simp_all add: r1_def core_def wb_def bytes_def flip: b)
      have sel: "ridx r1 = ridx r" by (simp add: r1_def)
      have rl: "readLine r = Ptr (r_pos r, int k, r1)"
        by (simp add: readLine_pending [OF assms] Some r1_def)
      have "processMultiBulkItem r = array_item r1 (line_ll (take k (pending r)))"
        using False
        by (simp add: processMultiBulkItem_def rl pending_line [OF assms Some]
            r1(2) array_item_def array_obj_def nil_obj_def sel Let_def cong: made.case_cong)
      then show ?thesis using False
        by (simp add: r1(1) array_item_wb amulti_def Some b consumed_shift [of _ _ _ "Suc (Suc k)"] add.assoc)
    qed
  qed
qed

lemma typed_refines:
  assumes "buf_ok r"
  shows "process_typed r = buffered (r_buf r) (r_pos r) (r_len r) (atyped (core r) (pending r))"
  by (simp add: process_typed_def atyped_def Let_def line_refines [OF assms] bulk_refines [OF assms]
      multi_refines [OF assms])

lemma buffered_plus: "buffered b p l (plus_item m x) = buffered b (p + m) l x"
  by (cases x) (simp_all add: add.assoc)

lemma reply_type_byte_le: "reply_type_byte c = Some ty \<Longrightarrow> 0 < ty"
  by (auto simp: reply_type_byte_def split: if_splits)

text \<open>One item of the reader is one item of the byte list.\<close>

lemma item_refines:
  assumes "buf_ok r"
  shows "processItem r = buffered (r_buf r) (r_pos r) (r_len r) (aitem (core r) (pending r))"
proof -
  obtain b where b: "r_buf r = Some b" using buffer_view(5) [OF assms] by blast
  have r: "r = wb (Some b) (r_pos r) (r_len r) (core r)" using buf_split [of r] b by simp
  note v = buffer_view(1-3) [OF assms]
  let ?i = "nat (ridx r)"
  consider "\<not> (0 \<le> ridx r \<and> ?i < length (rstack r))"
    | "0 \<le> ridx r" "?i < length (rstack r)" "\<not> t_type (rstack r ! ?i) < 0"
    | "0 \<le> ridx r" "?i < length (rstack r)" "t_type (rstack r ! ?i) < 0" by linarith
  then show ?thesis
  proof cases
    case 1
    then show ?thesis by (auto simp: processItem_def aitem_def)
  next
    case 2
    then show ?thesis by (simp add: processItem_def aitem_def typed_refines [OF assms])
  next
    case 3
    have sz: "c_size (int (r_len r) - int (r_pos r)) = length (pending r)"
      using v by (simp add: c_size_id nat_diff_distrib)
    show ?thesis
    proof (cases "pending r")
      case Nil
      then show ?thesis using 3 sz r by (simp add: processItem_def aitem_def readBytes_def)
    next
      case (Cons c d)
      obtain y where y: "drop (r_pos r) (bytes r) = pending r @ NUL # y"
        using buffer_view(4) [OF assms] by blast
      have p: "r_pos r < length (bytes r)" using y by (cases "r_pos r < length (bytes r)") simp_all
      then have c: "bytes r ! r_pos r = c" using y Cons by (simp add: Cons_nth_drop_Suc [symmetric])
      define r1 where "r1 = r\<lparr>r_pos := Suc (r_pos r)\<rparr>"
      have r1: "r1 = wb (Some b) (Suc (r_pos r)) (r_len r) (core r)" "bytes r1 = bytes r"
        by (simp_all add: r1_def core_def wb_def bytes_def flip: b)
      show ?thesis
      proof (cases "reply_type_byte c")
        case None
        have "redisReaderSetErrorProtocolByte r1 c = buffered (Some b) (r_pos r) (r_len r)
            (consumed 0 (redisReaderSetErrorProtocolByte (core r) c))"
          unfolding redisReaderSetErrorProtocolByte_def r1(1)
          by (auto simp: set_error_core consumed_def split: run.splits dest: set_error_False)
        then show ?thesis using 3 sz None p c Cons r1(2) b
          by (simp add: processItem_def aitem_def readBytes_def flip: r1_def)
      next
        case (Some ty)
        define r2 where "r2 = retype ty r1"
        have r2: "r2 = wb (Some b) (Suc (r_pos r)) (r_len r) (retype ty (core r))"
          by (simp add: r2_def r1(1) retype_def wb_upd)
        have c2: "core r2 = retype ty (core r)" "pending r2 = d" "buf_ok r2"
          using assms Cons v
          by (auto simp: r2 retype_def core_upd pending_def buf_ok_def b simp flip: drop_Suc tl_drop)
            (metis drop_Suc list.sel(3) tl_drop)
        have "processItem r = process_typed r2"
          using 3 sz Some p c Cons r1(2)
          by (simp add: processItem_def readBytes_def r2_def retype_def r1_def Let_def)
        then show ?thesis
          using 3 Some Cons typed_refines [OF c2(3)]
          by (simp add: aitem_def c2 buffered_plus b) (simp add: r2)
      qed
    qed
  qed
qed

section \<open>Progress and cuts\<close>

lemma consumed_More: "consumed k x = More c m \<Longrightarrow> m = k"
  by (auto simp: consumed_def split: run.splits if_splits)

lemma consumed_not_Wait: "consumed k x \<noteq> Wait c m"
  by (auto simp: consumed_def split: run.splits)

lemma consumed_error: "consumed k (redisReaderSetError c ty s) \<noteq> More c' m"
  by (auto simp: consumed_def split: run.splits dest: set_error_False)

lemma atyped_More:
  assumes "atyped c d = More c' k"
  shows "0 < k \<and> k \<le> length d"
  using assms find_crlf_split(1) [of d]
  by (auto simp: atyped_def aline_def abulk_def amulti_def Let_def consumed_error
      split: if_splits option.splits dest!: consumed_More)

lemma plus_item_More: "plus_item m x = More c k \<longleftrightarrow> (\<exists>j. x = More c j \<and> k = m + j)"
  by (cases x) auto

lemma plus_item_Wait: "plus_item m x = Wait c k \<longleftrightarrow> (\<exists>j. x = Wait c j \<and> k = m + j)"
  by (cases x) auto

lemma aitem_More:
  assumes "aitem c d = More c' k"
  shows "0 < k \<and> k \<le> length d"
  using assms
  by (cases "t_type (rstack c ! nat (ridx c)) < 0"; cases d)
    (auto simp: aitem_def consumed_error redisReaderSetErrorProtocolByte_def plus_item_More
      split: if_splits option.splits dest: atyped_More)

lemma atyped_Wait: "atyped c d = Wait c' k \<Longrightarrow> c' = c \<and> k = 0"
  by (auto simp: atyped_def aline_def abulk_def amulti_def Let_def consumed_not_Wait
      split: if_splits option.splits)

text \<open>More input does not change what is done with an item that is complete.\<close>

lemma atyped_append:
  assumes "\<And>c' k. atyped c d \<noteq> Wait c' k"
  shows "atyped c (d @ y) = atyped c d"
proof (cases "find_crlf d")
  case None
  then show ?thesis using assms [of c 0]
    by (auto simp: atyped_def aline_def abulk_def amulti_def Let_def split: if_splits)
next
  case (Some k)
  have k: "k + 2 \<le> length d" using find_crlf_split(1) [OF Some] .
  have "abulk c (d @ y) = abulk c d" if "abulk c d \<noteq> Wait c 0"
    using that k by (auto simp: abulk_def Let_def Some find_crlf_append [OF Some] split: if_splits)
  then show ?thesis using assms [of c 0] k
    by (auto simp: atyped_def aline_def amulti_def Let_def Some find_crlf_append [OF Some] split: if_splits)
qed

lemma aitem_append:
  assumes "\<And>c' k. aitem c d \<noteq> Wait c' k"
  shows "aitem c (d @ y) = aitem c d"
proof (cases "t_type (rstack c ! nat (ridx c)) < 0")
  case True
  show ?thesis
  proof (cases d)
    case Nil
    then show ?thesis using assms [of c 0] True by (auto simp: aitem_def)
  next
    case (Cons b d')
    have "atyped (retype ty c) (d' @ y) = atyped (retype ty c) d'"
      if "reply_type_byte b = Some ty" "0 \<le> ridx c \<and> nat (ridx c) < length (rstack c)" for ty
      using assms True Cons that by (intro atyped_append) (auto simp: aitem_def plus_item_Wait)
    then show ?thesis using True Cons by (auto simp: aitem_def split: option.splits)
  qed
next
  case False
  then show ?thesis using assms atyped_append [of c d y] by (auto simp: aitem_def)
qed

lemma retype_sel [simp]: "ridx (retype ty c) = ridx c" "length (rstack (retype ty c)) = length (rstack c)"
  by (simp_all add: retype_def)

text \<open>An item that stopped for lack of input continues where it stopped.\<close>

lemma aitem_Wait:
  assumes "aitem c d = Wait c' k"
  shows "k \<le> length d \<and> ridx c' = ridx c \<and> r_err c' = r_err c \<and>
    aitem c (d @ y) = plus_item k (aitem c' (drop k d @ y))"
proof (cases "t_type (rstack c ! nat (ridx c)) < 0 \<and> d \<noteq> []")
  case True
  then obtain b d' where d: "d = b # d'" by (cases d) auto
  have i: "0 \<le> ridx c" "nat (ridx c) < length (rstack c)"
    using assms by (auto simp: aitem_def split: if_splits)
  with assms True d obtain ty where ty: "reply_type_byte b = Some ty" "plus_item 1 (atyped (retype ty c) d') = Wait c' k"
    by (auto simp: aitem_def consumed_not_Wait split: option.splits)
  then have c': "c' = retype ty c" "k = 1" using atyped_Wait by (auto simp: plus_item_Wait)
  have "\<not> t_type (rstack (retype ty c) ! nat (ridx c)) < 0"
    using reply_type_byte_le [OF ty(1)] i by (simp add: retype_def)
  then show ?thesis using True d i ty(1) c' by (simp add: aitem_def retype_def)
next
  case False
  then have "c' = c" "k = 0" using assms atyped_Wait
    by (auto simp: aitem_def split: if_splits)
  moreover have "plus_item 0 x = x" for x :: "'a item" by (cases x) simp_all
  ultimately show ?thesis by simp
qed

lemma set_error_is_core: "redisReaderSetError (core c) ty s = Ret ok c' \<Longrightarrow> core c' = c'"
  by (auto simp: redisReaderSetError_def Let_def core_def wb_def split: option.splits)

lemma map_wb_core: "map_run (wb None 0 0) x = Ret ok c' \<Longrightarrow> core c' = c'"
  by (cases x) (auto simp: core_def)

lemma finish_is_core: "finish_item (core c) ob 0 = Ret ok c' \<Longrightarrow> core c' = c'"
proof (cases ob)
  case (Made x h)
  let ?c = "(if ridx c = 0 then c\<lparr>r_heap := h, r_reply := Some x\<rparr> else c\<lparr>r_heap := h\<rparr>)"
  have "finish_item (core c) ob 0 = moveToNextTask (wb None 0 0 ?c)"
    by (simp add: finish_item_def Made core_def wb_upd wb_pos Let_def)
  then show "finish_item (core c) ob 0 = Ret ok c' \<Longrightarrow> core c' = c'"
    using map_wb_core by (metis move_wb)
next
  case (Oom h)
  then show "finish_item (core c) ob 0 = Ret ok c' \<Longrightarrow> core c' = c'"
    using set_error_is_core [of "c\<lparr>r_heap := h\<rparr>"]
    by (simp add: finish_item_def redisReaderSetErrorOOM_def core_upd)
qed (simp add: finish_item_def)

lemma array_is_core: "array_item (core c) n = Ret ok c' \<Longrightarrow> core c' = c'"
proof (cases "array_obj c n")
  case (Made x h)
  have "array_item (core c) n = map_run (wb None 0 0) (set_root (ridx c = 0) x
    (if n > 0 then push_task (c\<lparr>r_heap := h\<rparr>) n x else moveToNextTask (c\<lparr>r_heap := h\<rparr>)))"
    using Made move_wb [of None 0 0 "c\<lparr>r_heap := h\<rparr>"] push_wb [of None 0 0 "c\<lparr>r_heap := h\<rparr>"]
    by (simp add: core_def array_item_def array_obj_wb wb_upd flip: set_root_map)
  then show "array_item (core c) n = Ret ok c' \<Longrightarrow> core c' = c'" using map_wb_core by metis
next
  case (Oom h)
  then show "array_item (core c) n = Ret ok c' \<Longrightarrow> core c' = c'"
    using set_error_is_core [of "c\<lparr>r_heap := h\<rparr>"] array_obj_wb [of None 0 0 c n]
    by (simp add: array_item_def redisReaderSetErrorOOM_def wb_upd core_def)
next
  case Fault
  then show "array_item (core c) n = Ret ok c' \<Longrightarrow> core c' = c'"
    using array_obj_wb [of None 0 0 c n] by (simp add: array_item_def core_def)
qed

fun item_core :: "'h item \<Rightarrow> bool" where
  "item_core (More c k) = (core c = c)"
| "item_core (Wait c k) = (core c = c)"
| "item_core (Fail c) = (core c = c)"
| "item_core Bad = True"

lemma consumed_core: "(\<And>ok c. x = Ret ok c \<Longrightarrow> core c = c) \<Longrightarrow> item_core (consumed k x)"
  by (auto simp: consumed_def split: run.splits)

lemma atyped_core: "item_core (atyped (core c) d)"
  by (auto simp: atyped_def aline_def abulk_def amulti_def Let_def split: option.splits
      intro!: consumed_core intro: finish_is_core array_is_core set_error_is_core)

lemma aitem_core: "item_core (aitem (core c) d)"
proof -
  have s: "retype ty (core c) = core (retype ty c)" for ty by (simp add: retype_def core_upd)
  have p: "item_core (plus_item m x) = item_core x" for m and x :: "'a item" by (cases x) simp_all
  show ?thesis unfolding aitem_def s redisReaderSetErrorProtocolByte_def
    using atyped_core
    by (auto simp: p split: list.splits option.splits intro!: consumed_core intro: set_error_is_core)
qed

section \<open>The loop\<close>

datatype 'h readout = Complete "'h redisReader" string | Partial "'h redisReader" string
  | Failed "'h redisReader" | Broken

function aloop :: "'h redisReader \<Rightarrow> string \<Rightarrow> 'h readout" where
  "aloop c d =
     (if ridx c \<ge> 0 then
        (case aitem c d of
           More c' k \<Rightarrow> aloop c' (drop k d)
         | Wait c' k \<Rightarrow> Partial c' (drop k d)
         | Fail c' \<Rightarrow> Failed c'
         | Bad \<Rightarrow> Broken)
      else Complete c d)"
  by pat_completeness auto
termination
  by (relation "measure (\<lambda>(c, d). length d)") (auto dest!: aitem_More)

declare aloop.simps [simp del]

text \<open>The concrete reader that corresponds to an readout: the position is what has been
  consumed of the buffer.\<close>

fun placed :: "sds option \<Rightarrow> nat \<Rightarrow> 'h readout \<Rightarrow> 'h redisReader run" where
  "placed b l (Complete c d) = Ret True (wb b (l - length d) l c)"
| "placed b l (Partial c d) = Ret False (wb b (l - length d) l c)"
| "placed b l (Failed c) = Ret False c"
| "placed b l Broken = Stuck"

text \<open>The loop of \<^verbatim>\<open>redisReaderGetReply\<close> always returns, with the readout on the byte list.\<close>

lemma loop_refines:
  assumes "buf_ok r"
  shows "process_loop r = Some (placed (r_buf r) (r_len r) (aloop (core r) (pending r)))"
  using assms
proof (induction "core r" "pending r" arbitrary: r rule: aloop.induct)
  case 1
  note ok = \<open>buf_ok r\<close>
  note v = buffer_view(1-3) [OF ok]
  show ?case
  proof (cases "ridx r \<ge> 0")
    case False
    have "r = wb (r_buf r) (r_len r - length (pending r)) (r_len r) (core r)"
      using buf_split [of r] v by simp
    then show ?thesis using False by (simp add: process_loop.simps [of r] aloop.simps [of "core r"])
  next
    case True
    have c: "item_core (aitem (core r) (pending r))" by (rule aitem_core)
    show ?thesis
    proof (cases "aitem (core r) (pending r)")
      case (More c' k)
      define r' where "r' = wb (r_buf r) (r_pos r + k) (r_len r) c'"
      have k: "k \<le> length (pending r)" using aitem_More [OF More] by simp
      have c': "core r' = c'" using c More by (simp add: r'_def)
      have ok': "buf_ok r'" using ok k v by (auto simp: r'_def buf_ok_def)
      obtain b where "r_buf r = Some b" using buffer_view(5) [OF ok] by blast
      then have p': "pending r' = drop k (pending r)"
        by (simp add: r'_def pending_def add.commute)
      note r' = c' p' ok'
      have "process_loop r' = Some (placed (r_buf r') (r_len r') (aloop (core r') (pending r')))"
        using "1.hyps" [of r' k] True More r' by simp
      then show ?thesis
        using True item_refines [OF ok] More r'
        by (simp add: process_loop.simps [of r] aloop.simps [of "core r"] r'_def [symmetric]) (simp add: r'_def)
    next
      case (Wait c' k)
      have k: "k \<le> length (pending r)" using aitem_Wait [OF Wait] by simp
      then have "r_len r - (length (pending r) - k) = r_pos r + k" using v by simp
      then show ?thesis
        using True item_refines [OF ok] Wait
        by (simp add: process_loop.simps [of r] aloop.simps [of "core r"])
    qed (use True item_refines [OF ok] in
        \<open>simp_all add: process_loop.simps [of r] aloop.simps [of "core r"]\<close>)
  qed
qed

text \<open>Cutting the input: what the loop does with the second part after it stopped on the
  first is what it does with the whole.\<close>

lemma aloop_append:
  "aloop c (x @ y) =
     (case aloop c x of
        Complete c' d \<Rightarrow> Complete c' (d @ y)
      | Partial c' d \<Rightarrow> aloop c' (d @ y)
      | Failed c' \<Rightarrow> Failed c'
      | Broken \<Rightarrow> Broken)"
proof (induction c x rule: aloop.induct)
  case (1 c x)
  show ?case
  proof (cases "ridx c \<ge> 0")
    case False
    then show ?thesis by (simp add: aloop.simps)
  next
    case True
    show ?thesis
    proof (cases "aitem c x")
      case (More c' k)
      have "aitem c (x @ y) = More c' k" using aitem_append [of c x y] More by simp
      moreover have "k \<le> length x" using aitem_More [OF More] by simp
      ultimately show ?thesis using "1.IH" [OF True More] True More
        by (simp add: aloop.simps [of c])
    next
      case (Wait c' k)
      have w: "k \<le> length x" "ridx c' = ridx c" "aitem c (x @ y) = plus_item k (aitem c' (drop k x @ y))"
        using aitem_Wait [OF Wait] by auto
      have "aloop c (x @ y) = aloop c' (drop k x @ y)"
        using True w
        by (cases "aitem c' (drop k x @ y)")
          (simp_all add: aloop.simps [of c] aloop.simps [of c'] add.commute flip: drop_drop)
      then show ?thesis using True Wait by (simp add: aloop.simps [of c x])
    next
      case (Fail c')
      have "aitem c (x @ y) = Fail c'" using aitem_append [of c x y] Fail by simp
      then show ?thesis using True Fail by (simp add: aloop.simps [of c])
    next
      case Bad
      have "aitem c (x @ y) = Bad" using aitem_append [of c x y] Bad by simp
      then show ?thesis using True Bad by (simp add: aloop.simps [of c])
    qed
  qed
qed

end
