(* ===== verification/ReplyValue.thy ===== *)
theory ReplyValue
  imports ReaderSpec
begin

text \<open>
  Reply values: the values of the reply protocol, their encoding on the wire, and the
  representation of a value by objects of the store in the order in which the reader
  allocates them.  The lemmas show that a representation only depends on the addresses it
  covers and that freeing it removes exactly its objects.
\<close>

datatype reply = RStatus string | RError string | RInteger int | RString string | RNil
  | RArray "reply list"

fun encode :: "reply \<Rightarrow> string" where
  "encode (RStatus s) = CHR ''+'' # s @ CRLF"
| "encode (RError s) = CHR ''-'' # s @ CRLF"
| "encode (RInteger i) = CHR '':'' # dec_int i @ CRLF"
| "encode (RString s) = bulk s"
| "encode RNil = ''$-1'' @ CRLF"
| "encode (RArray vs) = CHR ''*'' # dec (length vs) @ CRLF @ concat (map encode vs)"

text \<open>What the reader supports: lines without a line end inside, numbers above the least
  \<^verbatim>\<open>long long\<close>, lengths that fit \<^verbatim>\<open>int\<close>, at most \<open>d\<close> levels of arrays.\<close>

fun wf_reply :: "nat \<Rightarrow> reply \<Rightarrow> bool" where
  "wf_reply d (RStatus s) = (find_crlf s = None \<and> length s < 2147483648)"
| "wf_reply d (RError s) = (find_crlf s = None \<and> length s < 2147483648)"
| "wf_reply d (RInteger i) = (- 9223372036854775808 < i \<and> i < 9223372036854775808)"
| "wf_reply d (RString s) = (length s < 2147483648)"
| "wf_reply d RNil = True"
| "wf_reply d (RArray vs) = (d > 0 \<and> length vs < 2147483648 \<and> list_all (wf_reply (d - 1)) vs)"

section \<open>Representation\<close>

fun cost :: "reply \<Rightarrow> nat" where
  "cost (RStatus s) = 2"
| "cost (RError s) = 2"
| "cost (RInteger i) = 1"
| "cost (RString s) = 2"
| "cost RNil = 1"
| "cost (RArray vs) = (if vs = [] then 1 else 2 + sum_list (map cost vs))"

fun addrs :: "nat \<Rightarrow> reply list \<Rightarrow> nat list" where
  "addrs b [] = []"
| "addrs b (v # vs) = b # addrs (b + cost v) vs"

definition string_cell :: "int \<Rightarrow> string \<Rightarrow> redisReply" where
  "string_cell ty s = (zeroed ty)\<lparr>rp_str := Some (s @ [NUL]), rp_len := int (length s)\<rparr>"

definition array_cell :: "nat option list \<Rightarrow> redisReply" where
  "array_cell es = (zeroed REDIS_REPLY_ARRAY)\<lparr>rp_elements := length es,
     rp_element := (if es = [] then None else Some es)\<rparr>"

fun rep :: "(nat \<rightharpoonup> redisReply) \<Rightarrow> nat \<Rightarrow> reply \<Rightarrow> bool"
  and reps :: "(nat \<rightharpoonup> redisReply) \<Rightarrow> nat \<Rightarrow> reply list \<Rightarrow> bool" where
  "rep ob a (RStatus s) = (ob a = Some (string_cell REDIS_REPLY_STATUS s))"
| "rep ob a (RError s) = (ob a = Some (string_cell REDIS_REPLY_ERROR s))"
| "rep ob a (RInteger i) = (ob a = Some ((zeroed REDIS_REPLY_INTEGER)\<lparr>rp_integer := i\<rparr>))"
| "rep ob a (RString s) = (ob a = Some (string_cell REDIS_REPLY_STRING s))"
| "rep ob a RNil = (ob a = Some (zeroed REDIS_REPLY_NIL))"
| "rep ob a (RArray vs) =
     (ob a = Some (array_cell (map Some (addrs (a + 2) vs))) \<and> reps ob (a + 2) vs)"
| "reps ob b [] = True"
| "reps ob b (v # vs) = (rep ob b v \<and> reps ob (b + cost v) vs)"

lemma cost_pos: "0 < cost v"
  by (cases v) auto

lemma length_addrs [simp]: "length (addrs b vs) = length vs"
  by (induction vs arbitrary: b) simp_all

lemma addrs_append: "addrs b (vs @ [v]) = addrs b vs @ [b + sum_list (map cost vs)]"
  by (induction vs arbitrary: b) (simp_all add: add.assoc)

lemma reps_append: "reps ob b (vs @ [v]) \<longleftrightarrow> reps ob b vs \<and> rep ob (b + sum_list (map cost vs)) v"
  by (induction vs arbitrary: b) (simp_all add: add.assoc)

lemma rep_cong:
  "(\<And>x. a \<le> x \<Longrightarrow> x < a + cost v \<Longrightarrow> ob' x = ob x) \<Longrightarrow> rep ob' a v = rep ob a v"
  "(\<And>x. b \<le> x \<Longrightarrow> x < b + sum_list (map cost vs) \<Longrightarrow> ob' x = ob x) \<Longrightarrow> reps ob' b vs = reps ob b vs"
proof (induction ob a v and ob b vs rule: rep_reps.induct)
  case (6 ob a vs)
  have "ob' a = ob a" using "6.prems" [of a] by (cases vs) auto
  moreover have "reps ob' (a + 2) vs = reps ob (a + 2) vs"
    using 6 by (cases "vs = []") auto
  ultimately show ?case by simp
next
  case (8 ob b v vs)
  then show ?case by simp
qed auto

text \<open>The addresses of the objects of a representation.\<close>

fun live :: "nat \<Rightarrow> reply \<Rightarrow> nat set" and lives :: "nat \<Rightarrow> reply list \<Rightarrow> nat set" where
  "live a (RArray vs) = insert a (lives (a + 2) vs)"
| "live a (RStatus s) = {a}"
| "live a (RError s) = {a}"
| "live a (RInteger i) = {a}"
| "live a (RString s) = {a}"
| "live a RNil = {a}"
| "lives b [] = {}"
| "lives b (v # vs) = live b v \<union> lives (b + cost v) vs"

lemma live_bounds:
  "live a v \<subseteq> {a..<a + cost v}"
  "lives b vs \<subseteq> {b..<b + sum_list (map cost vs)}"
proof (induction a v and b vs rule: live_lives.induct)
  case (1 a vs)
  then have "x \<in> lives (a + 2) vs \<Longrightarrow> a + 2 \<le> x \<and> x < a + 2 + sum_list (map cost vs)" for x by auto
  then have "x \<in> live a (RArray vs) \<Longrightarrow> a \<le> x \<and> x < a + cost (RArray vs)" for x
    by (cases vs) fastforce+
  then show ?case by auto
next
  case (8 b v vs)
  then show ?case by force
qed auto

definition drop_objs :: "nat set \<Rightarrow> heap \<Rightarrow> heap" where
  "drop_objs A h = h\<lparr>objs := (\<lambda>x. if x \<in> A then None else objs h x)\<rparr>"

lemma drop_objs_sel [simp]: "hcount (drop_objs A h) = hcount h" "hfail (drop_objs A h) = hfail h"
  "objs (drop_objs A h) x = (if x \<in> A then None else objs h x)"
  by (simp_all add: drop_objs_def)

lemma drop_objs_Un: "drop_objs B (drop_objs A h) = drop_objs (A \<union> B) h"
  by (auto simp: drop_objs_def cong: if_cong intro!: arg_cong [where f = "\<lambda>f. h\<lparr>objs := f\<rparr>"])

lemma drop_none [simp]: "drop_objs {} h = h"
  by (simp add: drop_objs_def)

lemma drop_one: "h\<lparr>objs := (objs h)(a := None)\<rparr> = drop_objs {a} h"
  by (auto simp: drop_objs_def intro!: arg_cong [where f = "\<lambda>f. h\<lparr>objs := f\<rparr>"])

lemma free_scalar:
  "objs h a = Some r \<Longrightarrow> rp_type r \<noteq> REDIS_REPLY_ARRAY \<Longrightarrow> 0 < n \<Longrightarrow> free_reply n a h = Some (drop_objs {a} h)"
  by (cases n) (auto simp: drop_one)

lemma free_rep:
  "rep (objs h) a v \<Longrightarrow> cost v \<le> n \<Longrightarrow> free_reply n a h = Some (drop_objs (live a v) h)"
  "reps (objs h) b vs \<Longrightarrow> sum_list (map cost vs) \<le> n \<Longrightarrow>
    free_elements (free_reply n) (map Some (addrs b vs)) h = Some (drop_objs (lives b vs) h)"
proof (induction a v and b vs arbitrary: n h and n h rule: live_lives.induct)
  case (1 a vs)
  obtain m where m: "n = Suc m" using 1(3) by (cases n) (auto split: if_splits)
  show ?case
  proof (cases "vs = []")
    case True
    then show ?thesis using 1 m by (auto simp: array_cell_def zeroed_def drop_one)
  next
    case False
    have "free_elements (free_reply m) (map Some (addrs (a + 2) vs)) h = Some (drop_objs (lives (a + 2) vs) h)"
      using 1 m False by (intro "1.IH") auto
    moreover have "addrs (a + 2) vs \<noteq> []" using False by (metis length_addrs length_0_conv)
    ultimately show ?thesis using 1(2) m
      by (auto simp: array_cell_def zeroed_def drop_one drop_objs_Un)
  qed
next
  case (8 b v vs)
  have "cost v \<le> n" "sum_list (map cost vs) \<le> n" using 8(4) by simp_all
  moreover have "reps (objs (drop_objs (live b v) h)) (b + cost v) vs = reps (objs h) (b + cost v) vs"
    using live_bounds(1) [of b v] by (intro rep_cong(2)) auto
  ultimately show ?case using 8 by (simp add: drop_objs_Un)
qed (auto simp: free_scalar string_cell_def zeroed_def)

end
