(* ===== verification/Decode.thy ===== *)
theory Decode
  imports ReplyValue
begin

text \<open>
  Decoding: the reader with the default callbacks, given the encoding of a reply value,
  builds the representation of that value.  The lemmas follow the task stack: one item at
  task \<open>i\<close> links its object into the array of task \<open>i - 1\<close> and then moves to the next task.
\<close>

section \<open>Linking\<close>

text \<open>The place where the object of task \<open>i\<close> goes.\<close>

definition slot_ok :: "redisReadTask list \<Rightarrow> nat \<Rightarrow> heap \<Rightarrow> bool" where
  "slot_ok rs i h \<longleftrightarrow>
     (case t_parent (rs ! i) of
        None \<Rightarrow> True
      | Some p \<Rightarrow> (\<exists>pa es. t_obj (rs ! p) = Some (Addr pa) \<and> pa < hcount h \<and>
          objs h pa = Some (array_cell es) \<and> 0 \<le> t_idx (rs ! i) \<and> nat (t_idx (rs ! i)) < length es))"

definition linked :: "redisReadTask list \<Rightarrow> nat \<Rightarrow> nat \<Rightarrow> (nat \<rightharpoonup> redisReply) \<Rightarrow> nat \<rightharpoonup> redisReply" where
  "linked rs i a ob =
     (case t_parent (rs ! i) of
        None \<Rightarrow> ob
      | Some p \<Rightarrow>
          (case t_obj (rs ! p) of
             Some (Addr pa) \<Rightarrow>
               ob(pa := map_option (\<lambda>r. r\<lparr>rp_element :=
                 map_option (\<lambda>es. es[nat (t_idx (rs ! i)) := Some a]) (rp_element r)\<rparr>) (ob pa))
           | _ \<Rightarrow> ob))"

lemma array_cell_sel [simp]: "rp_type (array_cell es) = 2" "rp_elements (array_cell es) = length es"
  "rp_element (array_cell es) = (if es = [] then None else Some es)"
  by (simp_all add: array_cell_def zeroed_def)

lemma array_cell_upd: "es \<noteq> [] \<Longrightarrow> length es' = length es \<Longrightarrow>
    (array_cell es)\<lparr>rp_element := Some es'\<rparr> = array_cell es'"
  by (auto simp: array_cell_def)

lemma set_element_ok:
  assumes "slot_ok rs i h" "\<forall>x < hcount h. objs h' x = objs h x"
  shows "set_element rs i a h' = Made (Addr a) (h'\<lparr>objs := linked rs i a (objs h')\<rparr>)"
  using assms
  by (auto simp: slot_ok_def set_element_def linked_def hput_def split: option.splits)

lemma linked_other:
  assumes "slot_ok rs i h" "hcount h \<le> x"
  shows "linked rs i a ob x = ob x"
  using assms by (auto simp: slot_ok_def linked_def split: option.splits)

lemma linked_below:
  assumes "slot_ok rs i h" "\<forall>x < hcount h. ob x = objs h x" "x < hcount h"
  shows "linked rs i a ob x = linked rs i a (objs h) x"
  using assms by (auto simp: slot_ok_def linked_def split: option.splits)

section \<open>The default callbacks on a store that never fails\<close>

definition no_fail :: "heap \<Rightarrow> bool" where
  "no_fail h \<longleftrightarrow> (\<forall>n. \<not> hfail h n)"

text \<open>The store after one object of the given kind has been made and linked.\<close>

definition made_heap :: "redisReadTask list \<Rightarrow> nat \<Rightarrow> redisReply \<Rightarrow> nat \<Rightarrow> heap \<Rightarrow> heap" where
  "made_heap rs i cell n h =
     h\<lparr>hcount := hcount h + n, objs := linked rs i (hcount h) ((objs h)(hcount h \<mapsto> cell))\<rparr>"

lemma made_sel [simp]: "hcount (made_heap rs i cell n h) = hcount h + n" "hfail (made_heap rs i cell n h) = hfail h"
  by (simp_all add: made_heap_def)

lemma set_element_made:
  assumes "slot_ok rs i h"
  shows "set_element rs i (hcount h) (h\<lparr>hcount := hcount h + n, objs := (objs h)(hcount h \<mapsto> cell)\<rparr>) =
    Made (Addr (hcount h)) (made_heap rs i cell n h)"
  using set_element_ok [OF assms, of "h\<lparr>hcount := hcount h + n, objs := (objs h)(hcount h \<mapsto> cell)\<rparr>"]
  by (simp add: made_heap_def)

lemmas creates = createReplyObject_def halloc_def hput_def Let_def

lemma createString_made:
  assumes "slot_ok rs i h" "no_fail h" "t_type (rs ! i) \<in> {1, 5, 6}" "length s < 2147483648"
  shows "createStringObject rs i s h =
    Made (Addr (hcount h)) (made_heap rs i (string_cell (t_type (rs ! i)) s) 2 h)"
  using assms set_element_made [OF assms(1), where cell = "string_cell (t_type (rs ! i)) s" and n = 2]
  by (auto simp: createStringObject_def creates no_fail_def string_cell_def c_int_id)

lemma createInteger_made:
  assumes "slot_ok rs i h" "no_fail h"
  shows "createIntegerObject rs i v h =
    Made (Addr (hcount h)) (made_heap rs i ((zeroed REDIS_REPLY_INTEGER)\<lparr>rp_integer := v\<rparr>) 1 h)"
  using assms set_element_made [OF assms(1), where cell = "(zeroed REDIS_REPLY_INTEGER)\<lparr>rp_integer := v\<rparr>" and n = 1]
  by (auto simp: createIntegerObject_def creates no_fail_def)

lemma createNil_made:
  assumes "slot_ok rs i h" "no_fail h"
  shows "createNilObject rs i h = Made (Addr (hcount h)) (made_heap rs i (zeroed REDIS_REPLY_NIL) 1 h)"
  using assms set_element_made [OF assms(1), where cell = "zeroed REDIS_REPLY_NIL" and n = 1]
  by (auto simp: createNilObject_def creates no_fail_def)

lemma createArray_made:
  assumes "slot_ok rs i h" "no_fail h" "n < 2147483648"
  shows "createArrayObject rs i (int n) h = Made (Addr (hcount h))
    (made_heap rs i (array_cell (replicate n None)) (if n = 0 then 1 else 2) h)"
proof (cases "n = 0")
  case True
  then show ?thesis
    using assms set_element_made [OF assms(1), where cell = "array_cell []" and n = 1]
    by (auto simp: createArrayObject_def creates no_fail_def array_cell_def c_size_def zeroed_def)
next
  case False
  have "c_size (int n) = n" using assms(3) by (simp add: c_size_of_nat)
  then show ?thesis
    using False assms set_element_made [OF assms(1), where cell = "array_cell (replicate n None)" and n = 2]
    by (auto simp: createArrayObject_def creates no_fail_def array_cell_def)
qed

section \<open>One value\<close>

definition resume :: "'h redisReader \<Rightarrow> string \<Rightarrow> 'h readout" where
  "resume c y = (case moveToNextTask c of Ret ok c' \<Rightarrow> aloop c' y | Stuck \<Rightarrow> Broken)"

text \<open>The reader is about to read the item of task \<open>i\<close>.\<close>

definition ready :: "heap redisReader \<Rightarrow> nat \<Rightarrow> bool" where
  "ready c i \<longleftrightarrow> r_fn c = Some defaultFunctions \<and> no_fail (r_heap c) \<and> ridx c = int i \<and>
     length (rstack c) = 9 \<and> i < 9 \<and> t_type (rstack c ! i) = - 1 \<and> slot_ok (rstack c) i (r_heap c)"

text \<open>What reading an item at task \<open>i\<close> leaves unchanged.\<close>

definition frame :: "heap redisReader \<Rightarrow> nat \<Rightarrow> nat \<Rightarrow> heap redisReader \<Rightarrow> bool" where
  "frame c i a c1 \<longleftrightarrow> length (rstack c1) = length (rstack c) \<and>
     (\<forall>j < i. rstack c1 ! j = rstack c ! j) \<and> t_idx (rstack c1 ! i) = t_idx (rstack c ! i) \<and>
     t_parent (rstack c1 ! i) = t_parent (rstack c ! i) \<and> r_fn c1 = r_fn c \<and> r_err c1 = r_err c \<and>
     r_privdata c1 = r_privdata c \<and> r_maxbuf c1 = r_maxbuf c \<and> r_errstr c1 = r_errstr c \<and>
     r_reply c1 = (if i = 0 then Some (Addr a) else r_reply c) \<and>
     hfail (r_heap c1) = hfail (r_heap c) \<and>
     (\<forall>x < a. objs (r_heap c1) x = linked (rstack c) i a (objs (r_heap c)) x)"

text \<open>The item of task \<open>i\<close> has been read and is the value \<open>v\<close>, represented at address \<open>a\<close>.\<close>

definition after :: "heap redisReader \<Rightarrow> nat \<Rightarrow> reply \<Rightarrow> heap redisReader \<Rightarrow> bool" where
  "after c i v c1 \<longleftrightarrow> ridx c1 = int i \<and> frame c i (hcount (r_heap c)) c1 \<and>
     hcount (r_heap c1) = hcount (r_heap c) + cost v \<and> rep (objs (r_heap c1)) (hcount (r_heap c)) v"

lemma loop_item:
  assumes "0 \<le> ridx c" "aitem c d = consumed k (moveToNextTask c1)"
  shows "aloop c d = resume c1 (drop k d)"
  using assms move_ok [of c1]
  by (cases "moveToNextTask c1") (auto simp: aloop.simps [of c d] resume_def consumed_def)

lemma retype_nth: "j < length (rstack c) \<Longrightarrow> rstack (retype ty c) ! j =
    (if j = nat (ridx c) then (rstack c ! j)\<lparr>t_type := ty\<rparr> else rstack c ! j)"
  by (simp add: retype_def nth_list_update)

lemma retype_heap [simp]: "r_heap (retype ty c) = r_heap c" "r_fn (retype ty c) = r_fn c"
  "r_err (retype ty c) = r_err c" "r_errstr (retype ty c) = r_errstr c" "r_reply (retype ty c) = r_reply c"
  "r_privdata (retype ty c) = r_privdata c" "r_maxbuf (retype ty c) = r_maxbuf c"
  by (simp_all add: retype_def)

lemma retype_task:
  "t_parent (rstack (retype ty c) ! j) = t_parent (rstack c ! j) \<and>
   t_obj (rstack (retype ty c) ! j) = t_obj (rstack c ! j) \<and>
   t_idx (rstack (retype ty c) ! j) = t_idx (rstack c ! j)"
proof -
  define rs where "rs = rstack c"
  define k where "k = nat (ridx c)"
  consider "j \<noteq> k" | "j = k" "k < length rs" | "length rs \<le> k" by linarith
  then have "rs[k := (rs ! k)\<lparr>t_type := ty\<rparr>] ! j = rs ! j \<or>
      rs[k := (rs ! k)\<lparr>t_type := ty\<rparr>] ! j = (rs ! j)\<lparr>t_type := ty\<rparr>"
    by cases (simp_all add: list_update_beyond)
  then show ?thesis unfolding retype_def rs_def k_def by auto
qed

lemma slot_retype: "slot_ok (rstack (retype ty c)) i h = slot_ok (rstack c) i h"
  by (simp add: slot_ok_def retype_task split: option.split)

lemma linked_retype: "linked (rstack (retype ty c)) i a ob = linked (rstack c) i a ob"
  by (simp add: linked_def retype_task split: option.split obj.split)

lemma ready_item:
  assumes "ready c i" "reply_type_byte b = Some ty"
  shows "aitem c (b # d) = plus_item 1 (atyped (retype ty c) d)"
  using assms by (simp add: ready_def aitem_def)

lemma plus_consumed: "plus_item 1 (consumed k x) = consumed (Suc k) x"
  by (simp add: consumed_def split: run.splits)

text \<open>The state after an object has been made for task \<open>i\<close>.\<close>

definition put_object :: "heap redisReader \<Rightarrow> int \<Rightarrow> redisReply \<Rightarrow> nat \<Rightarrow> heap redisReader" where
  "put_object c ty cell n =
     (let i = nat (ridx c); h = r_heap c in
      (retype ty c)\<lparr>r_heap := made_heap (rstack c) i cell n h,
         r_reply := (if ridx c = 0 then Some (Addr (hcount h)) else r_reply c)\<rparr>)"

lemma made_below:
  assumes "slot_ok rs i h" "x < hcount h"
  shows "objs (made_heap rs i cell n h) x = linked rs i (hcount h) (objs h) x"
  using linked_below [OF assms(1) _ assms(2), of "(objs h)(hcount h \<mapsto> cell)" "hcount h"]
  by (simp add: made_heap_def)

lemma made_at:
  assumes "slot_ok rs i h"
  shows "objs (made_heap rs i cell n h) (hcount h) = Some cell"
  unfolding made_heap_def using assms by (simp add: linked_other [OF assms])

lemma put_object_frame:
  assumes "ready c i"
  shows "frame c i (hcount (r_heap c)) (put_object c ty cell n)"
    "ridx (put_object c ty cell n) = int i"
    "hcount (r_heap (put_object c ty cell n)) = hcount (r_heap c) + n"
    "objs (r_heap (put_object c ty cell n)) (hcount (r_heap c)) = Some cell"
  using assms made_below [of "rstack c" i "r_heap c"] made_at [of "rstack c" i "r_heap c"]
  by (auto simp: ready_def frame_def put_object_def retype_task retype_nth Let_def)

lemma finish_put:
  assumes "ready c i" "core c = c"
  shows "finish_item (retype ty c) (Made (Addr (hcount (r_heap c))) (made_heap (rstack c) i cell n (r_heap c))) 0 =
    moveToNextTask (put_object c ty cell n)"
proof -
  have "r_pos c = 0" using assms(2) by (metis core_sel(4))
  then have "(retype ty c)\<lparr>r_pos := 0\<rparr> = retype ty c" by (simp add: retype_def)
  then show ?thesis using assms(1)
    by (simp add: finish_item_def put_object_def ready_def Let_def)
      (simp add: retype_def)
qed

lemma scalar_item:
  assumes "ready c i" "core c = c" "reply_type_byte b = Some ty"
    and "atyped (retype ty c) d = consumed k (finish_item (retype ty c)
      (Made (Addr (hcount (r_heap c))) (made_heap (rstack c) i cell (cost v) (r_heap c))) 0)"
    and "\<And>ob. ob (hcount (r_heap c)) = Some cell \<Longrightarrow> rep ob (hcount (r_heap c)) v"
  shows "after c i v (put_object c ty cell (cost v)) \<and>
    aloop c (b # d) = resume (put_object c ty cell (cost v)) (drop k d)"
proof
  show "after c i v (put_object c ty cell (cost v))"
    using put_object_frame [OF assms(1)] assms(5) by (simp add: after_def)
  have "aitem c (b # d) = consumed (Suc k) (moveToNextTask (put_object c ty cell (cost v)))"
    using ready_item [OF assms(1,3)] assms(4) finish_put [OF assms(1,2)] plus_consumed by metis
  moreover have "0 \<le> ridx c" using assms(1) by (simp add: ready_def)
  ultimately show "aloop c (b # d) = resume (put_object c ty cell (cost v)) (drop k d)"
    using loop_item by fastforce
qed

lemma made_retype: "made_heap (rstack (retype ty c)) i cell n h = made_heap (rstack c) i cell n h"
  by (simp add: made_heap_def linked_retype)

text \<open>The callbacks at a ready task.\<close>

lemma ready_objects:
  assumes "ready c i"
  shows "length s < 2147483648 \<Longrightarrow> ty \<in> {1, 5, 6} \<Longrightarrow>
      createStringObject (rstack (retype ty c)) i s (r_heap c) =
        Made (Addr (hcount (r_heap c))) (made_heap (rstack c) i (string_cell ty s) 2 (r_heap c))"
    "createIntegerObject (rstack (retype ty c)) i n (r_heap c) =
        Made (Addr (hcount (r_heap c))) (made_heap (rstack c) i ((zeroed REDIS_REPLY_INTEGER)\<lparr>rp_integer := n\<rparr>) 1 (r_heap c))"
    "createNilObject (rstack (retype ty c)) i (r_heap c) =
        Made (Addr (hcount (r_heap c))) (made_heap (rstack c) i (zeroed REDIS_REPLY_NIL) 1 (r_heap c))"
    "m < 2147483648 \<Longrightarrow> createArrayObject (rstack (retype ty c)) i (int m) (r_heap c) =
        Made (Addr (hcount (r_heap c)))
          (made_heap (rstack c) i (array_cell (replicate m None)) (if m = 0 then 1 else 2) (r_heap c))"
proof -
  have r: "slot_ok (rstack (retype ty c)) i (r_heap c)" "no_fail (r_heap c)"
    "t_type (rstack (retype ty c) ! i) = ty"
    using assms by (simp_all add: ready_def slot_retype retype_nth)
  show "length s < 2147483648 \<Longrightarrow> ty \<in> {1, 5, 6} \<Longrightarrow>
      createStringObject (rstack (retype ty c)) i s (r_heap c) =
        Made (Addr (hcount (r_heap c))) (made_heap (rstack c) i (string_cell ty s) 2 (r_heap c))"
    using createString_made [OF r(1,2)] by (simp add: r(3) made_retype)
  show "createIntegerObject (rstack (retype ty c)) i n (r_heap c) =
        Made (Addr (hcount (r_heap c))) (made_heap (rstack c) i ((zeroed REDIS_REPLY_INTEGER)\<lparr>rp_integer := n\<rparr>) 1 (r_heap c))"
    using createInteger_made [OF r(1,2)] by (simp add: made_retype)
  show "createNilObject (rstack (retype ty c)) i (r_heap c) =
        Made (Addr (hcount (r_heap c))) (made_heap (rstack c) i (zeroed REDIS_REPLY_NIL) 1 (r_heap c))"
    using createNil_made [OF r(1,2)] by (simp add: made_retype)
  show "m < 2147483648 \<Longrightarrow> createArrayObject (rstack (retype ty c)) i (int m) (r_heap c) =
        Made (Addr (hcount (r_heap c)))
          (made_heap (rstack c) i (array_cell (replicate m None)) (if m = 0 then 1 else 2) (r_heap c))"
    using createArray_made [OF r(1,2)] by (simp add: made_retype)
qed

lemma ready_callback:
  assumes "ready c i"
  shows "callback createString (retype ty c) f n = f createStringObject"
    "callback createInteger (retype ty c) f' n = f' createIntegerObject"
    "callback createNil (retype ty c) f'' n = f'' createNilObject"
    "callback createArray (retype ty c) f' n = f' createArrayObject"
    "t_type (rstack (retype ty c) ! i) = ty" "nat (ridx c) = i"
  using assms by (simp_all add: callback_def ready_def defaultFunctions_def retype_nth)

definition decodes :: "heap redisReader \<Rightarrow> nat \<Rightarrow> reply \<Rightarrow> bool" where
  "decodes c i v \<longleftrightarrow>
     (\<exists>c1. after c i v c1 \<and> core c1 = c1 \<and> (\<forall>y. aloop c (encode v @ y) = resume c1 y))"

lemma core_same: "core c = c \<longleftrightarrow> r_buf c = None \<and> r_pos c = 0 \<and> r_len c = 0"
proof
  assume c: "core c = c"
  have "r_buf (core c) = None \<and> r_pos (core c) = 0 \<and> r_len (core c) = 0" by simp
  with c show "r_buf c = None \<and> r_pos c = 0 \<and> r_len c = 0" by simp
next
  assume "r_buf c = None \<and> r_pos c = 0 \<and> r_len c = 0"
  then show "core c = c" by (simp add: core_def wb_same)
qed

lemma retype_buf [simp]: "r_buf (retype ty c) = r_buf c" "r_pos (retype ty c) = r_pos c"
  "r_len (retype ty c) = r_len c"
  by (simp_all add: retype_def)

lemma put_object_core: "core c = c \<Longrightarrow> core (put_object c ty cell n) = put_object c ty cell n"
  by (simp add: core_same put_object_def Let_def)

lemma decodes_scalar:
  assumes "ready c i" "core c = c" "reply_type_byte b = Some ty" "encode v = b # body"
    and "\<And>y. atyped (retype ty c) (body @ y) = consumed (length body) (finish_item (retype ty c)
      (Made (Addr (hcount (r_heap c))) (made_heap (rstack c) i cell (cost v) (r_heap c))) 0)"
    and "\<And>ob. ob (hcount (r_heap c)) = Some cell \<Longrightarrow> rep ob (hcount (r_heap c)) v"
  shows "decodes c i v"
  using scalar_item [OF assms(1-3,5,6)] put_object_core [OF assms(2)]
  unfolding decodes_def assms(4) by (intro exI [of _ "put_object c ty cell (cost v)"]) simp

lemma decodes_line:
  assumes "ready c i" "core c = c" "find_crlf s = None" "length s < 2147483648"
  shows "decodes c i (RStatus s)" "decodes c i (RError s)"
proof -
  have *: "atyped (retype ty c) ((s @ CRLF) @ y) = consumed (length (s @ CRLF)) (finish_item (retype ty c)
      (Made (Addr (hcount (r_heap c))) (made_heap (rstack c) i (string_cell ty s) 2 (r_heap c))) 0)"
    if "ty = 5 \<or> ty = 6" for ty y
    using that ready_objects(1) [OF assms(1,4), of ty]
    by (auto simp: atyped_def aline_def find_crlf_line [OF assms(3)] line_obj_def Let_def
        ready_callback [OF assms(1)])
  show "decodes c i (RStatus s)"
    using * [of 5] by (intro decodes_scalar [OF assms(1,2), of "CHR ''+''" 5 _ "s @ CRLF"])
      (simp_all add: reply_type_byte_def)
  show "decodes c i (RError s)"
    using * [of 6] by (intro decodes_scalar [OF assms(1,2), of "CHR ''-''" 6 _ "s @ CRLF"])
      (simp_all add: reply_type_byte_def)
qed

lemma dec_int_no_CR: "CR \<notin> set (dec_int n)"
  using dec_no_CR by (auto simp: dec_int_def)

lemma decodes_integer:
  assumes "ready c i" "core c = c" "- 9223372036854775808 < n" "n < 9223372036854775808"
  shows "decodes c i (RInteger n)"
proof -
  have "find_crlf (dec_int n) = None" by (simp add: find_crlf_no_CR dec_int_no_CR)
  note l = find_crlf_line [OF this]
  have "atyped (retype 3 c) ((dec_int n @ CRLF) @ y) = consumed (length (dec_int n @ CRLF))
      (finish_item (retype 3 c) (Made (Addr (hcount (r_heap c)))
        (made_heap (rstack c) i ((zeroed REDIS_REPLY_INTEGER)\<lparr>rp_integer := n\<rparr>) 1 (r_heap c))) 0)" for y
    by (simp add: atyped_def aline_def l line_obj_def Let_def ready_callback [OF assms(1)]
        ready_objects [OF assms(1)] line_ll_dec_int [OF assms(3,4)])
  then show ?thesis
    by (intro decodes_scalar [OF assms(1,2), of "CHR '':''" 3 _ "dec_int n @ CRLF"])
      (auto simp: reply_type_byte_def)
qed

lemma line_ll_minus_one: "line_ll ''-1'' = - 1"
  using line_ll_dec_int [of "- 1"] by (simp add: dec_int_def dec.simps digit_numeral)

lemma decodes_nil:
  assumes "ready c i" "core c = c"
  shows "decodes c i RNil"
proof -
  have l: "find_crlf (''-1'' @ CR # LF # y) = Some (length ''-1'')" for y
    by (rule find_crlf_line) (simp add: find_crlf_no_CR)
  have "atyped (retype 1 c) ((''-1'' @ CRLF) @ y) = consumed (length (''-1'' @ CRLF))
      (finish_item (retype 1 c) (Made (Addr (hcount (r_heap c)))
        (made_heap (rstack c) i (zeroed REDIS_REPLY_NIL) 1 (r_heap c))) 0)" for y
    using l [of y]
    by (simp add: atyped_def abulk_def Let_def ready_callback [OF assms(1)] nil_obj_def
        ready_objects [OF assms(1)] line_ll_minus_one)
  then show ?thesis
    by (intro decodes_scalar [OF assms(1,2), of "CHR ''$''" 1 _ "''-1'' @ CRLF"])
      (auto simp: reply_type_byte_def)
qed

lemma decodes_string:
  assumes "ready c i" "core c = c" "length s < 2147483648"
  shows "decodes c i (RString s)"
proof -
  let ?n = "dec (length s)"
  have "find_crlf ?n = None" by (simp add: find_crlf_no_CR dec_no_CR)
  note l = find_crlf_line [OF this]
  have e4: "length ?n + length s + 4 = Suc (Suc (Suc (Suc (length ?n + length s))))" by simp
  have v: "line_ll ?n = int (length s)" using assms(3) by (intro line_ll_dec) simp
  have "atyped (retype 1 c) ((?n @ CRLF @ s @ CRLF) @ y) = consumed (length (?n @ CRLF @ s @ CRLF))
      (finish_item (retype 1 c) (Made (Addr (hcount (r_heap c)))
        (made_heap (rstack c) i (string_cell 1 s) 2 (r_heap c))) 0)" for y
    using l [of "s @ CRLF @ y"]
    by (simp add: e4 atyped_def abulk_def Let_def ready_callback [OF assms(1)] bulk_obj_def
        ready_objects(1) [OF assms(1,3)] v)
  then show ?thesis
    by (intro decodes_scalar [OF assms(1,2), of "CHR ''$''" 1 _ "?n @ CRLF @ s @ CRLF"])
      (auto simp: reply_type_byte_def bulk_def)
qed

section \<open>Arrays\<close>

lemma move_reply: "moveToNextTask (r\<lparr>r_reply := x\<rparr>) = map_run (\<lambda>r. r\<lparr>r_reply := x\<rparr>) (moveToNextTask r)"
proof (induction r rule: moveToNextTask.induct)
  case (1 r)
  show ?case
  proof (cases "ridx r \<le> 0")
    case True
    then show ?thesis
      by (subst moveToNextTask.simps, subst (2) moveToNextTask.simps) auto
  next
    case False
    have cm: "r\<lparr>r_reply := x, ridx := j\<rparr> = r\<lparr>ridx := j, r_reply := x\<rparr>"
      "r\<lparr>r_reply := x, rstack := l\<rparr> = r\<lparr>rstack := l, r_reply := x\<rparr>" for j l by simp_all
    show ?thesis
      using False "1.IH" [OF _ _ refl refl refl]
      by (subst moveToNextTask.simps, subst (2) moveToNextTask.simps) (simp add: Let_def cm)
  qed
qed

text \<open>Inside the array of task \<open>i\<close>, represented at \<open>a\<close>: the elements \<open>vs1\<close> are read and \<open>k\<close> more are
  to come.\<close>

definition in_array :: "heap redisReader \<Rightarrow> nat \<Rightarrow> reply list \<Rightarrow> nat \<Rightarrow> heap redisReader \<Rightarrow> bool" where
  "in_array c i vs1 k c2 \<longleftrightarrow>
     (let a = hcount (r_heap c); n = length vs1 + k in
      core c2 = c2 \<and> ready c2 (Suc i) \<and> frame c i a c2 \<and> n < 2147483648 \<and>
      t_type (rstack c2 ! i) = REDIS_REPLY_ARRAY \<and> t_elements (rstack c2 ! i) = int n \<and>
      t_obj (rstack c2 ! i) = Some (Addr a) \<and>
      t_parent (rstack c2 ! Suc i) = Some i \<and> t_idx (rstack c2 ! Suc i) = int (length vs1) \<and>
      hcount (r_heap c2) = a + 2 + sum_list (map cost vs1) \<and>
      objs (r_heap c2) a = Some (array_cell (map Some (addrs (a + 2) vs1) @ replicate k None)) \<and>
      reps (objs (r_heap c2)) (a + 2) vs1)"

lemma linked_array:
  assumes "in_array c i vs1 (Suc k) c2"
  shows "linked (rstack c2) (Suc i) b (objs (r_heap c2)) x =
    (if x = hcount (r_heap c) then Some (array_cell (map Some (addrs (hcount (r_heap c) + 2) vs1) @ Some b # replicate k None))
     else objs (r_heap c2) x)"
  using assms array_cell_upd
  by (auto simp: in_array_def linked_def Let_def list_update_append)

text \<open>What reading the next element establishes for the store.\<close>

lemma element_store:
  assumes "in_array c i vs1 (Suc k) c2" "after c2 (Suc i) v c3"
  defines "a \<equiv> hcount (r_heap c)"
  shows "hcount (r_heap c3) = a + 2 + sum_list (map cost (vs1 @ [v]))"
    "objs (r_heap c3) a = Some (array_cell (map Some (addrs (a + 2) (vs1 @ [v])) @ replicate k None))"
    "reps (objs (r_heap c3)) (a + 2) (vs1 @ [v])"
    "\<forall>x < a. objs (r_heap c3) x = objs (r_heap c2) x"
proof -
  let ?b = "hcount (r_heap c2)"
  have b: "?b = a + 2 + sum_list (map cost vs1)" "reps (objs (r_heap c2)) (a + 2) vs1"
    using assms(1) by (simp_all add: in_array_def Let_def a_def)
  have c3: "hcount (r_heap c3) = ?b + cost v" "rep (objs (r_heap c3)) ?b v"
    "\<forall>x < ?b. objs (r_heap c3) x = linked (rstack c2) (Suc i) ?b (objs (r_heap c2)) x"
    using assms(2) by (simp_all add: after_def frame_def)
  show "hcount (r_heap c3) = a + 2 + sum_list (map cost (vs1 @ [v]))" using b(1) c3(1) by simp
  have below: "objs (r_heap c3) x = (if x = a then
      Some (array_cell (map Some (addrs (a + 2) vs1) @ Some ?b # replicate k None)) else objs (r_heap c2) x)"
    if "x < ?b" for x
    using c3(3) that by (simp add: linked_array [OF assms(1)] a_def)
  then show "objs (r_heap c3) a = Some (array_cell (map Some (addrs (a + 2) (vs1 @ [v])) @ replicate k None))"
    using b(1) by (simp add: addrs_append)
  show "\<forall>x < a. objs (r_heap c3) x = objs (r_heap c2) x" using below b(1) by simp
  have "reps (objs (r_heap c3)) (a + 2) vs1 = reps (objs (r_heap c2)) (a + 2) vs1"
    using below b(1) by (intro rep_cong(2)) simp
  then show "reps (objs (r_heap c3)) (a + 2) (vs1 @ [v])"
    using b c3(2) by (simp add: reps_append)
qed

lemma move_task:
  assumes "ridx c = int (Suc i)" "t_type (rstack c ! i) = REDIS_REPLY_ARRAY" "t_elements (rstack c ! i) = int n"
    "t_idx (rstack c ! Suc i) = int m" "m < n" "n < 2147483648"
  shows "moveToNextTask c = (if Suc m = n then moveToNextTask (c\<lparr>ridx := int i\<rparr>)
    else Ret True (c\<lparr>rstack := (rstack c)[Suc i := (rstack c ! Suc i)\<lparr>t_type := - 1, t_elements := - 1,
      t_idx := int m + 1\<rparr>]\<rparr>))"
proof -
  have "c_int (int n - 1) = int n - 1" using assms(6) by (simp add: c_int_id)
  moreover have "(int m = int n - 1) = (Suc m = n)" using assms(5) by auto
  moreover have "nat (1 + int i) = Suc i" by simp
  ultimately show ?thesis using assms by (subst moveToNextTask.simps) (simp add: Let_def)
qed

lemma element_frame:
  assumes "in_array c i vs1 (Suc k) c2" "after c2 (Suc i) v c3"
  shows "frame c i (hcount (r_heap c)) c3" "rstack c3 ! i = rstack c2 ! i"
    "t_idx (rstack c3 ! Suc i) = int (length vs1)" "t_parent (rstack c3 ! Suc i) = Some i"
    "ridx c3 = int (Suc i)" "r_fn c3 = r_fn c2" "hfail (r_heap c3) = hfail (r_heap c2)"
    "length (rstack c3) = length (rstack c2)"
proof -
  have c2: "frame c i (hcount (r_heap c)) c2" "t_idx (rstack c2 ! Suc i) = int (length vs1)"
    "t_parent (rstack c2 ! Suc i) = Some i"
    using assms(1) by (auto simp: in_array_def Let_def)
  have c3: "frame c2 (Suc i) (hcount (r_heap c2)) c3" "ridx c3 = int (Suc i)"
    using assms(2) by (auto simp: after_def)
  show "frame c i (hcount (r_heap c)) c3"
    using c2(1) c3(1) element_store(4) [OF assms] by (simp add: frame_def)
  show "rstack c3 ! i = rstack c2 ! i" "t_idx (rstack c3 ! Suc i) = int (length vs1)"
    "t_parent (rstack c3 ! Suc i) = Some i" "ridx c3 = int (Suc i)" "r_fn c3 = r_fn c2"
    "hfail (r_heap c3) = hfail (r_heap c2)" "length (rstack c3) = length (rstack c2)"
    using c2 c3 by (simp_all add: frame_def)
qed

text \<open>After the last element the array is complete; after any other the next task is ready.\<close>

lemma last_element:
  assumes "in_array c i vs1 (Suc 0) c2" "after c2 (Suc i) v c3" "core c3 = c3"
  shows "after c i (RArray (vs1 @ [v])) (c3\<lparr>ridx := int i\<rparr>)" "core (c3\<lparr>ridx := int i\<rparr>) = c3\<lparr>ridx := int i\<rparr>"
    "resume c3 y = resume (c3\<lparr>ridx := int i\<rparr>) y"
proof -
  note f = element_frame [OF assms(1,2)] and st = element_store [OF assms(1,2)]
  show "after c i (RArray (vs1 @ [v])) (c3\<lparr>ridx := int i\<rparr>)"
    using f(1) st by (simp add: after_def frame_def)
  show "core (c3\<lparr>ridx := int i\<rparr>) = c3\<lparr>ridx := int i\<rparr>" using assms(3) by (simp add: core_same)
  have "moveToNextTask c3 = moveToNextTask (c3\<lparr>ridx := int i\<rparr>)"
    using assms(1) f(2-5) move_task [of c3 i "length vs1 + 1" "length vs1"]
    by (simp add: in_array_def Let_def)
  then show "resume c3 y = resume (c3\<lparr>ridx := int i\<rparr>) y" by (simp add: resume_def)
qed

lemma next_element:
  assumes "in_array c i vs1 (Suc (Suc k)) c2" "after c2 (Suc i) v c3" "core c3 = c3"
  shows "\<exists>c4. in_array c i (vs1 @ [v]) (Suc k) c4 \<and> (\<forall>y. resume c3 y = aloop c4 y)"
proof -
  note f = element_frame [OF assms(1,2)] and st = element_store [OF assms(1,2)]
  define c4 where "c4 = c3\<lparr>rstack := (rstack c3)[Suc i := (rstack c3 ! Suc i)\<lparr>t_type := - 1, t_elements := - 1,
      t_idx := int (length vs1) + 1\<rparr>]\<rparr>"
  have i: "length (rstack c3) = 9" "Suc i < 9" using assms(1) f(8) by (simp_all add: in_array_def ready_def Let_def)
  have "moveToNextTask c3 = Ret True c4"
    using assms(1) f(2-5) move_task [of c3 i "length vs1 + Suc (Suc k)" "length vs1"]
    by (simp add: in_array_def Let_def c4_def)
  then have r: "\<forall>y. resume c3 y = aloop c4 y" by (simp add: resume_def)
  have sel: "rstack c4 ! j = rstack c3 ! j" if "j \<noteq> Suc i" for j using that by (simp add: c4_def)
  have cur: "rstack c4 ! Suc i = (rstack c3 ! Suc i)\<lparr>t_type := - 1, t_elements := - 1, t_idx := int (length vs1) + 1\<rparr>"
    using i by (simp add: c4_def)
  have same: "r_heap c4 = r_heap c3" "r_fn c4 = r_fn c3" "ridx c4 = ridx c3" "length (rstack c4) = length (rstack c3)"
    by (simp_all add: c4_def)
  have "slot_ok (rstack c4) (Suc i) (r_heap c4)"
    using assms(1) st(1,2) f(2,4) cur sel [of i]
    by (auto simp: slot_ok_def in_array_def Let_def same intro!: exI)
  then have "ready c4 (Suc i)"
    using assms(1) f i cur same by (auto simp: ready_def in_array_def Let_def no_fail_def)
  moreover have "frame c i (hcount (r_heap c)) c4"
    using f(1) sel by (auto simp: frame_def c4_def)
  moreover have "core c4 = c4" using assms(3) by (simp add: core_same c4_def)
  ultimately have "in_array c i (vs1 @ [v]) (Suc k) c4"
    using assms(1) f(2,4) cur sel [of i] st same by (simp add: in_array_def Let_def)
  with r show ?thesis by blast
qed

lemma elements_read:
  assumes "in_array c i vs1 (length vs2) c2" "vs2 \<noteq> []"
    and "\<And>v c'. v \<in> set vs2 \<Longrightarrow> ready c' (Suc i) \<Longrightarrow> core c' = c' \<Longrightarrow> decodes c' (Suc i) v"
  shows "\<exists>c1. after c i (RArray (vs1 @ vs2)) c1 \<and> core c1 = c1 \<and>
    (\<forall>y. aloop c2 (concat (map encode vs2) @ y) = resume c1 y)"
  using assms
proof (induction vs2 arbitrary: vs1 c2)
  case (Cons v vs2)
  have "ready c2 (Suc i)" "core c2 = c2" using Cons.prems(1) by (simp_all add: in_array_def Let_def)
  with Cons.prems(3) [of v c2] obtain c3 where c3: "after c2 (Suc i) v c3" "core c3 = c3"
    "\<And>y. aloop c2 (encode v @ y) = resume c3 y" by (auto simp: decodes_def)
  show ?case
  proof (cases vs2)
    case Nil
    then show ?thesis
      using Cons.prems(1) last_element [of c i vs1 c2 v c3] c3 by fastforce
  next
    case (Cons v' vs')
    then obtain c4 where c4: "in_array c i (vs1 @ [v]) (length vs2) c4" "\<And>y. resume c3 y = aloop c4 y"
      using next_element [of c i vs1 "length vs'" c2 v c3] c3 Cons.prems(1) by auto
    show ?thesis
      using Cons.IH [OF c4(1)] Cons Cons.prems(3) c3(3) c4(2) by (simp add: append.assoc)
  qed
qed simp

lemma array_head:
  assumes "ready c i" "i < 8" "n < 2147483648"
  shows "aitem c (CHR ''*'' # dec n @ CRLF @ y) = consumed (length (dec n) + 3) (array_item (retype 2 c) (int n))"
    "array_obj (retype 2 c) (int n) = Made (Addr (hcount (r_heap c)))
      (made_heap (rstack c) i (array_cell (replicate n None)) (if n = 0 then 1 else 2) (r_heap c))"
proof -
  have "find_crlf (dec n) = None" by (simp add: find_crlf_no_CR dec_no_CR)
  note l = find_crlf_line [OF this]
  have v: "line_ll (dec n) = int n" using assms(3) by (intro line_ll_dec) simp
  have i: "ridx c = int i" "t_type (rstack (retype 2 c) ! i) = 2"
    using assms(1) by (simp_all add: ready_def retype_nth)
  have "amulti (retype 2 c) (dec n @ CRLF @ y) = consumed (length (dec n) + 2) (array_item (retype 2 c) (int n))"
    using l v i assms(2) by (simp add: amulti_def)
  then have "atyped (retype 2 c) (dec n @ CRLF @ y) = consumed (length (dec n) + 2) (array_item (retype 2 c) (int n))"
    using i by (simp add: atyped_def)
  moreover have "reply_type_byte (CHR ''*'') = Some 2" by (simp add: reply_type_byte_def)
  ultimately show "aitem c (CHR ''*'' # dec n @ CRLF @ y) = consumed (length (dec n) + 3) (array_item (retype 2 c) (int n))"
    using ready_item [OF assms(1)] plus_consumed by (metis add_Suc_right numeral_3_eq_3 numeral_2_eq_2)
  have "c_int (int n) = int n" using assms(3) by (simp add: c_int_id)
  then show "array_obj (retype 2 c) (int n) = Made (Addr (hcount (r_heap c)))
      (made_heap (rstack c) i (array_cell (replicate n None)) (if n = 0 then 1 else 2) (r_heap c))"
    using ready_objects(4) [OF assms(1,3)] i by (simp add: array_obj_def ready_callback [OF assms(1)])
qed

lemma decodes_empty:
  assumes "ready c i" "core c = c" "i < 8"
  shows "decodes c i (RArray [])"
proof -
  let ?c = "put_object c 2 (array_cell []) 1"
  have "array_item (retype 2 c) 0 = moveToNextTask ?c"
  proof -
    have eq: "?c = (let r = (retype 2 c)\<lparr>r_heap := made_heap (rstack c) i (array_cell []) 1 (r_heap c)\<rparr> in
        if i = 0 then r\<lparr>r_reply := Some (Addr (hcount (r_heap c)))\<rparr> else r)"
      using assms(1) by (simp add: put_object_def ready_def Let_def)
    show ?thesis
      using array_head(2) [OF assms(1,3), of 0] assms(1)
      unfolding eq array_item_def
      by (auto simp: ready_def Let_def set_root_def move_reply split: run.splits)
  qed
  then have "aloop c (CHR ''*'' # dec 0 @ CRLF @ y) = resume ?c (drop (length (dec 0) + 3) (CHR ''*'' # dec 0 @ CRLF @ y))" for y
    using array_head(1) [OF assms(1,3), of 0 y] assms(1)
    by (intro loop_item) (simp_all add: ready_def)
  then have "aloop c (encode (RArray []) @ y) = resume ?c y" for y
    by (simp add: numeral_3_eq_3)
  moreover have "after c i (RArray []) ?c"
    using put_object_frame [OF assms(1), of 2 "array_cell []" 1] by (simp add: after_def)
  ultimately show ?thesis
    using put_object_core [OF assms(2)] by (auto simp: decodes_def)
qed

lemma array_start:
  assumes "ready c i" "core c = c" "i < 8" "0 < n" "n < 2147483648"
  shows "\<exists>c2. in_array c i [] n c2 \<and> (\<forall>y. aloop c (CHR ''*'' # dec n @ CRLF @ y) = aloop c2 y)"
proof -
  define a where "a = hcount (r_heap c)"
  define h where "h = made_heap (rstack c) i (array_cell (replicate n None)) 2 (r_heap c)"
  define rs where "rs = (rstack (retype 2 c))
    [i := (rstack (retype 2 c) ! i)\<lparr>t_elements := int n, t_obj := Some (Addr a)\<rparr>,
     Suc i := \<lparr>t_type = - 1, t_elements = - 1, t_idx = 0, t_obj = None, t_parent = Some i, t_privdata = r_privdata c\<rparr>]"
  define c2 where "c2 = (retype 2 c)\<lparr>r_heap := h, rstack := rs, ridx := int (Suc i),
    r_reply := (if i = 0 then Some (Addr a) else r_reply c)\<rparr>"
  have r: "ridx c = int i" "length (rstack c) = 9" "slot_ok (rstack c) i (r_heap c)" "no_fail (r_heap c)"
    "r_fn c = Some defaultFunctions"
    using assms(1) by (simp_all add: ready_def)
  have "c_int (int n) = int n" using assms(5) by (simp add: c_int_id)
  then have "array_item (retype 2 c) (int n) = Ret True c2"
    using array_head(2) [OF assms(1,3,5)] assms(3,4) r
    by (auto simp: array_item_def set_root_def push_task_def c2_def rs_def h_def a_def Let_def)
  then have "aloop c (CHR ''*'' # dec n @ CRLF @ y) = aloop c2 (drop (length (dec n) + 3) (CHR ''*'' # dec n @ CRLF @ y))" for y
    using array_head(1) [OF assms(1,3,5), of y] r
    by (simp add: aloop.simps [of c] consumed_def)
  then have l: "aloop c (CHR ''*'' # dec n @ CRLF @ y) = aloop c2 y" for y by (simp add: numeral_3_eq_3)
  have t: "rs ! i = (rstack c ! i)\<lparr>t_type := 2, t_elements := int n, t_obj := Some (Addr a)\<rparr>"
    "rs ! Suc i = \<lparr>t_type = - 1, t_elements = - 1, t_idx = 0, t_obj = None, t_parent = Some i, t_privdata = r_privdata c\<rparr>"
    "\<forall>j < i. rs ! j = rstack c ! j" "length rs = 9"
    using assms(3) r by (simp_all add: rs_def retype_nth)
  have o: "objs h a = Some (array_cell (replicate n None))" "\<forall>x < a. objs h x = linked (rstack c) i a (objs (r_heap c)) x"
    "hcount h = a + 2" "hfail h = hfail (r_heap c)"
    using made_at [OF r(3)] made_below [OF r(3)] by (simp_all add: h_def a_def)
  have "frame c i a c2" using t o r(2) by (simp add: frame_def c2_def)
  moreover have "ready c2 (Suc i)"
    using t o assms(3,4) r
    by (auto simp: ready_def c2_def slot_ok_def no_fail_def)
  moreover have "core c2 = c2" using assms(2) by (simp add: core_same c2_def)
  ultimately have "in_array c i [] n c2"
    using t o assms(5) by (simp add: in_array_def Let_def c2_def a_def)
  with l show ?thesis by blast
qed

lemma decode_value:
  "ready c i \<Longrightarrow> core c = c \<Longrightarrow> wf_reply (8 - i) v \<Longrightarrow> decodes c i v"
proof (induction v arbitrary: c i)
  case (RArray vs)
  have i: "i < 8" "length vs < 2147483648" using RArray.prems by auto
  show ?case
  proof (cases "vs = []")
    case True
    then show ?thesis using decodes_empty [OF RArray.prems(1,2) i(1)] by simp
  next
    case False
    obtain c2 where c2: "in_array c i [] (length vs) c2"
      "\<And>y. aloop c (CHR ''*'' # dec (length vs) @ CRLF @ y) = aloop c2 y"
      using array_start [OF RArray.prems(1,2) i(1) _ i(2)] False by auto
    have "wf_reply (8 - Suc i) v" if "v \<in> set vs" for v
      using RArray.prems(3) that by (simp add: list_all_iff)
    then have "decodes c' (Suc i) v" if "v \<in> set vs" "ready c' (Suc i)" "core c' = c'" for v c'
      using that RArray.IH by blast
    from elements_read [OF c2(1) False this] obtain c1 where c1: "after c i (RArray vs) c1" "core c1 = c1"
      "\<And>y. aloop c2 (concat (map encode vs) @ y) = resume c1 y" by (metis append_Nil)
    have "aloop c (encode (RArray vs) @ y) = resume c1 y" for y
      using c2(2) [of "concat (map encode vs) @ y"] c1(3) [of y] by simp
    with c1(1,2) show ?thesis unfolding decodes_def by blast
  qed
qed (simp_all add: decodes_line decodes_integer decodes_nil decodes_string)

end
