(* ===== verification/ReaderApi.thy ===== *)
theory ReaderApi
  imports Decode
begin

text \<open>
  The public operations of the reply reader in terms of the bytes still to be read: feeding
  appends to them, asking for a reply runs the loop on them.  The interface \<open>incremental\<close>
  is what a connection relies on: a reader that is fed a stream piece by piece gives the
  same replies however the stream is cut.
\<close>

section \<open>Errors stay errors\<close>

definition start :: "'h redisReader \<Rightarrow> 'h redisReader" where
  "start c = (if ridx c = - 1
     then c\<lparr>rstack := (rstack c)[0 := first_task (r_privdata c)], ridx := 0\<rparr> else c)"

lemma move_err: "moveToNextTask r = Ret ok r' \<Longrightarrow> r_err r' = r_err r"
proof (induction r rule: moveToNextTask.induct)
  case (1 r)
  then show ?case
    by (subst (asm) (2) moveToNextTask.simps) (auto simp: Let_def split: if_splits)
qed

lemma move_ridx: "ridx r \<ge> - 1 \<Longrightarrow> moveToNextTask r = Ret ok r' \<Longrightarrow> ridx r' \<ge> - 1"
proof (induction r rule: moveToNextTask.induct)
  case (1 r)
  from "1.prems" "1.IH" [OF _ _ refl refl refl] show ?case
    by (auto simp: moveToNextTask.simps [of r] Let_def split: if_splits)
qed

lemma set_error_err: "redisReaderSetError r ty s = Ret ok r' \<Longrightarrow> r_err r' = ty"
  by (auto simp: redisReaderSetError_def Let_def split: option.splits)

fun item_err :: "int \<Rightarrow> 'h item \<Rightarrow> bool" where
  "item_err x (More c k) = (r_err c = x \<and> ridx c \<ge> - 1)"
| "item_err x (Wait c k) = (r_err c = x)"
| "item_err x (Fail c) = (r_err c = REDIS_ERR_PROTOCOL \<or> r_err c = REDIS_ERR_OOM)"
| "item_err x Bad = True"

lemma consumed_err:
  assumes "\<And>c. x = Ret True c \<Longrightarrow> r_err c = e \<and> ridx c \<ge> - 1" "\<And>c. x = Ret False c \<Longrightarrow> r_err c \<in> {4, 5}"
  shows "item_err e (consumed k x)"
  using assms by (auto simp: consumed_def split: run.splits)

lemma finish_err: "ridx c \<ge> - 1 \<Longrightarrow> item_err (r_err c) (consumed k (finish_item c ob p))"
  by (rule consumed_err) (auto simp: finish_item_def Let_def redisReaderSetErrorOOM_def
      split: made.splits if_splits dest: move_err move_ok move_ridx [rotated] set_error_err set_error_False)

lemma array_err: "ridx c \<ge> - 1 \<Longrightarrow> item_err (r_err c) (consumed k (array_item c n))"
  by (rule consumed_err) (auto simp: array_item_def set_root_def push_task_def Let_def redisReaderSetErrorOOM_def
      split: made.splits run.splits if_splits dest: move_err move_ok move_ridx [rotated] set_error_err set_error_False)

lemma error_err: "ty \<in> {4, 5} \<Longrightarrow> item_err e (consumed k (redisReaderSetError c ty s))"
  by (rule consumed_err) (auto dest: set_error_err set_error_False)

lemma atyped_err: "ridx c \<ge> - 1 \<Longrightarrow> item_err (r_err c) (atyped c d)"
  by (auto simp: atyped_def aline_def abulk_def amulti_def Let_def finish_err array_err error_err split: option.splits)

lemma aitem_err: "item_err (r_err c) (aitem c d)"
proof -
  have p: "item_err e (plus_item m x) = item_err e x" for e m and x :: "'a item" by (cases x) simp_all
  have "item_err (r_err c) (atyped (retype ty c) d')" if "ridx c \<ge> 0" for ty d'
    using that atyped_err [of "retype ty c"] by simp
  then show ?thesis
    using atyped_err [of c]
    by (auto simp: aitem_def p redisReaderSetErrorProtocolByte_def error_err split: list.splits option.splits)
qed

fun outcome_err :: "int \<Rightarrow> 'h readout \<Rightarrow> bool" where
  "outcome_err x (Complete c d) = (r_err c = x \<and> ridx c = - 1)"
| "outcome_err x (Partial c d) = (r_err c = x \<and> ridx c \<ge> 0)"
| "outcome_err x (Failed c) = (r_err c = REDIS_ERR_PROTOCOL \<or> r_err c = REDIS_ERR_OOM)"
| "outcome_err x Broken = True"

lemma aloop_err: "ridx c \<ge> - 1 \<Longrightarrow> outcome_err (r_err c) (aloop c d)"
proof (induction c d rule: aloop.induct)
  case (1 c d)
  have e: "item_err (r_err c) (aitem c d)" by (rule aitem_err)
  show ?case
  proof (cases "aitem c d")
    case (More c' k)
    then show ?thesis using e "1.IH" [of c' k] "1.prems"
      by (simp add: aloop.simps [of c d])
  next
    case (Wait c' k)
    then show ?thesis using e aitem_Wait [OF Wait] "1.prems" by (simp add: aloop.simps [of c d])
  qed (use e "1.prems" in \<open>simp_all add: aloop.simps [of c d]\<close>)
qed

text \<open>What is left is a suffix of the input.\<close>

fun outcome_rest :: "string \<Rightarrow> 'h readout \<Rightarrow> bool" where
  "outcome_rest x (Complete c d) = (\<exists>p. x = p @ d)"
| "outcome_rest x (Partial c d) = (\<exists>p. x = p @ d)"
| "outcome_rest x _ = True"

lemma aloop_rest: "outcome_rest d (aloop c d)"
proof (induction c d rule: aloop.induct)
  case (1 c d)
  have s: "outcome_rest d x" if "outcome_rest (drop k d) x" for k and x :: "'a readout"
    using that by (cases x) (auto, (metis append.assoc append_take_drop_id)+)
  have t: "\<exists>p. d = p @ drop k d" for k by (metis append_take_drop_id)
  show ?case
  proof (cases "aitem c d")
    case (More c' k)
    then show ?thesis using "1.IH" [OF _ More] s [of k "aloop c' (drop k d)"] by (simp add: aloop.simps [of c d])
  qed (use t in \<open>simp_all add: aloop.simps [of c d]\<close>)
qed

section \<open>Feeding and asking\<close>

text \<open>A reader between two calls: no error, a well-formed buffer of which less than 1k has been
  consumed, and a task index in range.\<close>

definition reader_ok :: "'h redisReader \<Rightarrow> bool" where
  "reader_ok r \<longleftrightarrow> buf_ok r \<and> r_err r = 0 \<and> r_pos r < 1024 \<and> ridx r \<ge> - 1"

lemma feed_refines:
  assumes "reader_ok r" "1024 + length (pending r) + length t < 1073741824" "\<And>n. can_alloc e n"
  shows "\<exists>r'. redisReaderFeed e r t = Ret True r' \<and> reader_ok r' \<and> core r' = core r \<and>
    pending r' = pending r @ t \<and> (t \<noteq> [] \<longrightarrow> r_len r' \<noteq> 0)"
proof (cases "t = []")
  case True
  then show ?thesis using assms(1) by (simp add: redisReaderFeed_def reader_ok_def)
next
  case t: False
  obtain b where b: "r_buf r = Some b" "sds_inv b" "r_len r = length (content b)" "r_pos r \<le> r_len r"
    using assms(1) by (auto simp: reader_ok_def buf_ok_def)
  have room: "length (content b) + length t < 1073741824"
  proof -
    have "length (pending r) = length (content b) - r_pos r" using b by (simp add: pending_def)
    then show ?thesis using assms(1,2) b(3,4) unfolding reader_ok_def by linarith
  qed
  have append: "\<exists>b'. sdscatlen e x t = Ptr b' \<and> sds_inv b' \<and> content b' = content x @ t"
    if "sds_inv x" "length (content x) + length t < 1073741824" for x
    using sdscatlen_ok [OF that assms(3)] .
  have err: "r_err r = 0" "r_pos r < 1024" "ridx r \<ge> - 1" using assms(1) by (auto simp: reader_ok_def)
  have len: "sdslen b' = length (content b')" if "sds_inv b'" for b' using sdslen_content [OF that] .
  show ?thesis
  proof (cases "r_len r = 0 \<and> r_maxbuf r \<noteq> 0 \<and> sdsavail b > r_maxbuf r")
    case True
    obtain b0 where b0: "sdsempty e = Ptr b0" "sds_inv b0" "content b0 = []"
      using sdsempty_ok [OF assms(3)] by blast
    obtain b' where b': "sdscatlen e b0 t = Ptr b'" "sds_inv b'" "content b' = t"
      using append [OF b0(2)] b0(3) room by auto
    have "redisReaderFeed e r t = Ret True (r\<lparr>r_buf := Some b', r_pos := 0, r_len := sdslen b'\<rparr>)"
      using t b err True b0(1) b'(1) by (simp add: redisReaderFeed_def Let_def)
    moreover have "pending r = []" using b True by (simp add: pending_def)
    ultimately show ?thesis
      using b' err room t len [OF b'(2)]
      by (auto simp: reader_ok_def buf_ok_def pending_def core_def wb_def)
  next
    case False
    obtain b' where b': "sdscatlen e b t = Ptr b'" "sds_inv b'" "content b' = content b @ t"
      using append [OF b(2) room] by auto
    have "redisReaderFeed e r t = Ret True (r\<lparr>r_buf := Some b', r_len := sdslen b'\<rparr>)"
      using t b err False b'(1) by (auto simp: redisReaderFeed_def Let_def)
    then show ?thesis
      using b b' err room t len [OF b'(2)]
      by (auto simp: reader_ok_def buf_ok_def pending_def core_def wb_def)
  qed
qed

lemma discard_refines:
  assumes "buf_ok r"
  shows "\<exists>r'. discard r = Ret True r' \<and> buf_ok r' \<and> r_pos r' < 1024 \<and> core r' = core r \<and> pending r' = pending r"
proof (cases "r_pos r \<ge> 1024")
  case False
  then show ?thesis using assms by (simp add: discard_def)
next
  case True
  obtain b where b: "r_buf r = Some b" "sds_inv b" "r_len r = length (content b)" "r_pos r \<le> length (content b)"
    "length (content b) < 1073741824"
    using assms by (auto simp: buf_ok_def)
  obtain b' where b': "sdsrange b (int (r_pos r)) (- 1) = Ptr b'" "sds_inv b'" "content b' = drop (r_pos r) (content b)"
    using sdsrange_front [OF b(2,4,5)] by blast
  have "c_int (int (r_pos r)) = int (r_pos r)" using b by (simp add: c_int_id)
  then have "discard r = Ret True (r\<lparr>r_buf := Some b', r_pos := 0, r_len := sdslen b'\<rparr>)"
    using True b(1) b'(1) by (simp add: discard_def)
  then show ?thesis
    using b b' sdslen_content [OF b'(2)] by (auto simp: buf_ok_def pending_def core_def wb_def)
qed

text \<open>Asking for a reply is the loop on the pending bytes.\<close>

lemma get_reply_refines:
  assumes "reader_ok r" "r_len r \<noteq> 0"
  shows "case aloop (start (core r)) (pending r) of
      Complete c d \<Rightarrow> \<exists>r'. redisReaderGetReply r = Some (Ret True (r', r_reply c)) \<and> reader_ok r' \<and>
        core r' = core (c\<lparr>r_reply := None\<rparr>) \<and> pending r' = d
    | Partial c d \<Rightarrow> \<exists>r'. redisReaderGetReply r = Some (Ret True (r', None)) \<and> reader_ok r' \<and>
        core r' = core c \<and> pending r' = d \<and> ridx c \<ge> 0
    | Failed c \<Rightarrow> redisReaderGetReply r = Some (Ret False (c, None)) \<and> r_err c \<in> {REDIS_ERR_PROTOCOL, REDIS_ERR_OOM}
    | Broken \<Rightarrow> redisReaderGetReply r = Some Stuck"
proof -
  define r0 where "r0 = (if ridx r = - 1
    then r\<lparr>rstack := (rstack r)[0 := first_task (r_privdata r)], ridx := 0\<rparr> else r)"
  have r: "buf_ok r" "r_err r = 0" "ridx r \<ge> - 1" using assms(1) by (auto simp: reader_ok_def)
  have same: "r_buf r0 = r_buf r" "r_pos r0 = r_pos r" "r_len r0 = r_len r" by (simp_all add: r0_def)
  have r0: "core r0 = start (core r)" by (simp add: r0_def start_def core_def wb_def)
  have ok0: "buf_ok r0" "pending r0 = pending r" using r(1) by (auto simp: buf_ok_def pending_def same)
  note l = loop_refines [OF ok0(1)]
  have e: "outcome_err 0 (aloop (start (core r)) (pending r))"
  proof -
    have "r_err (start (core r)) = 0" "ridx (start (core r)) \<ge> - 1" using r by (simp_all add: start_def)
    then show ?thesis using aloop_err by metis
  qed
  have place: "r_len r - length d = r_pos r + (length (pending r) - length d)"
      "drop (length (pending r) - length d) (pending r) = d" "length d \<le> length (pending r)"
    if "\<exists>p. pending r = p @ d" for d
    using that buffer_view(1-3) [OF r(1)] by auto
  have conc: "buf_ok (wb (r_buf r) (r_len r - length d) (r_len r) c)"
      "pending (wb (r_buf r) (r_len r - length d) (r_len r) c) = d"
    if "\<exists>p. pending r = p @ d" for d and c :: "'a redisReader"
  proof -
    obtain b where b: "r_buf r = Some b" "r_len r = length (content b)"
      using r(1) by (auto simp: buf_ok_def)
    show "buf_ok (wb (r_buf r) (r_len r - length d) (r_len r) c)"
      using r(1) by (auto simp: buf_ok_def)
    show "pending (wb (r_buf r) (r_len r - length d) (r_len r) c) = d"
    proof -
      have "drop (r_len r - length d) (content b) = drop (length (pending r) - length d) (pending r)"
        unfolding place(1) [OF that] by (simp add: pending_def b(1) add.commute)
      also have "\<dots> = d" by (rule place(2) [OF that])
      finally show ?thesis by (simp add: pending_def b(1))
    qed
  qed
  have get: "redisReaderGetReply r = (case process_loop r0 of
           None \<Rightarrow> None
         | Some Stuck \<Rightarrow> Some Stuck
         | Some (Ret ok r) \<Rightarrow>
             if r_err r \<noteq> 0 then Some (Ret False (r, None))
             else
               (case discard r of
                  Stuck \<Rightarrow> Some Stuck
                | Ret _ r \<Rightarrow>
                    Some (if ridx r = - 1 then Ret True (r\<lparr>r_reply := None\<rparr>, r_reply r)
                          else Ret True (r, None))))"
    using assms(2) r(2) by (simp add: redisReaderGetReply_def r0_def)
  show ?thesis
  proof (cases "aloop (start (core r)) (pending r)")
    case (Complete c d)
    have c: "r_err c = 0" "ridx c = - 1" "\<exists>p. pending r = p @ d"
      using e aloop_rest [of "pending r" "start (core r)"] Complete by auto
    define r1 where "r1 = wb (r_buf r) (r_len r - length d) (r_len r) c"
    obtain r2 where r2: "discard r1 = Ret True r2" "buf_ok r2" "r_pos r2 < 1024" "core r2 = core r1" "pending r2 = d"
      using discard_refines [of r1] conc [OF c(3)] r1_def by metis
    have core2: "core r2 = core c" using r2(4) by (simp add: r1_def)
    have r2': "ridx r2 = - 1" "r_reply r2 = r_reply c" "r_err r2 = 0"
      using core2 c core_sel by metis+
    have "redisReaderGetReply r = Some (Ret True (r2\<lparr>r_reply := None\<rparr>, r_reply c))"
      using get l r0 ok0(2) Complete same c r2(1) r2' by (simp add: r1_def)
    moreover have "reader_ok (r2\<lparr>r_reply := None\<rparr>)"
      using r2 r2' by (auto simp: reader_ok_def buf_ok_def)
    moreover have "core (r2\<lparr>r_reply := None\<rparr>) = core (c\<lparr>r_reply := None\<rparr>)"
      using core2 by (simp add: core_def wb_upd)
    moreover have "pending (r2\<lparr>r_reply := None\<rparr>) = d"
      using r2(5) by (simp add: pending_def split: option.splits)
    ultimately show ?thesis using Complete by auto
  next
    case (Partial c d)
    have c: "r_err c = 0" "ridx c \<ge> 0" "\<exists>p. pending r = p @ d"
      using e aloop_rest [of "pending r" "start (core r)"] Partial by auto
    define r1 where "r1 = wb (r_buf r) (r_len r - length d) (r_len r) c"
    obtain r2 where r2: "discard r1 = Ret True r2" "buf_ok r2" "r_pos r2 < 1024" "core r2 = core r1" "pending r2 = d"
      using discard_refines [of r1] conc [OF c(3)] r1_def by metis
    have core2: "core r2 = core c" using r2(4) by (simp add: r1_def)
    have r2': "ridx r2 = ridx c" "r_err r2 = 0"
      using core2 c core_sel by metis+
    have "redisReaderGetReply r = Some (Ret True (r2, None))"
      using get l r0 ok0(2) Partial same c r2(1) r2' by (simp add: r1_def)
    then show ?thesis using Partial r2 r2' core2 c by (simp add: reader_ok_def)
  next
    case (Failed c)
    then show ?thesis using e get l r0 ok0(2) by auto
  next
    case Broken
    then show ?thesis using get l r0 ok0(2) by simp
  qed
qed

section \<open>The interface of an incremental reader\<close>

text \<open>What the bytes fed so far, followed by more bytes, amount to.\<close>

datatype 'v verdict = Got 'v string | NeedMore | Dead

locale incremental =
  fixes ok :: "'r \<Rightarrow> bool"
    and size_of :: "'r \<Rightarrow> nat"
    and lim :: nat
    and feed :: "'r \<Rightarrow> string \<Rightarrow> 'r option"
    and ask :: "'r \<Rightarrow> ('r \<times> 'o option) option"
    and sem :: "'r \<Rightarrow> string \<Rightarrow> 'v verdict"
    and out :: "'v \<Rightarrow> 'o option"
    and idle :: "'v \<Rightarrow> string \<Rightarrow> 'r \<Rightarrow> bool"
  assumes feed_ok: "ok r \<Longrightarrow> size_of r + length t < lim \<Longrightarrow>
      \<exists>r'. feed r t = Some r' \<and> ok r' \<and> size_of r' = size_of r + length t \<and> (\<forall>y. sem r' y = sem r (t @ y))"
    and ask_more: "ok r \<Longrightarrow> sem r [] = NeedMore \<Longrightarrow>
      \<exists>r'. ask r = Some (r', None) \<and> ok r' \<and> size_of r' \<le> size_of r \<and> (\<forall>y. sem r' y = sem r y)"
    and ask_got: "ok r \<Longrightarrow> sem r [] = Got v d \<Longrightarrow> \<exists>r'. ask r = Some (r', out v) \<and> ok r' \<and> idle v d r'"
    and out_some: "ok r \<Longrightarrow> sem r y = Got v d \<Longrightarrow> out v \<noteq> None"
    and sem_mono: "sem r y = Got v d \<Longrightarrow> sem r (y @ z) = Got v (d @ z)"
    and sem_dead: "sem r y = Dead \<Longrightarrow> sem r (y @ z) = Dead"
begin

text \<open>Feeding piece after piece until there is a reply; the pieces that were not needed.\<close>

fun pump :: "'r \<Rightarrow> string list \<Rightarrow> ('r \<times> 'o \<times> string list) option" where
  "pump r [] = None"
| "pump r (t # ts) =
     (case feed r t of
        None \<Rightarrow> None
      | Some r1 \<Rightarrow>
          (case ask r1 of
             None \<Rightarrow> None
           | Some (r2, Some x) \<Rightarrow> Some (r2, x, ts)
           | Some (r2, None) \<Rightarrow> pump r2 ts))"

lemma pump_got:
  assumes "ok r" "sem r [] = NeedMore" "sem r (concat ts) = Got v d" "size_of r + length (concat ts) < lim"
  shows "\<exists>r' x ts' d'. pump r ts = Some (r', x, ts') \<and> out v = Some x \<and> ok r' \<and> idle v d' r' \<and> d = d' @ concat ts'"
  using assms
proof (induction ts arbitrary: r)
  case (Cons t ts)
  have "size_of r + length t < lim" using Cons.prems(4) by simp
  from feed_ok [OF Cons.prems(1) this] obtain r1 where r1: "feed r t = Some r1" "ok r1"
    "size_of r1 = size_of r + length t" "\<forall>y. sem r1 y = sem r (t @ y)" by blast
  have full: "sem r1 (concat ts) = Got v d" using r1(4) Cons.prems(3) by simp
  show ?case
  proof (cases "sem r1 []")
    case (Got v' d')
    have "Got v d = Got v' (d' @ concat ts)" using sem_mono [OF Got, of "concat ts"] full by simp
    then have v: "v = v'" "d = d' @ concat ts" by simp_all
    obtain r2 where r2: "ask r1 = Some (r2, out v)" "ok r2" "idle v d' r2"
      using ask_got [OF r1(2) Got] v(1) by blast
    obtain x where "out v = Some x" using out_some [OF r1(2) full] by blast
    then show ?thesis using r1(1) r2 v(2) by auto
  next
    case NeedMore
    obtain r2 where r2: "ask r1 = Some (r2, None)" "ok r2" "size_of r2 \<le> size_of r1" "\<forall>y. sem r2 y = sem r1 y"
      using ask_more [OF r1(2) NeedMore] by blast
    have "size_of r2 + length (concat ts) < lim" using Cons.prems(4) r1(3) r2(3) by simp
    then show ?thesis using Cons.IH [OF r2(2)] r2 NeedMore full r1(1) by simp
  next
    case Dead
    then show ?thesis using sem_dead [OF Dead, of "concat ts"] full by simp
  qed
qed simp

end

section \<open>The reply reader implements the interface\<close>

definition rd_feed :: "menv \<Rightarrow> 'h redisReader \<Rightarrow> string \<Rightarrow> 'h redisReader option" where
  "rd_feed e r t = (case redisReaderFeed e r t of Ret True r' \<Rightarrow> Some r' | _ \<Rightarrow> None)"

definition rd_ask :: "'h redisReader \<Rightarrow> ('h redisReader \<times> obj option) option" where
  "rd_ask r = (case redisReaderGetReply r of Some (Ret True x) \<Rightarrow> Some x | _ \<Rightarrow> None)"

definition rd_sem :: "'h redisReader \<Rightarrow> string \<Rightarrow> 'h redisReader verdict" where
  "rd_sem r y =
     (case aloop (start (core r)) (pending r @ y) of
        Complete c d \<Rightarrow> Got c d
      | Partial c d \<Rightarrow> NeedMore
      | _ \<Rightarrow> Dead)"

definition rd_idle :: "'h redisReader \<Rightarrow> string \<Rightarrow> 'h redisReader \<Rightarrow> bool" where
  "rd_idle c d r \<longleftrightarrow> core r = core (c\<lparr>r_reply := None\<rparr>) \<and> pending r = d"

text \<open>A complete reply has a root object.\<close>

lemma move_keeps_reply: "moveToNextTask r = Ret ok r' \<Longrightarrow> r_reply r' = r_reply r"
proof (induction r rule: moveToNextTask.induct)
  case (1 r)
  from "1.prems" "1.IH" [OF _ _ refl refl refl] show ?case
    by (auto simp: moveToNextTask.simps [of r] Let_def split: if_splits)
qed

fun item_root :: "'h redisReader \<Rightarrow> 'h item \<Rightarrow> bool" where
  "item_root c0 (More c k) = (r_reply c \<noteq> None)"
| "item_root c0 (Wait c k) = (ridx c = ridx c0 \<and> r_reply c = r_reply c0)"
| "item_root c0 _ = True"

lemma consumed_root: "(\<And>c. x = Ret True c \<Longrightarrow> r_reply c \<noteq> None) \<Longrightarrow> item_root c0 (consumed k x)"
  by (auto simp: consumed_def split: run.splits)

definition rooted :: "'h redisReader \<Rightarrow> bool" where
  "rooted c \<longleftrightarrow> ridx c \<le> 0 \<or> r_reply c \<noteq> None"

lemma finish_root:
  assumes "rooted c" "0 \<le> ridx c"
  shows "item_root c0 (consumed k (finish_item c ob p))"
proof (rule consumed_root)
  fix c'
  assume f: "finish_item c ob p = Ret True c'"
  then show "r_reply c' \<noteq> None"
    using assms
    by (cases ob) (auto simp: finish_item_def Let_def redisReaderSetErrorOOM_def rooted_def
        split: if_splits dest: move_keeps_reply set_error_False)
qed

lemma array_root:
  assumes "rooted c" "0 \<le> ridx c"
  shows "item_root c0 (consumed k (array_item c n))"
proof (rule consumed_root)
  fix c'
  assume f: "array_item c n = Ret True c'"
  then show "r_reply c' \<noteq> None"
    using assms
    by (cases "array_obj c n") (auto simp: array_item_def set_root_def push_task_def Let_def
        redisReaderSetErrorOOM_def rooted_def split: if_splits run.splits dest: move_keeps_reply set_error_False)
qed

lemma error_root: "item_root c0 (consumed k (redisReaderSetError c ty s))"
  by (rule consumed_root) (auto dest: set_error_False)

lemma atyped_root:
  assumes "rooted c" "0 \<le> ridx c"
  shows "item_root c (atyped c d)"
  using finish_root [OF assms] array_root [OF assms]
  by (auto simp: atyped_def aline_def abulk_def amulti_def Let_def error_root split: option.splits)

lemma aitem_root:
  assumes "rooted c"
  shows "item_root c (aitem c d)"
proof -
  have p: "item_root e (plus_item m x) = item_root e x" for e m and x :: "'a item" by (cases x) simp_all
  have s: "item_root (retype ty c) x = item_root c x" for ty and x :: "'a item" by (cases x) simp_all
  have "item_root c (atyped (retype ty c) d')" if "ridx c \<ge> 0" for ty d'
    using that assms atyped_root [of "retype ty c"] by (simp add: s rooted_def)
  then show ?thesis
    using atyped_root [OF assms]
    by (auto simp: aitem_def p redisReaderSetErrorProtocolByte_def error_root split: list.splits option.splits)
qed

lemma aloop_root:
  assumes "rooted c" "0 \<le> ridx c \<or> r_reply c \<noteq> None"
  shows "case aloop c d of Complete c' d' \<Rightarrow> r_reply c' \<noteq> None | Partial c' d' \<Rightarrow> rooted c' | _ \<Rightarrow> True"
  using assms
proof (induction c d rule: aloop.induct)
  case (1 c d)
  have i: "item_root c (aitem c d)" by (rule aitem_root [OF "1.prems"(1)])
  show ?case
  proof (cases "aitem c d")
    case (More c' k)
    then have "r_reply c' \<noteq> None" using i by simp
    then show ?thesis using "1.IH" [OF _ More] More "1.prems"(2) by (auto simp: aloop.simps [of c d] rooted_def)
  next
    case (Wait c' k)
    then show ?thesis using i "1.prems" by (auto simp: aloop.simps [of c d] rooted_def)
  qed (use "1.prems" in \<open>auto simp: aloop.simps [of c d]\<close>)
qed

lemma aloop_core:
  "core c = c \<Longrightarrow> case aloop c d of Complete c' d' \<Rightarrow> core c' = c' | Partial c' d' \<Rightarrow> core c' = c' | _ \<Rightarrow> True"
proof (induction c d rule: aloop.induct)
  case (1 c d)
  have i: "item_core (aitem c d)" using aitem_core [of c d] "1.prems" by simp
  show ?case
  proof (cases "aitem c d")
    case (More c' k)
    then show ?thesis using "1.IH" [OF _ More] i "1.prems" by (simp add: aloop.simps [of c d])
  qed (use i "1.prems" in \<open>simp_all add: aloop.simps [of c d]\<close>)
qed

definition rd_ok :: "'h redisReader \<Rightarrow> bool" where
  "rd_ok r \<longleftrightarrow> reader_ok r \<and> rooted r"

lemma core_start: "core (start c) = start (core c)"
  by (simp add: start_def core_def wb_def)

lemma aloop_nil: "0 \<le> ridx c \<Longrightarrow> aloop c [] \<noteq> Complete c' d"
  using aitem_More [of c "[]"] by (cases "aitem c []") (auto simp: aloop.simps [of c "[]"])

lemma reader_facts:
  assumes "rd_ok r"
  shows "reader_ok r" "r_err r = 0" "rooted (start (core r))" "0 \<le> ridx (start (core r))"
    "core (start (core r)) = start (core r)" "r_len r = 0 \<Longrightarrow> pending r = []"
    "r_len r = 0 \<Longrightarrow> redisReaderGetReply r = Some (Ret True (r, None))"
  using assms
  by (auto simp: rd_ok_def reader_ok_def rooted_def start_def core_same buf_ok_def pending_def
      redisReaderGetReply_def)

lemma rd_ask_more:
  assumes "rd_ok r" "rd_sem r [] = NeedMore"
  shows "\<exists>r'. rd_ask r = Some (r', None) \<and> rd_ok r' \<and> length (pending r') \<le> length (pending r) \<and>
    (\<forall>y. rd_sem r' y = rd_sem r y)"
proof (cases "r_len r = 0")
  case True
  then show ?thesis using reader_facts(7) [OF assms(1)] assms(1) by (simp add: rd_ask_def)
next
  case False
  let ?c = "start (core r)"
  note f = reader_facts [OF assms(1)]
  obtain c d where p: "aloop ?c (pending r) = Partial c d"
    using assms(2) by (auto simp: rd_sem_def split: readout.splits)
  obtain r' where r': "redisReaderGetReply r = Some (Ret True (r', None))" "reader_ok r'" "core r' = core c"
    "pending r' = d" "ridx c \<ge> 0"
    using get_reply_refines [OF f(1) False] p by auto
  have c: "core c = c" "rooted c"
    using aloop_core [OF f(5), of "pending r"] aloop_root [OF f(3), of "pending r"] f(4) p by auto
  have "start (core r') = c" using r'(3,5) c(1) by (simp add: start_def)
  then have "rd_sem r' y = rd_sem r y" for y
    using p r'(4) aloop_append [of ?c "pending r" y] by (simp add: rd_sem_def)
  moreover have "length d \<le> length (pending r)" using aloop_rest [of "pending r" ?c] p by auto
  moreover have "ridx r' = ridx c" "r_reply r' = r_reply c" using r'(3) core_sel by metis+
  then have "rd_ok r'" using r'(2) c(2) by (simp add: rd_ok_def rooted_def)
  ultimately show ?thesis using r' by (simp add: rd_ask_def)
qed

lemma rd_ask_got:
  assumes "rd_ok r" "rd_sem r [] = Got c d"
  shows "\<exists>r'. rd_ask r = Some (r', r_reply c) \<and> rd_ok r' \<and> rd_idle c d r'"
proof -
  note f = reader_facts [OF assms(1)]
  have p: "aloop (start (core r)) (pending r) = Complete c d"
    using assms(2) by (auto simp: rd_sem_def split: readout.splits)
  have "r_len r \<noteq> 0" using p f(4,6) aloop_nil by metis
  from get_reply_refines [OF f(1) this] p obtain r' where
    r': "redisReaderGetReply r = Some (Ret True (r', r_reply c))" "reader_ok r'"
    "core r' = core (c\<lparr>r_reply := None\<rparr>)" "pending r' = d" by auto
  have "ridx c = - 1" using aloop_err [of "start (core r)" "pending r"] p f(4) by simp
  moreover have "ridx r' = ridx c" using r'(3) by (metis core_sel(8) redisReader.select_convs(8) redisReader.surjective redisReader.update_convs(9))
  ultimately show ?thesis using r' by (simp add: rd_ask_def rd_idle_def rd_ok_def rooted_def)
qed

interpretation rd: incremental rd_ok "\<lambda>r. 1024 + length (pending r)" 1073741824
  "rd_feed \<lparr>can_alloc = (\<lambda>n. True), junk = j\<rparr>" rd_ask rd_sem r_reply rd_idle
proof unfold_locales
  fix r r' :: "'a redisReader" and t y z :: string and v d
  show "\<exists>r'. rd_feed \<lparr>can_alloc = (\<lambda>n. True), junk = j\<rparr> r t = Some r' \<and> rd_ok r' \<and>
      1024 + length (pending r') = 1024 + length (pending r) + length t \<and> (\<forall>y. rd_sem r' y = rd_sem r (t @ y))"
    if a: "rd_ok r" "1024 + length (pending r) + length t < 1073741824"
  proof -
    obtain r1 where r1: "redisReaderFeed \<lparr>can_alloc = (\<lambda>n. True), junk = j\<rparr> r t = Ret True r1" "reader_ok r1"
      "core r1 = core r" "pending r1 = pending r @ t"
      using feed_refines [of r t "\<lparr>can_alloc = (\<lambda>n. True), junk = j\<rparr>"] a by (auto simp: rd_ok_def)
    have "rooted r1" using r1(3) a(1) core_sel(8,9) unfolding rd_ok_def rooted_def by metis
    then show ?thesis using r1 by (simp add: rd_feed_def rd_ok_def rd_sem_def)
  qed
  show "r_reply v \<noteq> None" if "rd_ok r" "rd_sem r y = Got v d"
    using aloop_root [OF reader_facts(3) [OF that(1)], of "pending r @ y"] reader_facts(4) [OF that(1)] that(2)
    by (auto simp: rd_sem_def split: readout.splits)
  show "rd_sem r (y @ z) = Got v (d @ z)" if "rd_sem r y = Got v d"
    using that aloop_append [of "start (core r)" "pending r @ y" z] by (auto simp: rd_sem_def split: readout.splits)
  show "rd_sem r (y @ z) = Dead" if "rd_sem r y = Dead"
    using that aloop_append [of "start (core r)" "pending r @ y" z] by (auto simp: rd_sem_def split: readout.splits)
qed (use rd_ask_more rd_ask_got in auto)

end
