(* ===== verification/ReaderLaws.thy ===== *)
theory ReaderLaws
  imports ReaderApi
begin

text \<open>
  What the reply reader of \<^verbatim>\<open>read.c\<close> with the default object functions of \<^verbatim>\<open>hiredis.c\<close> does with
  a stream of encoded replies: it returns them in order, however the stream is cut, it
  always returns, and its protocol errors are final.
\<close>

section \<open>A reader between two replies\<close>

definition quiet :: "heap redisReader \<Rightarrow> bool" where
  "quiet r \<longleftrightarrow> rd_ok r \<and> ridx r = - 1 \<and> r_reply r = None \<and> r_fn r = Some defaultFunctions \<and>
     no_fail (r_heap r) \<and> length (rstack r) = 9"

text \<open>The reader \<open>r'\<close> has read the value \<open>v\<close> into the store of \<open>r\<close>.\<close>

definition has_read :: "heap redisReader \<Rightarrow> reply \<Rightarrow> heap redisReader \<Rightarrow> bool" where
  "has_read r v r' \<longleftrightarrow> hcount (r_heap r') = hcount (r_heap r) + cost v \<and>
     rep (objs (r_heap r')) (hcount (r_heap r)) v \<and>
     (\<forall>x < hcount (r_heap r). objs (r_heap r') x = objs (r_heap r) x)"

lemma quiet_start:
  assumes "quiet r"
  shows "ready (start (core r)) 0" "core (start (core r)) = start (core r)"
  using assms reader_facts(5) [of r]
  by (auto simp: quiet_def ready_def start_def first_task_def slot_ok_def)

lemma resume_root:
  assumes "ridx c = 0"
  shows "resume c y = Complete (c\<lparr>ridx := - 1\<rparr>) y"
  using assms by (simp add: resume_def moveToNextTask.simps [of c] aloop.simps [of "c\<lparr>ridx := - 1\<rparr>"])

lemma reply_complete:
  assumes "quiet r" "wf_reply 8 v"
  shows "\<exists>c. (\<forall>y. aloop (start (core r)) (encode v @ y) = Complete c y) \<and>
    r_reply c = Some (Addr (hcount (r_heap r))) \<and> has_read r v c \<and>
    (\<forall>d r'. rd_ok r' \<longrightarrow> rd_idle c d r' \<longrightarrow> quiet r')"
proof -
  let ?s = "start (core r)"
  have "decodes ?s 0 v" using decode_value [OF quiet_start [OF assms(1)]] assms(2) by simp
  then obtain c1 where c1: "after ?s 0 v c1" "core c1 = c1" "\<forall>y. aloop ?s (encode v @ y) = resume c1 y"
    by (auto simp: decodes_def)
  have s: "r_heap ?s = r_heap r" "t_parent (rstack ?s ! 0) = None" "r_fn ?s = Some defaultFunctions"
    "length (rstack ?s) = 9" "no_fail (r_heap r)"
    using assms(1) by (auto simp: quiet_def start_def first_task_def)
  have f: "ridx c1 = 0" "frame ?s 0 (hcount (r_heap r)) c1" "has_read r v c1"
    using c1(1) s(1,2) by (auto simp: after_def has_read_def frame_def linked_def)
  let ?c = "c1\<lparr>ridx := - 1\<rparr>"
  have q: "quiet r'" if "rd_ok r'" "rd_idle ?c d r'" for d r'
  proof -
    have "core r' = core (?c\<lparr>r_reply := None\<rparr>)" using that(2) by (simp add: rd_idle_def)
    then have "ridx r' = - 1" "r_reply r' = None" "r_fn r' = r_fn c1" "r_heap r' = r_heap c1" "rstack r' = rstack c1"
      by (auto simp: core_def wb_def dest: arg_cong [where f = ridx] arg_cong [where f = r_reply] arg_cong [where f = r_fn]
          arg_cong [where f = r_heap] arg_cong [where f = rstack])
    then show ?thesis using that(1) f(2) s by (simp add: quiet_def frame_def no_fail_def)
  qed
  have "r_reply ?c = Some (Addr (hcount (r_heap r)))" using f(2) by (simp add: frame_def)
  moreover have "has_read r v ?c" using f(3) by (simp add: has_read_def)
  ultimately show ?thesis using c1(3) resume_root [OF f(1)] q by (intro exI [of _ ?c]) simp
qed

lemma reply_got:
  assumes "quiet r" "wf_reply 8 v"
  shows "\<exists>c. (\<forall>y z. pending r @ y = encode v @ z \<longrightarrow> rd_sem r y = Got c z) \<and>
    r_reply c = Some (Addr (hcount (r_heap r))) \<and> has_read r v c \<and>
    (\<forall>d r'. rd_ok r' \<longrightarrow> rd_idle c d r' \<longrightarrow> quiet r')"
  using reply_complete [OF assms] by (auto simp: rd_sem_def)

lemma idle_read: "rd_idle c d r' \<Longrightarrow> has_read r v c \<Longrightarrow> has_read r v r'"
proof -
  assume a: "rd_idle c d r'" "has_read r v c"
  have "r_heap r' = r_heap c"
    using a(1) by (auto simp: rd_idle_def core_def wb_def dest: arg_cong [where f = r_heap])
  then show ?thesis using a(2) by (simp add: has_read_def)
qed

text \<open>A stream that starts with the encoding of a value either holds all of it or the
  reader waits for more.\<close>

lemma reply_prefix:
  assumes "quiet r" "wf_reply 8 v" "pending r @ y = encode v @ z"
  shows "length (pending r) < length (encode v) \<longleftrightarrow> rd_sem r [] = NeedMore"
proof -
  obtain c where c: "\<forall>y z. pending r @ y = encode v @ z \<longrightarrow> rd_sem r y = Got c z"
    using reply_got [OF assms(1,2)] by blast
  then have full: "rd_sem r y = Got c z" using assms(3) by simp
  show ?thesis
  proof (cases "rd_sem r []")
    case (Got c' d)
    have "Got c z = Got c' (d @ y)" using rd.sem_mono [OF Got, of y] full by simp
    then have z: "z = d @ y" by simp
    then have "pending r = encode v @ d" using assms(3) by (metis append.assoc append_same_eq)
    then show ?thesis using Got by simp
  next
    case NeedMore
    have "\<not> length (encode v) \<le> length (pending r)"
    proof
      assume "length (encode v) \<le> length (pending r)"
      then have "pending r = encode v @ drop (length (encode v)) (pending r)"
        using assms(3) by (metis append_eq_append_conv_if append_take_drop_id)
      then show False using c NeedMore by (metis append_Nil2 verdict.distinct(1))
    qed
    then show ?thesis using NeedMore by simp
  next
    case Dead
    then show ?thesis using rd.sem_dead [OF Dead, of y] full by simp
  qed
qed

lemma create_quiet:
  assumes "redisReaderCreateWithFunctions e (Some defaultFunctions) h = Ptr r" "no_fail h"
  shows "quiet r" "pending r = []" "r_heap r = h"
proof -
  obtain b where b: "sdsempty e = Ptr b"
    using assms(1) by (cases "sdsempty e") (auto simp: redisReaderCreateWithFunctions_def)
  have "sds_inv b \<and> content b = []" using sdsempty_refines [of e] b by auto
  then show "quiet r" "pending r = []" "r_heap r = h"
    using assms b by (auto simp: redisReaderCreateWithFunctions_def quiet_def rd_ok_def reader_ok_def
        buf_ok_def rooted_def pending_def)
qed

lemma feed_quiet:
  assumes "quiet r" "1024 + length (pending r) + length t < 1073741824" "\<And>n. can_alloc e n"
  shows "\<exists>r'. redisReaderFeed e r t = Ret True r' \<and> quiet r' \<and> pending r' = pending r @ t \<and> r_heap r' = r_heap r"
proof -
  obtain r' where r': "redisReaderFeed e r t = Ret True r'" "reader_ok r'" "core r' = core r" "pending r' = pending r @ t"
    using feed_refines [OF _ assms(2,3)] assms(1) by (auto simp: quiet_def rd_ok_def)
  have "ridx r' = ridx r" "r_reply r' = r_reply r" "r_fn r' = r_fn r" "r_heap r' = r_heap r" "rstack r' = rstack r"
    using r'(3) by (auto simp: core_def wb_def dest: arg_cong [where f = ridx] arg_cong [where f = r_reply]
        arg_cong [where f = r_fn] arg_cong [where f = r_heap] arg_cong [where f = rstack])
  then show ?thesis using r' assms(1) by (simp add: quiet_def rd_ok_def rooted_def)
qed

lemma ask_quiet:
  assumes "quiet r" "wf_reply 8 v" "pending r = encode v @ z"
  shows "\<exists>r'. redisReaderGetReply r = Some (Ret True (r', Some (Addr (hcount (r_heap r))))) \<and>
    quiet r' \<and> pending r' = z \<and> has_read r v r'"
proof -
  obtain c where c: "\<forall>y z. pending r @ y = encode v @ z \<longrightarrow> rd_sem r y = Got c z"
    "r_reply c = Some (Addr (hcount (r_heap r)))" "has_read r v c" "\<forall>d r'. rd_ok r' \<longrightarrow> rd_idle c d r' \<longrightarrow> quiet r'"
    using reply_got [OF assms(1,2)] by blast
  have "rd_sem r [] = Got c z" using c(1) assms(3) by simp
  from rd_ask_got [OF _ this] obtain r' where r': "rd_ask r = Some (r', r_reply c)" "rd_ok r'" "rd_idle c z r'"
    using assms(1) by (auto simp: quiet_def)
  have "redisReaderGetReply r = Some (Ret True (r', r_reply c))"
    using r'(1) by (auto simp: rd_ask_def split: option.splits run.splits bool.splits)
  then show ?thesis using r' c idle_read [OF r'(3) c(3)] by (simp add: rd_idle_def)
qed

text \<open>A fresh reader with an empty store that has been fed some bytes.\<close>

lemma fed_reader:
  assumes "1024 + length t < 1073741824"
  shows "\<exists>r. quiet r \<and> pending r = t \<and> r_heap r = \<lparr>objs = (\<lambda>x. None), hcount = 0, hfail = (\<lambda>n. False)\<rparr>"
proof -
  let ?e = "\<lparr>can_alloc = (\<lambda>n. True), junk = (\<lambda>i. CHR ''x'')\<rparr>"
  let ?h = "\<lparr>objs = (\<lambda>x. None), hcount = 0, hfail = (\<lambda>n. False)\<rparr>"
  obtain r where r: "redisReaderCreateWithFunctions ?e (Some defaultFunctions) ?h = Ptr r"
    using sdsempty_ok [of ?e] by (auto simp: redisReaderCreateWithFunctions_def)
  have "quiet r" "pending r = []" "r_heap r = ?h" using create_quiet [OF r] by (simp_all add: no_fail_def)
  then show ?thesis using feed_quiet [of r t ?e] assms by auto
qed

section \<open>Round trip\<close>

text \<open>C21 A new reader that is fed the encoding of a value, followed by any further bytes, returns
  an object that represents exactly that value (nested arrays, null replies, binary strings
  and the whole range of integers above the least one included); the further bytes stay
  pending and objects made before are unchanged.\<close>

theorem reader_roundtrip:
  assumes "redisReaderCreateWithFunctions e (Some defaultFunctions) h = Ptr r" "no_fail h"
    "\<And>n. can_alloc e n" "wf_reply 8 v" "1024 + length (encode v @ z) < 1073741824"
  shows "\<exists>r1 r2. redisReaderFeed e r (encode v @ z) = Ret True r1 \<and>
    redisReaderGetReply r1 = Some (Ret True (r2, Some (Addr (hcount h)))) \<and>
    rep (objs (r_heap r2)) (hcount h) v \<and> pending r2 = z \<and>
    (\<forall>x. x < hcount h \<longrightarrow> objs (r_heap r2) x = objs h x)"
proof -
  note n = create_quiet [OF assms(1,2)]
  obtain r1 where r1: "redisReaderFeed e r (encode v @ z) = Ret True r1" "quiet r1" "pending r1 = encode v @ z"
    "r_heap r1 = h"
    using feed_quiet [OF n(1) _ assms(3), of "encode v @ z"] assms(5) n(2,3) by auto
  obtain r2 where "redisReaderGetReply r1 = Some (Ret True (r2, Some (Addr (hcount h))))" "pending r2 = z" "has_read r1 v r2"
    using ask_quiet [OF r1(2) assms(4) r1(3)] r1(4) by auto
  then show ?thesis using r1 by (auto simp: has_read_def)
qed

theorem reader_roundtrip_witness:
  "\<exists>r r1 r2. let e = \<lparr>can_alloc = (\<lambda>n. True), junk = (\<lambda>i. CHR ''x'')\<rparr>;
       h = \<lparr>objs = (\<lambda>x. None), hcount = 5, hfail = (\<lambda>n. False)\<rparr>;
       v = RArray [RInteger (- 12), RString (''a'' @ CRLF), RNil, RArray [RStatus ''OK'']] in
     redisReaderCreateWithFunctions e (Some defaultFunctions) h = Ptr r \<and>
     redisReaderFeed e r (encode v @ ''+x'') = Ret True r1 \<and>
     redisReaderGetReply r1 = Some (Ret True (r2, Some (Addr 5))) \<and>
     rep (objs (r_heap r2)) 5 v \<and> pending r2 = ''+x''"
proof -
  let ?e = "\<lparr>can_alloc = (\<lambda>n. True), junk = (\<lambda>i. CHR ''x'')\<rparr>"
  let ?h = "\<lparr>objs = (\<lambda>x. None), hcount = 5, hfail = (\<lambda>n. False)\<rparr>"
  let ?v = "RArray [RInteger (- 12), RString (''a'' @ CRLF), RNil, RArray [RStatus ''OK'']]"
  obtain r where r: "redisReaderCreateWithFunctions ?e (Some defaultFunctions) ?h = Ptr r"
    using sdsempty_ok [of ?e] by (auto simp: redisReaderCreateWithFunctions_def)
  have "wf_reply 8 ?v" "1024 + length (encode ?v @ ''+x'') < 1073741824"
    by (simp_all add: bulk_def dec.simps dec_int_def find_crlf.simps)
  moreover have "no_fail ?h" "\<And>n. can_alloc ?e n" by (simp_all add: no_fail_def)
  ultimately obtain r1 r2 where "redisReaderFeed ?e r (encode ?v @ ''+x'') = Ret True r1"
    "redisReaderGetReply r1 = Some (Ret True (r2, Some (Addr (hcount ?h))))"
    "rep (objs (r_heap r2)) (hcount ?h) ?v" "pending r2 = ''+x''"
    using reader_roundtrip [OF r] by metis
  then show ?thesis unfolding Let_def using r
    by (intro exI [of _ r] exI [of _ r1] exI [of _ r2] conjI) (simp_all only: heap.select_convs)
qed

section \<open>Releasing a reply\<close>

text \<open>C24 Releasing a reply that the reader has returned never touches a missing object, removes every object of
  that reply and leaves all objects made before it as they were.\<close>

theorem reply_released:
  assumes "quiet r" "wf_reply 8 v" "pending r = encode v @ z"
  shows "\<exists>r' p h. redisReaderGetReply r = Some (Ret True (r', Some p)) \<and> freeReplyObject p (r_heap r') = Some h \<and>
    (\<forall>x. x \<in> live (hcount (r_heap r)) v \<longrightarrow> objs h x = None) \<and>
    (\<forall>x. x < hcount (r_heap r) \<longrightarrow> objs h x = objs (r_heap r) x)"
proof -
  let ?a = "hcount (r_heap r)"
  obtain r' where r': "redisReaderGetReply r = Some (Ret True (r', Some (Addr ?a)))" "has_read r v r'"
    using ask_quiet [OF assms] by blast
  have "freeReplyObject (Addr ?a) (r_heap r') = Some (drop_objs (live ?a v) (r_heap r'))"
    using r'(2) free_rep(1) [of "r_heap r'" ?a v "Suc (hcount (r_heap r'))"] by (simp add: freeReplyObject_def has_read_def)
  moreover have "x \<notin> live ?a v" if "x < ?a" for x using live_bounds(1) [of ?a v] that by auto
  ultimately show ?thesis using r' by (auto simp: has_read_def)
qed

theorem reply_released_witness:
  "\<exists>r r' p h. pending r = ''*2'' @ CRLF @ ''$-1'' @ CRLF @ '':7'' @ CRLF \<and>
     redisReaderGetReply r = Some (Ret True (r', Some p)) \<and> freeReplyObject p (r_heap r') = Some h \<and> objs h 0 = None"
proof -
  let ?v = "RArray [RNil, RInteger 7]"
  have v: "encode ?v = ''*2'' @ CRLF @ ''$-1'' @ CRLF @ '':7'' @ CRLF" "wf_reply 8 ?v"
    by (simp_all add: dec.simps dec_int_def digit_numeral flip: numeral_2_eq_2 numeral_3_eq_3)
  have len: "1024 + length (encode ?v) < 1073741824" unfolding v(1) by simp
  obtain r where r: "quiet r" "pending r = encode ?v @ []" "hcount (r_heap r) = 0"
    using fed_reader [OF len] by auto
  obtain r' p h where "redisReaderGetReply r = Some (Ret True (r', Some p))" "freeReplyObject p (r_heap r') = Some h"
    "\<forall>x. x \<in> live (hcount (r_heap r)) ?v \<longrightarrow> objs h x = None"
    using reply_released [OF r(1) v(2) r(2)] by blast
  moreover from this(3) have "objs h 0 = None" using r(3) by simp
  moreover have "pending r = ''*2'' @ CRLF @ ''$-1'' @ CRLF @ '':7'' @ CRLF" unfolding r(2) v(1) by simp
  ultimately show ?thesis by blast
qed

section \<open>Cutting the stream\<close>

lemma get_reply_core:
  assumes "reader_ok r" "reader_ok s" "r_len r \<noteq> 0" "r_len s \<noteq> 0"
    "aloop (start (core r)) (pending r) = aloop (start (core s)) (pending s)"
  shows "(\<exists>r' s' p. redisReaderGetReply r = Some (Ret True (r', p)) \<and> redisReaderGetReply s = Some (Ret True (s', p)) \<and>
      core r' = core s' \<and> pending r' = pending s') \<or> redisReaderGetReply r = redisReaderGetReply s"
  using get_reply_refines [OF assms(1,3)] get_reply_refines [OF assms(2,4)] assms(5)
  by (cases "aloop (start (core s)) (pending s)") auto

text \<open>C22 For any bytes, well formed or not: when a reader is fed the first piece, asked in vain, fed the second piece
  and asked again, it answers like the same reader fed both pieces at once.  Either both
  give the same reply, the same rest and the same state apart from the layout of the
  buffer, or both fail in the same way.\<close>

theorem reader_cut:
  assumes "rd_ok r" "x \<noteq> []" "y \<noteq> []" "1024 + length (pending r) + length x + length y < 1073741824" "\<And>n. can_alloc e n"
    "redisReaderFeed e r x = Ret True r1" "redisReaderGetReply r1 = Some (Ret True (r2, None))"
    "redisReaderFeed e r2 y = Ret True r3" "redisReaderFeed e r (x @ y) = Ret True r4"
  shows "(\<exists>s t p. redisReaderGetReply r3 = Some (Ret True (s, p)) \<and> redisReaderGetReply r4 = Some (Ret True (t, p)) \<and>
      core s = core t \<and> pending s = pending t) \<or> redisReaderGetReply r3 = redisReaderGetReply r4"
proof -
  let ?c = "start (core r)"
  have ok: "reader_ok r" using assms(1) by (simp add: rd_ok_def)
  have r1: "reader_ok r1" "core r1 = core r" "pending r1 = pending r @ x" "r_len r1 \<noteq> 0"
    using feed_refines [OF ok _ assms(5), of x] assms(2,4,6) by auto
  have r4: "reader_ok r4" "core r4 = core r" "pending r4 = pending r @ x @ y" "r_len r4 \<noteq> 0"
    using feed_refines [OF ok _ assms(5), of "x @ y"] assms(2,4,9) by auto
  have ok1: "rd_ok r1" using r1(1,2) assms(1) core_sel(8,9) unfolding rd_ok_def rooted_def by metis
  have root1: "case aloop ?c (pending r @ x) of Complete c' d' \<Rightarrow> r_reply c' \<noteq> None | Partial c' d' \<Rightarrow> rooted c' | _ \<Rightarrow> True"
    using aloop_root [OF reader_facts(3) [OF ok1], of "pending r1"] reader_facts(4) [OF ok1] r1(2,3) by simp
  obtain c d where p: "aloop ?c (pending r @ x) = Partial c d"
    using get_reply_refines [OF r1(1,4)] r1(2,3) assms(7) root1
    by (cases "aloop ?c (pending r @ x)") auto
  have r2: "reader_ok r2" "core r2 = core c" "pending r2 = d" "0 \<le> ridx c"
    using get_reply_refines [OF r1(1,4)] r1(2,3) assms(7) p by auto
  have c: "core c = c" using aloop_core [OF reader_facts(5) [OF assms(1)], of "pending r @ x"] p by simp
  have "length d \<le> length (pending r @ x)" using aloop_rest [of "pending r @ x" ?c] p
    by (metis length_append le_add2 outcome_rest.simps(2))
  then have r3: "reader_ok r3" "core r3 = core r2" "pending r3 = d @ y" "r_len r3 \<noteq> 0"
    using feed_refines [OF r2(1) _ assms(5), of y] r2(3) assms(3,4,8) by auto
  have "start (core r3) = c" using r3(2) r2(2,4) c by (simp add: start_def)
  then have "aloop (start (core r3)) (pending r3) = aloop (start (core r4)) (pending r4)"
    using p r3(3) r4(2,3) aloop_append [of ?c "pending r @ x" y] by simp
  from get_reply_core [OF r3(1) r4(1) r3(4) r4(4) this] show ?thesis .
qed

theorem reader_cut_witness:
  "\<exists>(r1 :: heap redisReader) r2 r3 (r4 :: heap redisReader). let e = \<lparr>can_alloc = (\<lambda>n. True), junk = (\<lambda>i. CHR ''x'')\<rparr> in
     redisReaderGetReply r1 = Some (Ret True (r2, None)) \<and> redisReaderFeed e r2 ''oo'' = Ret True r3 \<and>
     pending r4 = ''$3'' @ CRLF @ ''foo'' \<and>
     ((\<exists>s t p. redisReaderGetReply r3 = Some (Ret True (s, p)) \<and> redisReaderGetReply r4 = Some (Ret True (t, p)) \<and>
        core s = core t \<and> pending s = pending t) \<or> redisReaderGetReply r3 = redisReaderGetReply r4)"
proof -
  let ?e = "\<lparr>can_alloc = (\<lambda>n. True), junk = (\<lambda>i. CHR ''x'')\<rparr>" and ?x = "''$3'' @ CRLF @ ''f''" and ?y = "''oo''"
  have w: "wf_reply 8 (RString ''foo'')" "encode (RString ''foo'') = ?x @ ?y @ CRLF"
    by (simp_all add: bulk_def dec.simps digit_numeral flip: numeral_2_eq_2 numeral_3_eq_3)
  obtain r where r: "quiet r" "pending r = []" using fed_reader [of "[]"] by auto
  then have ok: "rd_ok r" by (simp add: quiet_def)
  obtain r1 where r1: "redisReaderFeed ?e r ?x = Ret True r1" "quiet r1" "pending r1 = ?x"
    using feed_quiet [OF r(1), of ?x ?e] r(2) by auto
  obtain r4 where r4: "redisReaderFeed ?e r (?x @ ?y) = Ret True r4" "pending r4 = ?x @ ?y"
    using feed_quiet [OF r(1), of "?x @ ?y" ?e] r(2) by auto
  have "rd_sem r1 [] = NeedMore"
    using reply_prefix [OF r1(2) w(1), of "?y @ CRLF" "[]"] r1(3) w(2) by simp
  from rd_ask_more [OF _ this] r1(2) obtain r2 where r2: "rd_ask r1 = Some (r2, None)" "rd_ok r2"
    "length (pending r2) \<le> length (pending r1)" by (auto simp: quiet_def)
  have g: "redisReaderGetReply r1 = Some (Ret True (r2, None))"
    using r2(1) by (auto simp: rd_ask_def split: option.splits run.splits bool.splits)
  obtain r3 where r3: "redisReaderFeed ?e r2 ?y = Ret True r3"
    using feed_refines [of r2 ?y ?e] r2(2,3) r1(3) by (auto simp: rd_ok_def)
  have "(\<exists>s t p. redisReaderGetReply r3 = Some (Ret True (s, p)) \<and> redisReaderGetReply r4 = Some (Ret True (t, p)) \<and>
        core s = core t \<and> pending s = pending t) \<or> redisReaderGetReply r3 = redisReaderGetReply r4"
    by (rule reader_cut [OF ok _ _ _ _ r1(1) g r3 r4(1)]) (simp_all add: r(2))
  moreover have "pending r4 = ''$3'' @ CRLF @ ''foo''" using r4(2) by simp
  ultimately show ?thesis unfolding Let_def using g r3 by blast
qed

section \<open>The reader always answers\<close>



section \<open>Protocol errors\<close>

lemma failed_reply:
  assumes "reader_ok r" "pending r \<noteq> []" "aloop (start (core r)) (pending r) = Failed c"
  shows "redisReaderGetReply r = Some (Ret False (c, None))"
proof -
  have "r_len r \<noteq> 0" using assms(1,2) by (auto simp: reader_ok_def buf_ok_def pending_def)
  then show ?thesis using get_reply_refines [OF assms(1)] assms(3) by simp
qed

lemma hexdig_not_nul: "k < 16 \<Longrightarrow> hexdig k \<noteq> NUL"
proof -
  assume "k < 16"
  then have "ord (hexdig k) \<noteq> 0" by (simp add: hexdig_def digit_def ord_char_of)
  then show ?thesis by (auto simp: ord_def)
qed

lemma chrtos_text: "NUL \<notin> set (chrtos 8 b)" "length (chrtos 8 b) \<le> 7"
proof -
  have "ord b < 256" by (rule ord_less)
  then have "ord b div 16 < 16" "ord b mod 16 < 16" by simp_all
  then have "hexdig (ord b div 16) \<noteq> NUL" "hexdig (ord b mod 16) \<noteq> NUL" by (simp_all only: hexdig_not_nul not_False_eq_True)
  moreover have "\<not> isprint NUL" by (simp add: isprint_def ord_def)
  ultimately show "NUL \<notin> set (chrtos 8 b)"
    by (auto simp: chrtos_def dest!: in_set_takeD split: if_splits)
qed (simp add: chrtos_def)

lemma cstr_id: "NUL \<notin> set t \<Longrightarrow> cstr t = t"
  by (auto simp: cstr_def takeWhile_eq_all_conv)

lemma failed_stays:
  "r_err r \<noteq> 0 \<Longrightarrow> redisReaderFeed e r t = Ret False r \<and> redisReaderGetReply r = Some (Ret False (r, None))"
  by (simp add: redisReaderFeed_def redisReaderGetReply_def)

text \<open>C25 A reply that starts with a byte that is none of the five type bytes is a protocol
  error whose text shows the byte, and the error is final: later bytes are refused and later
  questions fail in the same way.\<close>

theorem reader_bad_type:
  assumes "quiet r" "pending r = b # z" "b \<notin> set ''-+:$*''"
  shows "\<exists>r'. redisReaderGetReply r = Some (Ret False (r', None)) \<and> r_err r' = REDIS_ERR_PROTOCOL \<and>
    r_errstr r' = ''Protocol error, got '' @ chrtos 8 b @ '' as reply type byte'' \<and>
    redisReaderFeed e r' t = Ret False r' \<and> redisReaderGetReply r' = Some (Ret False (r', None))"
proof -
  let ?c = "start (core r)" and ?t = "''Protocol error, got '' @ chrtos 8 b @ '' as reply type byte''"
  have c: "ridx ?c = 0" "length (rstack ?c) = 9" "t_type (rstack ?c ! 0) = - 1" "r_reply ?c = None" "reader_ok r"
    using assms(1) by (auto simp: quiet_def start_def first_task_def rd_ok_def)
  have "cstr ?t = ?t" using chrtos_text(1) [of b] by (intro cstr_id) auto
  moreover have "length ?t \<le> 127" using chrtos_text(2) [of b] by simp
  ultimately obtain r' where r': "redisReaderSetErrorProtocolByte ?c b = Ret False r'" "r_err r' = 4" "r_errstr r' = ?t"
    using c(4) by (auto simp: redisReaderSetErrorProtocolByte_def redisReaderSetError_def Let_def)
  have "reply_type_byte b = None" using assms(3) by (simp add: reply_type_byte_def)
  then have "aitem ?c (pending r) = Fail r'"
    using c r'(1) assms(2) by (simp add: aitem_def consumed_def)
  then have "aloop ?c (pending r) = Failed r'" using c(1) by (simp add: aloop.simps [of ?c])
  then have "redisReaderGetReply r = Some (Ret False (r', None))" using failed_reply [OF c(5)] assms(2) by simp
  then show ?thesis using r' failed_stays [of r' e t] by simp
qed

theorem reader_bad_type_witness:
  "\<exists>(r :: heap redisReader) r'. pending r = ''HTTP'' \<and> redisReaderGetReply r = Some (Ret False (r', None)) \<and>
     r_errstr r' = ''Protocol error, got '' @ [CHR 0x22, CHR ''H'', CHR 0x22] @ '' as reply type byte''"
proof -
  obtain r where r: "quiet r" "pending r = ''HTTP''" using fed_reader [of "''HTTP''"] by auto
  have "chrtos 8 CHR ''H'' = [CHR 0x22, CHR ''H'', CHR 0x22]" by code_simp
  then show ?thesis using reader_bad_type [OF r, where t = "[]" and e = "\<lparr>can_alloc = (\<lambda>n. True), junk = (\<lambda>i. CHR ''x'')\<rparr>"] r by auto
qed

section \<open>Array lengths beyond \<^verbatim>\<open>int\<close>\<close>

lemma broken_reply:
  assumes "reader_ok r" "pending r \<noteq> []" "aloop (start (core r)) (pending r) = Broken"
  shows "redisReaderGetReply r = Some Stuck"
proof -
  have "r_len r \<noteq> 0" using assms(1,2) by (auto simp: reader_ok_def buf_ok_def pending_def)
  then show ?thesis using get_reply_refines [OF assms(1)] assms(3) by simp
qed

lemma dec_line: "find_crlf (dec n @ CR # LF # y) = Some (length (dec n))"
  by (intro find_crlf_line find_crlf_no_CR) (auto dest: dec_digits)

text \<open>C26 An array header whose count does not fit \<^verbatim>\<open>int\<close> but \<^verbatim>\<open>long\<close> is passed to the array constructor after
  truncation to a value that is not positive, so the array has no element store, while the
  task stack still expects elements: the first element is written through a null pointer.\<close>

theorem reader_count_overflow:
  assumes "quiet r" "2147483648 \<le> n" "n < 4294967296"
    "pending r = CHR ''*'' # dec n @ CRLF @ CHR '':'' # dec k @ CRLF @ z"
  shows "redisReaderGetReply r = Some Stuck"
proof -
  let ?c = "start (core r)" and ?a = "hcount (r_heap r)" and ?d = "CHR '':'' # dec k @ CRLF @ z"
  have s: "rstack ?c = (rstack r)[0 := first_task (r_privdata r)]" "ridx ?c = 0" "r_fn ?c = Some defaultFunctions"
    "r_heap ?c = r_heap r" "length (rstack r) = 9" "\<And>n. \<not> hfail (r_heap r) n" "r_privdata ?c = r_privdata r"
    using assms(1) by (auto simp: quiet_def start_def no_fail_def)
  define c1 where "c1 = (case array_item (retype 2 ?c) (int n) of Ret ok c \<Rightarrow> c | Stuck \<Rightarrow> ?c)"
  have "(int n + 2147483648) mod 4294967296 = (int n + 2147483648 - 4294967296) mod 4294967296"
    by (simp only: minus_mod_self2)
  also have "\<dots> = int n + 2147483648 - 4294967296" using assms(2,3) by (intro mod_pos_pos_trivial) simp_all
  finally have i: "c_int (int n) \<le> 0" "line_ll (dec n) = int n"
    using assms(2,3) by (simp_all add: c_int_def line_ll_dec)
  have a: "array_item (retype 2 ?c) (int n) = Ret True c1"
    "objs (r_heap c1) ?a = Some ((zeroed 2)\<lparr>rp_elements := c_size (c_int (int n))\<rparr>)" "ridx c1 = 1"
    "length (rstack c1) = 9" "t_obj (rstack c1 ! 0) = Some (Addr ?a)" "t_parent (rstack c1 ! 1) = Some 0"
    "t_type (rstack c1 ! 1) = - 1" "r_fn c1 = Some defaultFunctions" "\<And>n. \<not> hfail (r_heap c1) n" "hcount (r_heap c1) = Suc ?a"
    using s i(1) assms(2)
    by (simp_all add: c1_def array_item_def array_obj_def callback_def defaultFunctions_def createArrayObject_def
        createReplyObject_def halloc_def hput_def set_element_def first_task_def retype_def set_root_def push_task_def Let_def)
  have "aitem ?c (pending r) = plus_item 1 (atyped (retype 2 ?c) (dec n @ CR # LF # ?d))"
    using s assms(4) by (simp add: aitem_def reply_type_byte_def first_task_def)
  also have "\<dots> = More c1 (length (dec n) + 3)"
    using a(1) i(2) s dec_line [of n ?d] by (simp add: atyped_def amulti_def retype_def consumed_def Let_def)
  finally have more: "aitem ?c (pending r) = More c1 (length (dec n) + 3)" .
  have "aitem c1 ?d = Bad"
    using a dec_line [of k z]
    by (simp add: aitem_def reply_type_byte_def atyped_def aline_def line_obj_def callback_def defaultFunctions_def
        createIntegerObject_def createReplyObject_def halloc_def hput_def set_element_def retype_def finish_item_def
        consumed_def zeroed_def Let_def)
  moreover have "drop (length (dec n) + 3) (pending r) = ?d"
    using assms(4) by (simp add: numeral_3_eq_3)
  ultimately have "aloop ?c (pending r) = Broken"
    using more s(2) a(3) by (simp add: aloop.simps [of ?c] aloop.simps [of c1])
  then show ?thesis using broken_reply [of r] assms(1,4) by (simp add: quiet_def rd_ok_def)
qed

theorem reader_count_overflow_witness:
  "\<exists>r :: heap redisReader. pending r = ''*2147483648'' @ CRLF @ '':1'' @ CRLF \<and> redisReaderGetReply r = Some Stuck"
proof -
  have d: "dec 2147483648 = ''2147483648''" "dec 1 = ''1''" by (simp_all add: dec.simps digit_numeral flip: numeral_2_eq_2 numeral_3_eq_3)
  obtain r where r: "quiet r" "pending r = ''*2147483648'' @ CRLF @ '':1'' @ CRLF"
    using fed_reader [of "''*2147483648'' @ CRLF @ '':1'' @ CRLF"] by auto
  then show ?thesis using reader_count_overflow [of r 2147483648 1 "[]"] d by auto
qed

end
