(* ===== verification/Connection.thy ===== *)
theory Connection
  imports Format ReaderLaws
begin

text \<open>
  Model of a connection, the \<^verbatim>\<open>redisContext\<close> of \<^verbatim>\<open>hiredis.c\<close>: the output buffer, the reply
  reader, and the functions that write commands, read replies and wait for them.  The
  results of the system calls \<^verbatim>\<open>read\<close> and \<^verbatim>\<open>write\<close> are lists, consumed one per call; a call
  when the list is empty does not return, and then the operation is \<^term>\<open>None\<close>.  The text of
  an error number is a parameter.
\<close>

section \<open>The context\<close>

datatype rd_res = RBytes string | RErrno int
datatype wr_res = WCount nat | WErrno int

record redisContext =
  c_err :: int
  c_errstr :: string
  c_flags :: nat
  c_obuf :: "sds option"
  c_reader :: "heap redisReader option"
  c_in :: "rd_res list"
  c_out :: "wr_res list"
  c_sent :: string

abbreviation (input) "REDIS_ERR_TIMEOUT \<equiv> 7 :: int"
abbreviation (input) "EAGAIN \<equiv> 11 :: int"
abbreviation (input) "EINTR \<equiv> 4 :: int"

text \<open>\<^verbatim>\<open>EWOULDBLOCK\<close> is \<^verbatim>\<open>EAGAIN\<close>; \<^verbatim>\<open>REDIS_BLOCK\<close> is the lowest bit of the flags.\<close>

definition blocking :: "redisContext \<Rightarrow> bool" where
  "blocking c \<longleftrightarrow> odd (c_flags c)"

definition redisSetError :: "redisContext \<Rightarrow> int \<Rightarrow> string \<Rightarrow> redisContext" where
  "redisSetError c ty s = c\<lparr>c_err := ty, c_errstr := take 127 (cstr s)\<rparr>"

definition redisReaderCreate :: "menv \<Rightarrow> heap \<Rightarrow> heap redisReader ptr" where
  "redisReaderCreate e h = redisReaderCreateWithFunctions e (Some defaultFunctions) h"

text \<open>The descriptor, the addresses and the timeout belong to \<^verbatim>\<open>net.c\<close>; a new context has none.\<close>

definition redisContextInit :: "menv \<Rightarrow> heap \<Rightarrow> redisContext option" where
  "redisContextInit e h =
     (case (sdsempty e, redisReaderCreate e h) of
        (Ptr b, Ptr r) \<Rightarrow>
          Some \<lparr>c_err = 0, c_errstr = [], c_flags = 0, c_obuf = Some b, c_reader = Some r, c_in = [], c_out = [],
                c_sent = []\<rparr>
      | _ \<Rightarrow> None)"

section \<open>Reading and writing\<close>

definition redisBufferRead :: "(int \<Rightarrow> string) \<Rightarrow> menv \<Rightarrow> redisContext \<Rightarrow> redisContext run option" where
  "redisBufferRead strerr e c =
     (if c_err c \<noteq> 0 then Some (Ret False c)
      else
        (case c_in c of
           [] \<Rightarrow> None
         | x # xs \<Rightarrow>
             (let c = c\<lparr>c_in := xs\<rparr> in
              case x of
                RErrno n \<Rightarrow>
                  Some (if (n = EAGAIN \<and> \<not> blocking c) \<or> n = EINTR then Ret True c
                        else if n = EAGAIN \<and> blocking c
                        then Ret False (redisSetError c REDIS_ERR_TIMEOUT ''Socket timeout'')
                        else Ret False (redisSetError c REDIS_ERR_IO (strerr n)))
              | RBytes t \<Rightarrow>
                  if t = [] then
                    Some (Ret False (redisSetError c REDIS_ERR_EOF ''Server closed the connection''))
                  else
                    (case c_reader c of
                       None \<Rightarrow> Some Stuck
                     | Some r \<Rightarrow>
                         (case redisReaderFeed e r t of
                            Stuck \<Rightarrow> Some Stuck
                          | Ret ok r \<Rightarrow>
                              Some (if ok then Ret True (c\<lparr>c_reader := Some r\<rparr>)
                                    else Ret False (redisSetError (c\<lparr>c_reader := Some r\<rparr>) (r_err r) (r_errstr r))))))))"

text \<open>The result says whether the output buffer is empty.  The fresh buffer after a complete
  write is not checked before its length is taken.\<close>

definition redisBufferWrite :: "(int \<Rightarrow> string) \<Rightarrow> menv \<Rightarrow> redisContext \<Rightarrow> (redisContext \<times> bool) run option" where
  "redisBufferWrite strerr e c =
     (if c_err c \<noteq> 0 then Some (Ret False (c, False))
      else
        (case c_obuf c of
           None \<Rightarrow> Some Stuck
         | Some b \<Rightarrow>
             if sdslen b > 0 then
               (case c_out c of
                  [] \<Rightarrow> None
                | x # xs \<Rightarrow>
                    (let c = c\<lparr>c_out := xs\<rparr> in
                     case x of
                       WErrno n \<Rightarrow>
                         Some (if (n = EAGAIN \<and> \<not> blocking c) \<or> n = EINTR then Ret True (c, sdslen b = 0)
                               else if n = EAGAIN \<and> blocking c
                               then Ret False (redisSetError c REDIS_ERR_TIMEOUT ''Socket timeout'', False)
                               else Ret False (redisSetError c REDIS_ERR_IO (strerr n), False))
                     | WCount k \<Rightarrow>
                         (let n = min k (sdslen b);
                              c = c\<lparr>c_sent := c_sent c @ take n (sbuf b)\<rparr> in
                          Some (if n = 0 then Ret True (c, sdslen b = 0)
                                else if n = sdslen b then
                                  (case sdsempty e of
                                     Ptr b' \<Rightarrow> Ret True (c\<lparr>c_obuf := Some b'\<rparr>, sdslen b' = 0)
                                   | _ \<Rightarrow> Stuck)
                                else
                                  (case sdsrange b (c_int (int n)) (- 1) of
                                     Ptr b' \<Rightarrow> Ret True (c\<lparr>c_obuf := Some b'\<rparr>, sdslen b' = 0)
                                   | _ \<Rightarrow> Stuck)))))
             else Some (Ret True (c, sdslen b = 0))))"

definition redisGetReplyFromReader :: "redisContext \<Rightarrow> (redisContext \<times> obj option) run option" where
  "redisGetReplyFromReader c =
     (case c_reader c of
        None \<Rightarrow> Some Stuck
      | Some r \<Rightarrow>
          (case redisReaderGetReply r of
             None \<Rightarrow> None
           | Some Stuck \<Rightarrow> Some Stuck
           | Some (Ret ok (r, x)) \<Rightarrow>
               Some (if ok then Ret True (c\<lparr>c_reader := Some r\<rparr>, x)
                     else Ret False (redisSetError (c\<lparr>c_reader := Some r\<rparr>) (r_err r) (r_errstr r), x))))"

partial_function (option) write_loop ::
  "(int \<Rightarrow> string) \<Rightarrow> menv \<Rightarrow> redisContext \<Rightarrow> redisContext run option" where
  "write_loop strerr e c =
     (case redisBufferWrite strerr e c of
        None \<Rightarrow> None
      | Some Stuck \<Rightarrow> Some Stuck
      | Some (Ret ok (c, wdone)) \<Rightarrow>
          if \<not> ok then Some (Ret False c)
          else if wdone then Some (Ret True c)
          else write_loop strerr e c)"

partial_function (option) read_loop ::
  "(int \<Rightarrow> string) \<Rightarrow> menv \<Rightarrow> redisContext \<Rightarrow> (redisContext \<times> obj option) run option" where
  "read_loop strerr e c =
     (case redisBufferRead strerr e c of
        None \<Rightarrow> None
      | Some Stuck \<Rightarrow> Some Stuck
      | Some (Ret ok c) \<Rightarrow>
          if \<not> ok then Some (Ret False (c, None))
          else
            (case redisGetReplyFromReader c of
               None \<Rightarrow> None
             | Some Stuck \<Rightarrow> Some Stuck
             | Some (Ret ok (c, aux)) \<Rightarrow>
                 if \<not> ok then Some (Ret False (c, None))
                 else if aux = None then read_loop strerr e c
                 else Some (Ret True (c, aux))))"

definition redisGetReply :: "(int \<Rightarrow> string) \<Rightarrow> menv \<Rightarrow> redisContext \<Rightarrow> (redisContext \<times> obj option) run option" where
  "redisGetReply strerr e c =
     (case redisGetReplyFromReader c of
        None \<Rightarrow> None
      | Some Stuck \<Rightarrow> Some Stuck
      | Some (Ret ok (c, aux)) \<Rightarrow>
          if \<not> ok then Some (Ret False (c, None))
          else if aux = None \<and> blocking c then
            (case write_loop strerr e c of
               None \<Rightarrow> None
             | Some Stuck \<Rightarrow> Some Stuck
             | Some (Ret ok c) \<Rightarrow> if ok then read_loop strerr e c else Some (Ret False (c, None)))
          else Some (Ret True (c, aux)))"

section \<open>Commands\<close>

definition appendCommand :: "menv \<Rightarrow> redisContext \<Rightarrow> string \<Rightarrow> redisContext run" where
  "appendCommand e c cmd =
     (case c_obuf c of
        None \<Rightarrow> Stuck
      | Some b \<Rightarrow>
          (case sdscatlen e b cmd of
             Crash \<Rightarrow> Stuck
           | Null \<Rightarrow> Ret False (redisSetError c REDIS_ERR_OOM ''Out of memory'')
           | Ptr b' \<Rightarrow> Ret True (c\<lparr>c_obuf := Some b'\<rparr>)))"

definition redisAppendFormattedCommand :: "menv \<Rightarrow> redisContext \<Rightarrow> string \<Rightarrow> redisContext run" where
  "redisAppendFormattedCommand e c cmd = appendCommand e c cmd"

definition redisvAppendCommand ::
  "(string \<Rightarrow> nat \<Rightarrow> string) \<Rightarrow> menv \<Rightarrow> redisContext \<Rightarrow> string \<Rightarrow> va list \<Rightarrow> redisContext run" where
  "redisvAppendCommand dbl e c format ap =
     (case redisvFormatCommand dbl e format ap of
        FBug \<Rightarrow> Stuck
      | FErr n \<Rightarrow>
          if n = - 1 then Ret False (redisSetError c REDIS_ERR_OOM ''Out of memory'')
          else if n = - 2 then Ret False (redisSetError c REDIS_ERR_OTHER ''Invalid format string'')
          else Stuck
      | FOk cmd len \<Rightarrow> appendCommand e c cmd)"

definition redisAppendCommandArgv :: "menv \<Rightarrow> redisContext \<Rightarrow> string list \<Rightarrow> nat list option \<Rightarrow> redisContext run" where
  "redisAppendCommandArgv e c argv argvlen =
     (case redisFormatSdsCommandArgv e argv argvlen of
        FBug \<Rightarrow> Stuck
      | FErr n \<Rightarrow> Ret False (redisSetError c REDIS_ERR_OOM ''Out of memory'')
      | FOk cmd len \<Rightarrow> appendCommand e c cmd)"

text \<open>A null result is \<^term>\<open>None\<close> in the second component.\<close>

definition redisBlockForReply :: "(int \<Rightarrow> string) \<Rightarrow> menv \<Rightarrow> redisContext \<Rightarrow> (redisContext \<times> obj option) run option" where
  "redisBlockForReply strerr e c =
     (if blocking c then
        (case redisGetReply strerr e c of
           None \<Rightarrow> None
         | Some Stuck \<Rightarrow> Some Stuck
         | Some (Ret ok (c, x)) \<Rightarrow> Some (Ret ok (c, if ok then x else None)))
      else Some (Ret True (c, None)))"

definition redisvCommand ::
  "(string \<Rightarrow> nat \<Rightarrow> string) \<Rightarrow> (int \<Rightarrow> string) \<Rightarrow> menv \<Rightarrow> redisContext \<Rightarrow> string \<Rightarrow> va list \<Rightarrow>
   (redisContext \<times> obj option) run option" where
  "redisvCommand dbl strerr e c format ap =
     (case redisvAppendCommand dbl e c format ap of
        Stuck \<Rightarrow> Some Stuck
      | Ret ok c \<Rightarrow> if ok then redisBlockForReply strerr e c else Some (Ret False (c, None)))"

definition redisCommandArgv ::
  "(int \<Rightarrow> string) \<Rightarrow> menv \<Rightarrow> redisContext \<Rightarrow> string list \<Rightarrow> nat list option \<Rightarrow>
   (redisContext \<times> obj option) run option" where
  "redisCommandArgv strerr e c argv argvlen =
     (case redisAppendCommandArgv e c argv argvlen of
        Stuck \<Rightarrow> Some Stuck
      | Ret ok c \<Rightarrow> if ok then redisBlockForReply strerr e c else Some (Ret False (c, None)))"

end
