(* ===== verification/ConnectionLaws.thy ===== *)
theory ConnectionLaws
  imports Connection
begin

text \<open>
  The blocking exchange of \<^verbatim>\<open>hiredis.c\<close>: the whole output buffer is sent, in pieces of any
  size, and the replies come back complete and in order, however the socket cuts the
  stream and however often a call is interrupted.
\<close>

section \<open>The socket\<close>

fun read_text :: "rd_res \<Rightarrow> string" where
  "read_text (RBytes t) = t"
| "read_text (RErrno n) = []"

text \<open>Reads that return data or are interrupted; \<^verbatim>\<open>read\<close> is given a buffer of 16384 bytes.\<close>

fun good_read :: "rd_res \<Rightarrow> bool" where
  "good_read (RBytes t) = (t \<noteq> [] \<and> length t \<le> 16384)"
| "good_read (RErrno n) = (n = EINTR)"

definition stream :: "rd_res list \<Rightarrow> string" where
  "stream xs = concat (map read_text xs)"

fun write_count :: "wr_res \<Rightarrow> nat" where
  "write_count (WCount n) = n"
| "write_count (WErrno n) = 0"

fun good_write :: "wr_res \<Rightarrow> bool" where
  "good_write (WCount n) = True"
| "good_write (WErrno n) = (n = EINTR)"

lemma stream_simps [simp]: "stream [] = []" "stream (x # xs) = read_text x @ stream xs"
  "stream (xs @ ys) = stream xs @ stream ys"
  by (simp_all add: stream_def)

section \<open>Sending\<close>

lemma buffer_write:
  assumes "c_err c = 0" "c_obuf c = Some b" "sds_inv b" "length (content b) < 1073741824" "content b \<noteq> []"
    "c_out c = w # ws" "good_write w" "\<And>n. can_alloc e n"
  shows "\<exists>b'. redisBufferWrite strerr e c =
      Some (Ret True (c\<lparr>c_out := ws, c_sent := c_sent c @ take (write_count w) (content b), c_obuf := Some b'\<rparr>,
        content b' = [])) \<and> sds_inv b' \<and> content b' = drop (write_count w) (content b)"
proof -
  have len: "sdslen b = length (content b)" using sdslen_content [OF assms(3)] .
  have same: "c\<lparr>c_out := ws\<rparr> = c\<lparr>c_out := ws, c_sent := c_sent c, c_obuf := Some b\<rparr>"
    using assms(2) by simp
  show ?thesis
  proof (cases w)
    case (WErrno n)
    then show ?thesis using assms len same by (intro exI [of _ b]) (simp add: redisBufferWrite_def)
  next
    case (WCount k)
    define n where "n = min k (length (content b))"
    define c1 where "c1 = c\<lparr>c_out := ws, c_sent := c_sent c @ take n (content b)\<rparr>"
    have t: "take k (content b) = take n (content b)" "drop k (content b) = drop n (content b)"
      by (auto simp: n_def min_def)
    have tb: "m \<le> length (content b) \<Longrightarrow> take m (sbuf b) = take m (content b)" for m
      using length_content [OF assms(3)] unfolding content_def by (simp add: min_def)
    have n: "n \<le> length (content b)" by (simp add: n_def)
    have bw: "redisBufferWrite strerr e c =
       Some (if n = 0 then Ret True (c1, False)
             else if n = length (content b) then
               (case sdsempty e of Ptr b' \<Rightarrow> Ret True (c1\<lparr>c_obuf := Some b'\<rparr>, sdslen b' = 0) | _ \<Rightarrow> Stuck)
             else
               (case sdsrange b (c_int (int n)) (- 1) of
                  Ptr b' \<Rightarrow> Ret True (c1\<lparr>c_obuf := Some b'\<rparr>, sdslen b' = 0) | _ \<Rightarrow> Stuck))"
      using assms(1,2,5,6) n by (simp add: tb redisBufferWrite_def Let_def len WCount n_def [symmetric] c1_def split: ptr.splits)
    have fin: "c\<lparr>c_out := ws, c_sent := c_sent c @ take (write_count w) (content b), c_obuf := Some b'\<rparr> = c1\<lparr>c_obuf := Some b'\<rparr>"
      for b' by (simp add: c1_def WCount t)
    from n consider (zero) "n = 0" | (all) "n \<noteq> 0" "n = length (content b)" | (part) "n \<noteq> 0" "n < length (content b)"
      by linarith
    then have "\<exists>b'. redisBufferWrite strerr e c = Some (Ret True (c1\<lparr>c_obuf := Some b'\<rparr>, content b' = [])) \<and>
      sds_inv b' \<and> content b' = drop n (content b)"
    proof cases
      case zero
      have "c1\<lparr>c_obuf := Some b\<rparr> = c1" using assms(2) by (simp add: c1_def)
      then show ?thesis using bw zero assms(3,5) by (intro exI [of _ b]) simp
    next
      case all
      obtain b' where b': "sdsempty e = Ptr b'" "sds_inv b'" "content b' = []" using sdsempty_ok [OF assms(8)] by blast
      then have "sdslen b' = 0" using sdslen_content [OF b'(2)] by simp
      then show ?thesis using bw all b' by (intro exI [of _ b']) simp
    next
      case part
      obtain b' where b': "sdsrange b (int n) (- 1) = Ptr b'" "sds_inv b'" "content b' = drop n (content b)"
        using sdsrange_front [OF assms(3) _ assms(4), of n] part by auto
      have "c_int (int n) = int n" using part assms(4) by (simp add: c_int_id)
      then show ?thesis using bw part b' sdslen_content [OF b'(2)] by (intro exI [of _ b']) simp
    qed
    then show ?thesis unfolding fin by (simp add: WCount t)
  qed
qed

text \<open>Calls of \<^verbatim>\<open>write\<close> that together accept the whole buffer empty it.\<close>

lemma write_loop_sends:
  assumes "c_err c = 0" "c_obuf c = Some b" "sds_inv b" "length (content b) < 1073741824"
    "c_out c = ws @ rest" "list_all good_write ws" "length (content b) \<le> sum_list (map write_count ws)" "\<And>n. can_alloc e n"
  shows "\<exists>b' ws'. write_loop strerr e c =
      Some (Ret True (c\<lparr>c_out := ws' @ rest, c_sent := c_sent c @ content b, c_obuf := Some b'\<rparr>)) \<and>
      sds_inv b' \<and> content b' = []"
  using assms
proof (induction ws arbitrary: c b)
  case Nil
  then have "content b = []" "sdslen b = 0" using sdslen_content [of b] by auto
  then have "write_loop strerr e c = Some (Ret True c)"
    using Nil by (simp add: write_loop.simps [of strerr e c] redisBufferWrite_def)
  then show ?case using Nil \<open>content b = []\<close> by (intro exI [of _ b] exI [of _ "[]"]) simp
next
  case (Cons w ws)
  show ?case
  proof (cases "content b = []")
    case True
    then have "sdslen b = 0" using sdslen_content [OF Cons.prems(3)] by simp
    then have "write_loop strerr e c = Some (Ret True c)"
      using Cons.prems by (simp add: write_loop.simps [of strerr e c] redisBufferWrite_def)
    then show ?thesis using Cons.prems True by (intro exI [of _ b] exI [of _ "w # ws"]) simp
  next
    case False
    let ?k = "write_count w"
    obtain b1 where b1: "redisBufferWrite strerr e c = Some (Ret True (c\<lparr>c_out := ws @ rest,
        c_sent := c_sent c @ take ?k (content b), c_obuf := Some b1\<rparr>, content b1 = []))"
      "sds_inv b1" "content b1 = drop ?k (content b)"
      using buffer_write [OF Cons.prems(1-4) False _ _ Cons.prems(8), of w "ws @ rest" strerr] Cons.prems(5,6) by auto
    define c1 where "c1 = c\<lparr>c_out := ws @ rest, c_sent := c_sent c @ take ?k (content b), c_obuf := Some b1\<rparr>"
    have step: "write_loop strerr e c = (if content b1 = [] then Some (Ret True c1) else write_loop strerr e c1)"
      using b1(1) by (simp add: write_loop.simps [of strerr e c] c1_def)
    show ?thesis
    proof (cases "content b1 = []")
      case True
      then have "take ?k (content b) = content b" using b1(3) by simp
      then show ?thesis using step True b1 by (intro exI [of _ b1] exI [of _ ws]) (simp add: c1_def)
    next
      case f: False
      have "\<exists>b' ws'. write_loop strerr e c1 =
          Some (Ret True (c1\<lparr>c_out := ws' @ rest, c_sent := c_sent c1 @ content b1, c_obuf := Some b'\<rparr>)) \<and>
          sds_inv b' \<and> content b' = []"
        using Cons.prems b1(2,3) by (intro Cons.IH) (simp_all add: c1_def)
      then obtain b' ws' where "write_loop strerr e c1 =
          Some (Ret True (c1\<lparr>c_out := ws' @ rest, c_sent := c_sent c1 @ content b1, c_obuf := Some b'\<rparr>))"
        "sds_inv b'" "content b' = []" by blast
      moreover have "c_sent c1 @ content b1 = c_sent c @ content b" using b1(3) by (simp add: c1_def)
      ultimately show ?thesis using step f by (intro exI [of _ b'] exI [of _ ws']) (simp add: c1_def)
    qed
  qed
qed

section \<open>Receiving\<close>

lemma rd_feed_Some: "rd_feed e r t = Some r' \<longleftrightarrow> redisReaderFeed e r t = Ret True r'"
  by (auto simp: rd_feed_def split: run.splits bool.splits)

lemma rd_ask_Some: "rd_ask r = Some x \<longleftrightarrow> redisReaderGetReply r = Some (Ret True x)"
  by (auto simp: rd_ask_def split: option.splits run.splits bool.splits)

lemma buffer_read:
  assumes "c_err c = 0" "c_reader c = Some r" "c_in c = x # xs" "good_read x" "redisReaderFeed e r (read_text x) = Ret True r'"
  shows "redisBufferRead strerr e c = Some (Ret True (c\<lparr>c_in := xs, c_reader := Some r'\<rparr>))"
proof (cases x)
  case (RBytes t)
  then show ?thesis using assms by (simp add: redisBufferRead_def)
next
  case (RErrno n)
  then have "r' = r" using assms by (simp add: redisReaderFeed_def split: if_splits)
  then have "c\<lparr>c_in := xs, c_reader := Some r'\<rparr> = c\<lparr>c_in := xs\<rparr>" using assms(2) by (cases c) simp
  then show ?thesis using assms RErrno by (simp add: redisBufferRead_def)
qed

text \<open>The reading loop feeds the reader piece by piece; an interrupted call feeds nothing.\<close>

lemma read_loop_pump:
  assumes "c_err c = 0" "c_reader c = Some r" "c_in c = xs @ rest" "list_all good_read xs"
    "incremental.pump (rd_feed \<lparr>can_alloc = (\<lambda>n. True), junk = j\<rparr>) rd_ask r (map read_text xs) = Some (r', x, ts)"
  shows "\<exists>xs'. read_loop strerr \<lparr>can_alloc = (\<lambda>n. True), junk = j\<rparr> c =
      Some (Ret True (c\<lparr>c_in := xs' @ rest, c_reader := Some r'\<rparr>, Some x)) \<and> ts = map read_text xs' \<and>
      list_all good_read xs'"
  using assms
proof (induction xs arbitrary: c r)
  case Nil
  then show ?case by (simp add: rd.pump.simps)
next
  case (Cons y ys)
  let ?e = "\<lparr>can_alloc = (\<lambda>n. True), junk = j\<rparr>"
  obtain r1 where r1: "redisReaderFeed ?e r (read_text y) = Ret True r1" "rd_feed ?e r (read_text y) = Some r1"
    using Cons.prems(5) by (auto simp: rd.pump.simps rd_feed_Some split: option.splits)
  obtain r2 p where r2: "redisReaderGetReply r1 = Some (Ret True (r2, p))" "rd_ask r1 = Some (r2, p)"
    using Cons.prems(5) r1(2) by (auto simp: rd.pump.simps rd_ask_Some split: option.splits)
  define c1 where "c1 = c\<lparr>c_in := ys @ rest, c_reader := Some r2\<rparr>"
  have read: "redisBufferRead strerr ?e c = Some (Ret True (c\<lparr>c_in := ys @ rest, c_reader := Some r1\<rparr>))"
    using Cons.prems r1(1) by (intro buffer_read) auto
  have loop: "read_loop strerr ?e c = (if p = None then read_loop strerr ?e c1 else Some (Ret True (c1, p)))"
    using read r2(1) by (simp add: read_loop.simps [of strerr ?e c] redisGetReplyFromReader_def c1_def)
  show ?case
  proof (cases p)
    case None
    have "\<exists>xs'. read_loop strerr ?e c1 = Some (Ret True (c1\<lparr>c_in := xs' @ rest, c_reader := Some r'\<rparr>, Some x)) \<and>
        ts = map read_text xs' \<and> list_all good_read xs'"
      using Cons.prems r1(2) r2(2) None by (intro Cons.IH [of _ r2]) (simp_all add: c1_def rd.pump.simps)
    then show ?thesis using loop None by (auto simp: c1_def)
  next
    case (Some q)
    then show ?thesis using Cons.prems(4,5) r1(2) r2(2) loop
      by (intro exI [of _ ys]) (simp add: rd.pump.simps c1_def)
  qed
qed

section \<open>One exchange\<close>

abbreviation rdr :: "redisContext \<Rightarrow> heap redisReader" where
  "rdr c \<equiv> the (c_reader c)"

abbreviation unread :: "redisContext \<Rightarrow> string" where
  "unread c \<equiv> pending (rdr c)"

abbreviation unsent :: "redisContext \<Rightarrow> string" where
  "unsent c \<equiv> content (the (c_obuf c))"

text \<open>A blocking connection between two replies.\<close>

definition conn_ok :: "redisContext \<Rightarrow> bool" where
  "conn_ok c \<longleftrightarrow> c_err c = 0 \<and> blocking c \<and> (\<exists>b. c_obuf c = Some b \<and> sds_inv b \<and> length (content b) < 1073741824) \<and>
     (\<exists>r. c_reader c = Some r \<and> quiet r)"

text \<open>The coming calls of \<^verbatim>\<open>write\<close> accept so many bytes.\<close>

definition accepts :: "redisContext \<Rightarrow> nat \<Rightarrow> bool" where
  "accepts c n \<longleftrightarrow> (\<exists>ws rest. c_out c = ws @ rest \<and> list_all good_write ws \<and> n \<le> sum_list (map write_count ws))"

abbreviation can_send :: "redisContext \<Rightarrow> bool" where
  "can_send c \<equiv> accepts c (length (unsent c))"

text \<open>The bytes not yet read and those of the coming calls of \<^verbatim>\<open>read\<close> are the given ones.\<close>

definition will_read :: "redisContext \<Rightarrow> string \<Rightarrow> bool" where
  "will_read c z \<longleftrightarrow> (\<exists>xs rest. c_in c = xs @ rest \<and> list_all good_read xs \<and> unread c @ stream xs = z)"

lemma env_form: "(\<And>n. can_alloc e n) \<Longrightarrow> e = \<lparr>can_alloc = (\<lambda>n. True), junk = junk e\<rparr>" for e :: menv
  by (cases e) auto

lemma get_reply_waits:
  assumes "rd_ok r" "rd_sem r [] = NeedMore"
  shows "\<exists>r'. redisReaderGetReply r = Some (Ret True (r', None)) \<and> rd_ok r' \<and> length (pending r') \<le> length (pending r) \<and>
    (\<forall>y. rd_sem r' y = rd_sem r y)"
  using rd_ask_more [OF assms] by (auto simp: rd_ask_Some)

lemma exchange:
  assumes c: "conn_ok c" "can_send c" "will_read c (encode v @ z)" "wf_reply 8 v" "\<And>n. can_alloc e n"
    "1024 + length (encode v @ z) < 1073741824"
  shows "\<exists>c'. redisGetReply strerr e c = Some (Ret True (c', Some (Addr (hcount (r_heap (rdr c)))))) \<and>
    conn_ok c' \<and> can_send c' \<and> will_read c' z \<and> has_read (rdr c) v (rdr c') \<and>
    c_sent c' @ unsent c' = c_sent c @ unsent c \<and> (length (unread c) < length (encode v) \<longrightarrow> unsent c' = [])"
proof -
  obtain b r where cb: "c_err c = 0" "blocking c" "c_obuf c = Some b" "sds_inv b" "length (content b) < 1073741824"
    "c_reader c = Some r" "quiet r" using c(1) by (auto simp: conn_ok_def)
  obtain xs rest where xs: "c_in c = xs @ rest" "list_all good_read xs" "pending r @ stream xs = encode v @ z"
    using c(3) cb(6) by (auto simp: will_read_def)
  show ?thesis
  proof (cases "length (pending r) < length (encode v)")
    case False
    define z' where "z' = drop (length (encode v)) (pending r)"
    have p: "pending r = encode v @ z'" "z' @ stream xs = z"
      using xs(3) False unfolding z'_def by (simp_all add: append_eq_append_conv_if split: if_splits)
        (metis append_take_drop_id)
    obtain r' where r': "redisReaderGetReply r = Some (Ret True (r', Some (Addr (hcount (r_heap r)))))"
      "quiet r'" "pending r' = z'" "has_read r v r'" using ask_quiet [OF cb(7) c(4) p(1)] by blast
    let ?c = "c\<lparr>c_reader := Some r'\<rparr>"
    have "redisGetReply strerr e c = Some (Ret True (?c, Some (Addr (hcount (r_heap r)))))"
      using r'(1) cb(6) by (simp add: redisGetReply_def redisGetReplyFromReader_def)
    moreover have "conn_ok ?c" "can_send ?c" using c(1,2) cb r'(2) by (auto simp: conn_ok_def accepts_def blocking_def)
    moreover have "will_read ?c z" using xs r'(3) p(2) by (auto simp: will_read_def)
    ultimately show ?thesis using r' cb False by (intro exI [of _ ?c]) simp
  next
    case True
    then have more: "rd_sem r [] = NeedMore" using reply_prefix [OF cb(7) c(4) xs(3)] by simp
    obtain r1 where r1: "redisReaderGetReply r = Some (Ret True (r1, None))" "rd_ok r1"
      "length (pending r1) \<le> length (pending r)" "\<forall>y. rd_sem r1 y = rd_sem r y"
      using get_reply_waits [OF _ more] cb(7) by (auto simp: quiet_def)
    obtain v' where v': "\<forall>y z. pending r @ y = encode v @ z \<longrightarrow> rd_sem r y = Got v' z"
      "r_reply v' = Some (Addr (hcount (r_heap r)))" "has_read r v v'" "\<forall>d r'. rd_ok r' \<longrightarrow> rd_idle v' d r' \<longrightarrow> quiet r'"
      using reply_got [OF cb(7) c(4)] by blast
    have got: "rd_sem r1 (concat (map read_text xs)) = Got v' z" using v'(1) r1(4) xs(3) by (simp add: stream_def)
    have size: "1024 + length (pending r1) + length (concat (map read_text xs)) < 1073741824"
      using c(6) r1(3) arg_cong [OF xs(3), of length] by (simp add: stream_def)
    have e: "e = \<lparr>can_alloc = (\<lambda>n. True), junk = junk e\<rparr>" using env_form c(5) by blast
    obtain r2 x ts d where r2: "incremental.pump (rd_feed e) rd_ask r1 (map read_text xs) = Some (r2, x, ts)"
      "r_reply v' = Some x" "rd_ok r2" "rd_idle v' d r2" "z = d @ concat ts"
      using rd.pump_got [OF r1(2) _ got size, where j = "junk e"] r1(4) more e by auto
    define c1 where "c1 = c\<lparr>c_reader := Some r1\<rparr>"
    have c1: "c_err c1 = 0" "c_obuf c1 = Some b" using cb by (simp_all add: c1_def)
    obtain ws wrest where ws: "c_out c1 = ws @ wrest" "list_all good_write ws" "length (content b) \<le> sum_list (map write_count ws)"
      using c(2) cb(3) by (auto simp: accepts_def c1_def)
    obtain b' ws' where w: "write_loop strerr e c1 = Some (Ret True
        (c1\<lparr>c_out := ws' @ wrest, c_sent := c_sent c1 @ content b, c_obuf := Some b'\<rparr>))" "sds_inv b'" "content b' = []"
      using write_loop_sends [OF c1 cb(4,5) ws c(5), of strerr] by blast
    define c2 where "c2 = c1\<lparr>c_out := ws' @ wrest, c_sent := c_sent c1 @ content b, c_obuf := Some b'\<rparr>"
    have c2: "c_err c2 = 0" "c_reader c2 = Some r1" "c_in c2 = xs @ rest" using c1 xs by (simp_all add: c2_def c1_def)
    obtain xs' where rl: "read_loop strerr e c2 = Some (Ret True (c2\<lparr>c_in := xs' @ rest, c_reader := Some r2\<rparr>, Some x))"
      "ts = map read_text xs'" "list_all good_read xs'"
      using read_loop_pump [OF c2 xs(2), of "junk e" r2 x ts strerr] r2(1) e by auto
    define c3 where "c3 = c2\<lparr>c_in := xs' @ rest, c_reader := Some r2\<rparr>"
    have "redisGetReply strerr e c = Some (Ret True (c3, Some x))"
      using r1(1) cb w(1) rl(1)
      by (simp add: redisGetReply_def redisGetReplyFromReader_def c1_def [symmetric] c2_def [symmetric] c3_def)
        (simp add: c1_def blocking_def)
    moreover have "conn_ok c3" using cb v'(4) r2(3,4) w(2,3) by (auto simp: conn_ok_def c3_def c2_def c1_def blocking_def)
    moreover have "can_send c3" unfolding accepts_def using w(3)
      by (intro exI [of _ "[]"] exI [of _ "c_out c3"]) (simp add: c3_def c2_def)
    moreover have "will_read c3 z" unfolding will_read_def using r2(4,5) rl
      by (intro exI [of _ xs'] exI [of _ rest]) (simp add: c3_def rd_idle_def stream_def)
    moreover have "has_read (rdr c) v (rdr c3)" using idle_read [OF r2(4) v'(3)] cb(6) by (simp add: c3_def)
    ultimately show ?thesis using r2(2) v'(2) cb w(3)
      by (intro exI [of _ c3]) (simp add: c3_def c2_def c1_def)
  qed
qed

section \<open>Pipelines\<close>

text \<open>Asking for a number of replies, one after the other.\<close>

primrec get_replies :: "(int \<Rightarrow> string) \<Rightarrow> menv \<Rightarrow> nat \<Rightarrow> redisContext \<Rightarrow> (redisContext \<times> obj list) option" where
  "get_replies strerr e 0 c = Some (c, [])"
| "get_replies strerr e (Suc n) c =
     (case redisGetReply strerr e c of
        Some (Ret True (c, Some p)) \<Rightarrow>
          (case get_replies strerr e n c of Some (c, ps) \<Rightarrow> Some (c, p # ps) | None \<Rightarrow> None)
      | _ \<Rightarrow> None)"

lemma pipeline:
  assumes "conn_ok c" "can_send c" "will_read c (concat (map encode vs) @ z)" "list_all (wf_reply 8) vs" "\<And>n. can_alloc e n"
    "1024 + length (concat (map encode vs) @ z) < 1073741824"
  shows "\<exists>c'. get_replies strerr e (length vs) c = Some (c', map Addr (addrs (hcount (r_heap (rdr c))) vs)) \<and>
    reps (objs (r_heap (rdr c'))) (hcount (r_heap (rdr c))) vs \<and>
    (\<forall>x < hcount (r_heap (rdr c)). objs (r_heap (rdr c')) x = objs (r_heap (rdr c)) x) \<and> will_read c' z"
  using assms
proof (induction vs arbitrary: c)
  case (Cons v vs)
  let ?a = "hcount (r_heap (rdr c))"
  obtain c1 where c1: "redisGetReply strerr e c = Some (Ret True (c1, Some (Addr ?a)))" "conn_ok c1" "can_send c1"
    "will_read c1 (concat (map encode vs) @ z)" "has_read (rdr c) v (rdr c1)"
    using exchange [OF Cons.prems(1,2), of v "concat (map encode vs) @ z" e strerr] Cons.prems(3-6) by auto
  obtain c2 where c2: "get_replies strerr e (length vs) c1 = Some (c2, map Addr (addrs (hcount (r_heap (rdr c1))) vs))"
    "reps (objs (r_heap (rdr c2))) (hcount (r_heap (rdr c1))) vs" "will_read c2 z"
    "\<forall>x < hcount (r_heap (rdr c1)). objs (r_heap (rdr c2)) x = objs (r_heap (rdr c1)) x"
    using Cons.IH [OF c1(2-4)] Cons.prems(4-6) by auto
  have h: "hcount (r_heap (rdr c1)) = ?a + cost v" using c1(5) by (simp add: has_read_def)
  have "rep (objs (r_heap (rdr c2))) ?a v = rep (objs (r_heap (rdr c1))) ?a v"
    using c2(4) h by (intro rep_cong(1)) simp
  then have "rep (objs (r_heap (rdr c2))) ?a v" using c1(5) by (simp add: has_read_def)
  moreover have "objs (r_heap (rdr c2)) x = objs (r_heap (rdr c)) x" if "x < ?a" for x
    using that c2(4) h c1(5) by (simp add: has_read_def)
  ultimately show ?case using c1(1) c2 h by simp
qed simp

text \<open>C18 Replies are not lost, mixed up or reordered: on a blocking connection whose socket delivers
  the encodings of a list of values, cut into reads of any sizes and interrupted any number of
  times, as many calls of \<^verbatim>\<open>redisGetReply\<close> return objects that represent exactly these values in
  this order, all of them present at the end, and what follows in the stream is still to be
  read.\<close>

theorem replies_in_order:
  assumes "conn_ok c" "can_send c" "will_read c (concat (map encode vs) @ z)" "list_all (wf_reply 8) vs" "\<And>n. can_alloc e n"
    "1024 + length (concat (map encode vs) @ z) < 1073741824"
  shows "\<exists>c'. get_replies strerr e (length vs) c = Some (c', map Addr (addrs (hcount (r_heap (rdr c))) vs)) \<and>
    reps (objs (r_heap (rdr c'))) (hcount (r_heap (rdr c))) vs \<and> will_read c' z"
  using pipeline [OF assms] by blast

text \<open>A new blocking connection over a given socket.\<close>

lemma new_connection:
  "\<exists>c. conn_ok c \<and> unread c = [] \<and> unsent c = [] \<and> c_in c = xs \<and> c_out c = ws \<and> c_sent c = [] \<and> hcount (r_heap (rdr c)) = 0"
proof -
  obtain r where r: "quiet r" "pending r = []" "hcount (r_heap r) = 0" using fed_reader [of "[]"] by auto
  obtain b where "sds_inv b" "content b = []" using sdsempty_ok [of "\<lparr>can_alloc = (\<lambda>n. True), junk = (\<lambda>n. NUL)\<rparr>"] by auto
  then show ?thesis using r
    by (intro exI [of _ "\<lparr>c_err = 0, c_errstr = [], c_flags = 1, c_obuf = Some b, c_reader = Some r, c_in = xs, c_out = ws,
      c_sent = []\<rparr>"]) (auto simp: conn_ok_def blocking_def)
qed

theorem replies_in_order_witness:
  "\<exists>c c'. c_in c = [RBytes ''+O'', RErrno 4, RBytes (''K'' @ [CR]), RBytes [LF, CHR '':''], RBytes (''-5'' @ CRLF @ ''+'')] \<and>
     get_replies (\<lambda>n. []) \<lparr>can_alloc = (\<lambda>n. True), junk = (\<lambda>n. NUL)\<rparr> 2 c = Some (c', [Addr 0, Addr 2]) \<and>
     reps (objs (r_heap (rdr c'))) 0 [RStatus ''OK'', RInteger (- 5)]"
proof -
  let ?xs = "[RBytes ''+O'', RErrno 4, RBytes (''K'' @ [CR]), RBytes [LF, CHR '':''], RBytes (''-5'' @ CRLF @ ''+'')]"
  let ?vs = "[RStatus ''OK'', RInteger (- 5)]" and ?e = "\<lparr>can_alloc = (\<lambda>n. True), junk = (\<lambda>n. NUL)\<rparr>"
  obtain c where c: "conn_ok c" "unread c = []" "unsent c = []" "c_in c = ?xs" "c_out c = []" "hcount (r_heap (rdr c)) = 0"
    using new_connection by blast
  have d: "dec_int (- 5) = ''-5''" by (simp add: dec_int_def dec.simps digit_numeral)
  have "will_read c (concat (map encode ?vs) @ ''+'')"
    unfolding will_read_def using c by (intro exI [of _ ?xs] exI [of _ "[]"]) (simp add: d)
  moreover have "can_send c" using c by (simp add: accepts_def)
  ultimately obtain c' where "get_replies (\<lambda>n. []) ?e (length ?vs) c = Some (c', map Addr (addrs (hcount (r_heap (rdr c))) ?vs))"
    "reps (objs (r_heap (rdr c'))) (hcount (r_heap (rdr c))) ?vs"
    using replies_in_order [OF c(1), of ?vs "''+''" ?e "\<lambda>n. []"] by (auto simp: d find_crlf.simps)
  then show ?thesis using c(4,6) by (intro exI [of _ c] exI [of _ c']) (simp add: numeral_2_eq_2)
qed

section \<open>A command and its reply\<close>

lemma encode_nonempty: "encode v \<noteq> []"
  by (cases v) (simp_all add: bulk_def)

lemma append_argv:
  assumes "conn_ok c" "args_bytes argv l = Some args" "\<And>n. can_alloc e n" "length (unsent c @ multibulk args) + 1 < 1073741824"
  shows "\<exists>b. redisAppendCommandArgv e c argv l = Ret True (c\<lparr>c_obuf := Some b\<rparr>) \<and> sds_inv b \<and>
    content b = unsent c @ multibulk args"
proof -
  obtain b where b: "c_obuf c = Some b" "sds_inv b" using assms(1) by (auto simp: conn_ok_def)
  have "redisFormatSdsCommandArgv e argv l = FOk (multibulk args) (int (length (multibulk args)))"
    using format_sds_argv [OF assms(3,2)] assms(4) by simp
  moreover obtain b' where "sdscatlen e b (multibulk args) = Ptr b'" "sds_inv b'" "content b' = content b @ multibulk args"
    using sdscatlen_ok [OF b(2) _ assms(3), of "multibulk args"] assms(4) b(1) by auto
  ultimately show ?thesis using b by (intro exI [of _ b']) (simp add: redisAppendCommandArgv_def appendCommand_def)
qed

text \<open>C19 A blocking command: after \<^verbatim>\<open>redisCommandArgv\<close> the socket has received everything that was
  buffered before, followed by the protocol encoding of the arguments, and nothing else, and
  the result represents the reply that the server sent.\<close>

theorem command_exchange:
  assumes "conn_ok c" "unread c = []" "args_bytes argv l = Some args" "\<And>n. can_alloc e n"
    "length (unsent c @ multibulk args) + 1 < 1073741824" "accepts c (length (unsent c @ multibulk args))"
    "will_read c (encode v @ z)" "wf_reply 8 v" "1024 + length (encode v @ z) < 1073741824"
  shows "\<exists>c' a. redisCommandArgv strerr e c argv l = Some (Ret True (c', Some (Addr a))) \<and>
    rep (objs (r_heap (rdr c'))) a v \<and> c_sent c' = c_sent c @ unsent c @ multibulk args \<and> conn_ok c' \<and> will_read c' z"
proof -
  obtain b where b: "redisAppendCommandArgv e c argv l = Ret True (c\<lparr>c_obuf := Some b\<rparr>)" "sds_inv b"
    "content b = unsent c @ multibulk args" using append_argv [OF assms(1,3,4,5)] by blast
  let ?c = "c\<lparr>c_obuf := Some b\<rparr>"
  have c: "conn_ok ?c" "can_send ?c" "will_read ?c (encode v @ z)" "blocking ?c"
    using assms(1,5,6,7) b by (auto simp: conn_ok_def accepts_def will_read_def blocking_def)
  obtain c' where c': "redisGetReply strerr e ?c = Some (Ret True (c', Some (Addr (hcount (r_heap (rdr c))))))" "conn_ok c'"
    "will_read c' z" "has_read (rdr c) v (rdr c')" "c_sent c' @ unsent c' = c_sent c @ content b" "unsent c' = []"
    using exchange [OF c(1-3) assms(8,4,9), of strerr] assms(2) encode_nonempty by auto
  have "redisCommandArgv strerr e c argv l = Some (Ret True (c', Some (Addr (hcount (r_heap (rdr c))))))"
    using b(1) c'(1) c(4) by (simp add: redisCommandArgv_def redisBlockForReply_def)
  then show ?thesis using c' b(3) by (auto simp: has_read_def)
qed

theorem command_exchange_witness:
  "\<exists>c c' a. c_out c = [WCount 7, WErrno 4, WCount 100] \<and>
     redisCommandArgv (\<lambda>n. []) \<lparr>can_alloc = (\<lambda>n. True), junk = (\<lambda>n. NUL)\<rparr> c [''GET'', ''k''] None =
       Some (Ret True (c', Some (Addr a))) \<and>
     rep (objs (r_heap (rdr c'))) a RNil \<and> c_sent c' = multibulk [''GET'', ''k'']"
proof -
  let ?e = "\<lparr>can_alloc = (\<lambda>n. True), junk = (\<lambda>n. NUL)\<rparr>" and ?x = "RBytes (''$-1'' @ CRLF)"
  obtain c where c: "conn_ok c" "unread c = []" "unsent c = []" "c_in c = [?x]" "c_out c = [WCount 7, WErrno 4, WCount 100]"
    "c_sent c = []" using new_connection [of "[?x]" "[WCount 7, WErrno 4, WCount 100]"] by blast
  have a: "args_bytes [''GET'', ''k''] None = Some [''GET'', ''k'']" by (simp add: cstr_def)
  have len: "length (multibulk [''GET'', ''k'']) = 20" by (simp add: multibulk_def bulk_def dec.simps)
  have "accepts c (length (unsent c @ multibulk [''GET'', ''k'']))"
    unfolding accepts_def using c len by (intro exI [of _ "c_out c"] exI [of _ "[]"]) simp
  moreover have "will_read c (encode RNil @ [])"
    unfolding will_read_def using c by (intro exI [of _ "[?x]"] exI [of _ "[]"]) simp
  ultimately obtain c' a where "redisCommandArgv (\<lambda>n. []) ?e c [''GET'', ''k''] None = Some (Ret True (c', Some (Addr a)))"
    "rep (objs (r_heap (rdr c'))) a RNil" "c_sent c' = c_sent c @ unsent c @ multibulk [''GET'', ''k'']"
    using command_exchange [OF c(1,2) a, of ?e RNil "[]" "\<lambda>n. []"] c(3) len by auto
  then show ?thesis using c by (intro exI [of _ c] exI [of _ c'] exI [of _ a]) simp
qed

section \<open>Broken connections\<close>

text \<open>Reads that do not complete a reply only move bytes from the socket to the reader.\<close>

lemma read_loop_more:
  assumes "c_err c = 0" "c_reader c = Some r" "rd_ok r" "c_in c = xs @ rest" "list_all good_read xs"
    "rd_sem r (stream xs) = NeedMore" "1024 + length (pending r) + length (stream xs) < 1073741824" "\<And>n. can_alloc e n"
  shows "\<exists>r'. read_loop strerr e c = read_loop strerr e (c\<lparr>c_in := rest, c_reader := Some r'\<rparr>)"
  using assms
proof (induction xs arbitrary: c r)
  case Nil
  then have "c\<lparr>c_in := rest, c_reader := Some r\<rparr> = c" by (cases c) simp
  then show ?case by metis
next
  case (Cons y ys)
  obtain r1 where r1: "redisReaderFeed e r (read_text y) = Ret True r1" "rd_ok r1" "pending r1 = pending r @ read_text y"
    "\<forall>y'. rd_sem r1 y' = rd_sem r (read_text y @ y')"
  proof -
    have "e = \<lparr>can_alloc = (\<lambda>n. True), junk = junk e\<rparr>" using env_form Cons.prems(8) by blast
    moreover have "1024 + length (pending r) + length (read_text y) < 1073741824" using Cons.prems(7) by simp
    ultimately show ?thesis
      using rd.feed_ok [OF Cons.prems(3), of "read_text y" "junk e"] that feed_refines [OF _ _ Cons.prems(8), of r "read_text y"]
        Cons.prems(3)
      by (auto simp: rd_feed_Some rd_ok_def)
  qed
  have "rd_sem r1 [] = NeedMore"
  proof (cases "rd_sem r1 []")
    case (Got v d)
    then show ?thesis using rd.sem_mono [OF Got, of "stream ys"] r1(4) Cons.prems(6) by simp
  next
    case Dead
    then show ?thesis using rd.sem_dead [OF Dead, of "stream ys"] r1(4) Cons.prems(6) by simp
  qed
  from get_reply_waits [OF r1(2) this] obtain r2 where r2: "redisReaderGetReply r1 = Some (Ret True (r2, None))" "rd_ok r2"
    "length (pending r2) \<le> length (pending r1)" "\<forall>y. rd_sem r2 y = rd_sem r1 y" by blast
  define c1 where "c1 = c\<lparr>c_in := ys @ rest, c_reader := Some r2\<rparr>"
  have read: "redisBufferRead strerr e c = Some (Ret True (c\<lparr>c_in := ys @ rest, c_reader := Some r1\<rparr>))"
    using Cons.prems r1(1) by (intro buffer_read) auto
  have loop: "read_loop strerr e c = read_loop strerr e c1"
    using read r2(1) by (simp add: read_loop.simps [of strerr e c] redisGetReplyFromReader_def c1_def)
  have "\<exists>r'. read_loop strerr e c1 = read_loop strerr e (c1\<lparr>c_in := rest, c_reader := Some r'\<rparr>)"
    using Cons.prems r1 r2 by (intro Cons.IH [of _ r2]) (auto simp: c1_def)
  then show ?case using loop by (simp add: c1_def)
qed

text \<open>How a call of \<^verbatim>\<open>read\<close> ends a blocking connection.\<close>

fun read_failure :: "(int \<Rightarrow> string) \<Rightarrow> rd_res \<Rightarrow> int \<times> string" where
  "read_failure strerr (RBytes t) = (REDIS_ERR_EOF, ''Server closed the connection'')"
| "read_failure strerr (RErrno n) =
     (if n = EAGAIN then (REDIS_ERR_TIMEOUT, ''Socket timeout'') else (REDIS_ERR_IO, strerr n))"

fun bad_read :: "rd_res \<Rightarrow> bool" where
  "bad_read (RBytes t) = (t = [])"
| "bad_read (RErrno n) = (n \<noteq> EINTR)"

lemma read_loop_fails:
  assumes "c_err c = 0" "blocking c" "c_in c = x # rest" "bad_read x"
  shows "read_loop strerr e c = Some (Ret False (redisSetError (c\<lparr>c_in := rest\<rparr>) (fst (read_failure strerr x))
    (snd (read_failure strerr x)), None))"
  using assms by (cases x) (auto simp: read_loop.simps [of strerr e c] redisBufferRead_def blocking_def)



end
