(* ===== verification/Dict.thy ===== *)
theory Dict
  imports Sds "HOL-Library.Word" "HOL-Library.While_Combinator" "HOL-Library.Multiset"
begin

unbundle bit_operations_syntax

text \<open>
  Model of the hash table of \<^verbatim>\<open>dict.c\<close>: chains of entries in a table whose size is a power of
  two, doubled when it is full.  A chain is a list of entries; the functions of the type
  record are parameters; the calls of the destructors are recorded in order.  An operation
  gives \<^term>\<open>None\<close> when it does not return and \<open>DBad\<close> when it accesses memory that is not
  there.
\<close>

section \<open>Data\<close>

record ('k, 'v) dictType =
  hashFunction :: "'k \<Rightarrow> 32 word"
  keyDup :: "('k \<Rightarrow> 'k) option"
  valDup :: "('v \<Rightarrow> 'v) option"
  keyCompare :: "('k \<Rightarrow> 'k \<Rightarrow> bool) option"
  keyDestructor :: bool
  valDestructor :: bool

datatype ('k, 'v) freed = FreedKey 'k | FreedVal 'v

record ('k, 'v) dict =
  table :: "('k \<times> 'v) list list option"
  dtype :: "('k, 'v) dictType"
  dsize :: nat
  sizemask :: nat
  used :: nat
  dlog :: "('k, 'v) freed list"

datatype 'd dres = DOk 'd | DErr 'd | DBad

abbreviation (input) "DICT_HT_INITIAL_SIZE \<equiv> 4 :: nat"
abbreviation (input) "LONG_MAX \<equiv> 9223372036854775807 :: nat"

definition u64 :: "nat \<Rightarrow> nat" where
  "u64 n = n mod 18446744073709551616"

text \<open>\<^verbatim>\<open>used--\<close> on an \<^verbatim>\<open>unsigned long\<close>.\<close>

definition decr :: "nat \<Rightarrow> nat" where
  "decr n = u64 (n + 18446744073709551615)"

fun dictGenHashFunction :: "string \<Rightarrow> 32 word \<Rightarrow> 32 word" where
  "dictGenHashFunction [] hash = hash"
| "dictGenHashFunction (c # s) hash = dictGenHashFunction s ((push_bit 5 hash + hash) + of_nat (ord c))"

definition dictCompareHashKeys :: "('k, 'v) dict \<Rightarrow> 'k \<Rightarrow> 'k \<Rightarrow> bool" where
  "dictCompareHashKeys ht k1 k2 = (case keyCompare (dtype ht) of Some f \<Rightarrow> f k1 k2 | None \<Rightarrow> k1 = k2)"

definition dup :: "('a \<Rightarrow> 'a) option \<Rightarrow> 'a \<Rightarrow> 'a" where
  "dup f x = (case f of Some g \<Rightarrow> g x | None \<Rightarrow> x)"

definition dictFreeEntryKey :: "'k \<Rightarrow> ('k, 'v) dict \<Rightarrow> ('k, 'v) dict" where
  "dictFreeEntryKey k ht = (if keyDestructor (dtype ht) then ht\<lparr>dlog := dlog ht @ [FreedKey k]\<rparr> else ht)"

definition dictFreeEntryVal :: "'v \<Rightarrow> ('k, 'v) dict \<Rightarrow> ('k, 'v) dict" where
  "dictFreeEntryVal v ht = (if valDestructor (dtype ht) then ht\<lparr>dlog := dlog ht @ [FreedVal v]\<rparr> else ht)"

section \<open>Operations\<close>

definition dictReset :: "('k, 'v) dict \<Rightarrow> ('k, 'v) dict" where
  "dictReset ht = ht\<lparr>table := None, dsize := 0, sizemask := 0, used := 0\<rparr>"

definition dictCreate :: "('k, 'v) dictType \<Rightarrow> ('k, 'v) dict" where
  "dictCreate ty = \<lparr>table = None, dtype = ty, dsize = 0, sizemask = 0, used = 0, dlog = []\<rparr>"

definition dictNextPower :: "nat \<Rightarrow> nat option" where
  "dictNextPower n =
     (if n \<ge> LONG_MAX then Some LONG_MAX
      else while_option (\<lambda>i. \<not> n \<le> i) (\<lambda>i. u64 (i * 2)) DICT_HT_INITIAL_SIZE)"

definition dictHash :: "('k, 'v) dict \<Rightarrow> nat \<Rightarrow> 'k \<Rightarrow> nat" where
  "dictHash ht m k = unat (hashFunction (dtype ht) k) AND m"

text \<open>Moving the entries of a chain, and of all chains, to the new table.\<close>

fun move_chain :: "('k \<Rightarrow> nat) \<Rightarrow> ('k \<times> 'v) list \<Rightarrow> ('k \<times> 'v) list list \<times> nat \<Rightarrow> (('k \<times> 'v) list list \<times> nat) option" where
  "move_chain h [] (t, n) = Some (t, n)"
| "move_chain h ((k, v) # c) (t, n) =
     (if h k < length t then move_chain h c (t[h k := (k, v) # t ! h k], decr n) else None)"

fun move_slots :: "('k \<Rightarrow> nat) \<Rightarrow> ('k \<times> 'v) list list \<Rightarrow> ('k \<times> 'v) list list \<times> nat \<Rightarrow> (('k \<times> 'v) list list \<times> nat) option" where
  "move_slots h [] (t, n) = Some (t, n)"
| "move_slots h (c # cs) (t, n) =
     (if n > 0 then (case move_chain h c (t, n) of None \<Rightarrow> None | Some tn \<Rightarrow> move_slots h cs tn) else Some (t, n))"

definition dictExpand :: "menv \<Rightarrow> ('k, 'v) dict \<Rightarrow> nat \<Rightarrow> ('k, 'v) dict dres option" where
  "dictExpand e ht n =
     (case dictNextPower n of
        None \<Rightarrow> None
      | Some realsize \<Rightarrow>
          Some (if used ht > n then DErr ht
                else
                  (let new = ht\<lparr>dsize := realsize, sizemask := realsize - 1,
                                table := (if can_alloc e (realsize * 8) then Some (replicate realsize []) else None)\<rparr>;
                       old = (case table ht of None \<Rightarrow> [] | Some t \<Rightarrow> t) in
                   case table new of
                     None \<Rightarrow> if used ht > 0 then DBad else DOk new
                   | Some t \<Rightarrow>
                       (case move_slots (dictHash ht (sizemask new)) old (t, used ht) of
                          None \<Rightarrow> DBad
                        | Some (t, left) \<Rightarrow> if left = 0 then DOk (new\<lparr>table := Some t\<rparr>) else DBad))))"

definition dictExpandIfNeeded :: "menv \<Rightarrow> ('k, 'v) dict \<Rightarrow> ('k, 'v) dict dres option" where
  "dictExpandIfNeeded e ht =
     (if dsize ht = 0 then dictExpand e ht DICT_HT_INITIAL_SIZE
      else if used ht = dsize ht then dictExpand e ht (u64 (dsize ht * 2))
      else Some (DOk ht))"

definition chain :: "('k, 'v) dict \<Rightarrow> nat \<Rightarrow> ('k \<times> 'v) list option" where
  "chain ht h = (case table ht of None \<Rightarrow> None | Some t \<Rightarrow> if h < length t then Some (t ! h) else None)"

fun find_entry :: "('k \<Rightarrow> bool) \<Rightarrow> ('k \<times> 'v) list \<Rightarrow> ('k \<times> 'v) option" where
  "find_entry p [] = None"
| "find_entry p (x # c) = (if p (fst x) then Some x else find_entry p c)"

text \<open>The index as an \<^verbatim>\<open>int\<close>; -1 for a key that is present or when the table cannot grow.\<close>

definition dictKeyIndex :: "menv \<Rightarrow> ('k, 'v) dict \<Rightarrow> 'k \<Rightarrow> (('k, 'v) dict \<times> int) dres option" where
  "dictKeyIndex e ht k =
     (case dictExpandIfNeeded e ht of
        None \<Rightarrow> None
      | Some DBad \<Rightarrow> Some DBad
      | Some (DErr ht) \<Rightarrow> Some (DOk (ht, - 1))
      | Some (DOk ht) \<Rightarrow>
          (let h = dictHash ht (sizemask ht) k in
           Some (case chain ht h of
                   None \<Rightarrow> DBad
                 | Some c \<Rightarrow>
                     (case find_entry (dictCompareHashKeys ht k) c of
                        Some x \<Rightarrow> DOk (ht, - 1)
                      | None \<Rightarrow> DOk (ht, c_int (int h))))))"

definition dictAdd :: "menv \<Rightarrow> ('k, 'v) dict \<Rightarrow> 'k \<Rightarrow> 'v \<Rightarrow> ('k, 'v) dict dres option" where
  "dictAdd e ht k v =
     (case dictKeyIndex e ht k of
        None \<Rightarrow> None
      | Some (DOk (ht, index)) \<Rightarrow>
          Some (if index = - 1 then DErr ht
                else if \<not> can_alloc e 24 then DBad
                else
                  (case table ht of
                     None \<Rightarrow> DBad
                   | Some t \<Rightarrow>
                       if 0 \<le> index \<and> nat index < length t then
                         DOk (ht\<lparr>table := Some (t[nat index :=
                                  (dup (keyDup (dtype ht)) k, dup (valDup (dtype ht)) v) # t ! nat index]),
                                used := u64 (used ht + 1)\<rparr>)
                       else DBad))
      | _ \<Rightarrow> Some DBad)"

definition dictFind :: "('k, 'v) dict \<Rightarrow> 'k \<Rightarrow> ('k \<times> 'v) option dres" where
  "dictFind ht k =
     (if dsize ht = 0 then DOk None
      else
        (case chain ht (dictHash ht (sizemask ht) k) of
           None \<Rightarrow> DBad
         | Some c \<Rightarrow> DOk (find_entry (dictCompareHashKeys ht k) c)))"

text \<open>The entry that \<^verbatim>\<open>dictFind\<close> returns gets a new value.\<close>

fun set_entry :: "('k \<Rightarrow> bool) \<Rightarrow> 'v \<Rightarrow> ('k \<times> 'v) list \<Rightarrow> ('k \<times> 'v) list" where
  "set_entry p v [] = []"
| "set_entry p v (x # c) = (if p (fst x) then (fst x, v) # c else x # set_entry p v c)"

definition dictReplace :: "menv \<Rightarrow> ('k, 'v) dict \<Rightarrow> 'k \<Rightarrow> 'v \<Rightarrow> ('k, 'v) dict dres option" where
  "dictReplace e ht k v =
     (case dictAdd e ht k v of
        None \<Rightarrow> None
      | Some DBad \<Rightarrow> Some DBad
      | Some (DOk ht) \<Rightarrow> Some (DOk ht)
      | Some (DErr ht) \<Rightarrow>
          Some (case (dictFind ht k, table ht) of
                  (DOk (Some (k', old)), Some t) \<Rightarrow>
                    (let h = dictHash ht (sizemask ht) k;
                         ht = ht\<lparr>table := Some (t[h := set_entry (dictCompareHashKeys ht k) (dup (valDup (dtype ht)) v) (t ! h)])\<rparr>
                     in DErr (dictFreeEntryVal old ht))
                | _ \<Rightarrow> DBad))"

fun cut_entry :: "('k \<Rightarrow> bool) \<Rightarrow> ('k \<times> 'v) list \<Rightarrow> ('k \<times> 'v) list" where
  "cut_entry p [] = []"
| "cut_entry p (x # c) = (if p (fst x) then c else x # cut_entry p c)"

definition dictDelete :: "('k, 'v) dict \<Rightarrow> 'k \<Rightarrow> ('k, 'v) dict dres" where
  "dictDelete ht k =
     (if dsize ht = 0 then DErr ht
      else
        (let h = dictHash ht (sizemask ht) k; p = dictCompareHashKeys ht k in
         case (chain ht h, table ht) of
           (Some c, Some t) \<Rightarrow>
             (case find_entry p c of
                None \<Rightarrow> DErr ht
              | Some (k', v) \<Rightarrow>
                  (let ht = ht\<lparr>table := Some (t[h := cut_entry p c])\<rparr>;
                       ht = dictFreeEntryVal v (dictFreeEntryKey k' ht) in
                   DOk (ht\<lparr>used := decr (used ht)\<rparr>)))
         | _ \<Rightarrow> DBad))"

fun clear_chain :: "('k \<times> 'v) list \<Rightarrow> ('k, 'v) dict \<Rightarrow> ('k, 'v) dict" where
  "clear_chain [] ht = ht"
| "clear_chain ((k, v) # c) ht =
     (let ht = dictFreeEntryVal v (dictFreeEntryKey k ht) in clear_chain c (ht\<lparr>used := decr (used ht)\<rparr>))"

fun clear_slots :: "('k \<times> 'v) list list \<Rightarrow> ('k, 'v) dict \<Rightarrow> ('k, 'v) dict" where
  "clear_slots [] ht = ht"
| "clear_slots (c # cs) ht = (if used ht > 0 then clear_slots cs (clear_chain c ht) else ht)"

text \<open>\<^verbatim>\<open>dictRelease\<close> clears the table and frees the record.\<close>

definition dictClear :: "('k, 'v) dict \<Rightarrow> ('k, 'v) dict" where
  "dictClear ht = dictReset (clear_slots (case table ht of None \<Rightarrow> [] | Some t \<Rightarrow> t) ht)"

section \<open>Iterators\<close>

text \<open>An entry pointer is the rest of its chain.\<close>

record ('k, 'v) dictIterator =
  it_index :: int
  it_entry :: "('k \<times> 'v) list"
  it_nextEntry :: "('k \<times> 'v) list"

definition dictGetIterator :: "('k, 'v) dictIterator" where
  "dictGetIterator = \<lparr>it_index = - 1, it_entry = [], it_nextEntry = []\<rparr>"

function dictNext :: "('k \<times> 'v) list list \<Rightarrow> ('k, 'v) dictIterator \<Rightarrow> ('k, 'v) dictIterator \<times> ('k \<times> 'v) option" where
  "dictNext t it =
     (if it_entry it = [] \<and> it_index it + 1 \<ge> int (length t) then (it\<lparr>it_index := it_index it + 1\<rparr>, None)
      else
        (let it = (if it_entry it = []
                   then it\<lparr>it_index := it_index it + 1, it_entry := t ! nat (it_index it + 1)\<rparr>
                   else it\<lparr>it_entry := it_nextEntry it\<rparr>) in
         case it_entry it of
           [] \<Rightarrow> dictNext t it
         | x # c \<Rightarrow> (it\<lparr>it_nextEntry := c\<rparr>, Some x)))"
  by pat_completeness auto
termination
  by (relation "measure (\<lambda>(t, it). nat (int (length t) - it_index it) * 2 + (if it_entry it = [] then 0 else 1))")
    (auto split: if_splits)

section \<open>Sizes and hashes\<close>

lemma next_power:
  assumes "n < LONG_MAX"
  shows "\<exists>k. dictNextPower n = Some (2 ^ k) \<and> 2 \<le> k \<and> n \<le> 2 ^ k \<and> (k = 2 \<or> 2 ^ k < 2 * n)"
proof -
  let ?P = "\<lambda>i. \<exists>k. i = 2 ^ k \<and> 2 \<le> k \<and> (k = 2 \<or> i < 2 * n) \<and> i < (18446744073709551616 :: nat)"
  have step: "?P (u64 (i * 2)) \<and> 18446744073709551616 - u64 (i * 2) < 18446744073709551616 - i" if P: "?P i" and b: "\<not> n \<le> i" for i
  proof -
    obtain k where k: "i = 2 ^ k" "2 \<le> k" using P by blast
    have lt: "i * 2 < 2 * n" "i * 2 < 18446744073709551616" using b assms by simp_all
    then have u: "u64 (i * 2) = i * 2" by (simp add: u64_def)
    have "i > 0" using k by simp
    moreover have "i * 2 = 2 ^ Suc k" using k by simp
    moreover have "18446744073709551616 - i * 2 < 18446744073709551616 - i" using \<open>i > 0\<close> lt(2) by linarith
    ultimately show ?thesis using k lt u by (intro conjI exI [of _ "Suc k"]) auto
  qed
  have "?P 4" by (intro exI [of _ 2]) simp
  then obtain i where i: "while_option (\<lambda>i. \<not> n \<le> i) (\<lambda>i. u64 (i * 2)) 4 = Some i"
    using measure_while_option_Some [where P = ?P and b = "\<lambda>i. \<not> n \<le> i" and c = "\<lambda>i. u64 (i * 2)"
        and f = "\<lambda>i. 18446744073709551616 - i"] step by blast
  have "?P i" by (rule while_option_rule [OF _ i]) (use step \<open>?P 4\<close> in blast)+
  moreover have "n \<le> i" using while_option_stop [OF i] by simp
  ultimately show ?thesis using i assms by (auto simp: dictNextPower_def)
qed

lemma next_power_exact: "2 \<le> k \<Longrightarrow> k < 63 \<Longrightarrow> dictNextPower (2 ^ k) = Some (2 ^ k)"
proof -
  assume k: "2 \<le> k" "k < 63"
  have "(2 :: nat) ^ k \<le> 2 ^ 62" using k(2) by (intro power_increasing) simp_all
  then have "(2 :: nat) ^ k < LONG_MAX" by simp
  from next_power [OF this] obtain m where m: "dictNextPower (2 ^ k) = Some (2 ^ m)" "2 \<le> m" "(2 :: nat) ^ k \<le> 2 ^ m"
    "m = 2 \<or> (2 :: nat) ^ m < 2 * 2 ^ k" by blast
  have "k \<le> m" using m(3) by simp
  moreover have "m = 2 \<or> m < Suc k" using m(4) by (metis power_Suc power_strict_increasing_iff one_less_numeral_iff semiring_norm(76))
  ultimately show ?thesis using m(1) k(1) by (auto simp: le_less_Suc_eq dest: le_antisym)
qed

lemma dictHash_less: "m = 2 ^ k - 1 \<Longrightarrow> dictHash ht m x < 2 ^ k"
proof -
  assume m: "m = 2 ^ k - 1"
  have "unat (hashFunction (dtype ht) x) AND m = take_bit k (unat (hashFunction (dtype ht) x))"
    by (simp only: m take_bit_eq_mask mask_eq_exp_minus_1)
  then show ?thesis by (simp add: dictHash_def)
qed

section \<open>Tables\<close>

text \<open>Every entry is in the chain of its hash, and no key occurs twice in a chain.\<close>

definition hashed :: "('k \<Rightarrow> nat) \<Rightarrow> ('k \<times> 'v) list list \<Rightarrow> bool" where
  "hashed h t \<longleftrightarrow> (\<forall>i < length t. distinct (map fst (t ! i)) \<and> (\<forall>x \<in> set (t ! i). h (fst x) = i))"

lemma map_of_concat_other:
  assumes "\<forall>i < length t. \<forall>x \<in> set (t ! i). fst x \<noteq> k"
  shows "map_of (concat t) k = None"
proof -
  have "fst x \<noteq> k" if "c \<in> set t" "x \<in> set c" for x c using assms that by (metis in_set_conv_nth)
  then show ?thesis by (auto simp: map_of_eq_None_iff)
qed

lemma hashed_lookup:
  assumes "hashed h t" "h k < length t"
  shows "map_of (concat t) k = map_of (t ! h k) k"
proof -
  let ?i = "h k"
  have t: "t = take ?i t @ t ! ?i # drop (Suc ?i) t" using assms(2) by (rule id_take_nth_drop)
  have other: "fst x \<noteq> k" if "j < length t" "j \<noteq> ?i" "x \<in> set (t ! j)" for j x
    using assms(1) that by (auto simp: hashed_def)
  have "map_of (concat (take ?i t)) k = None"
    by (rule map_of_concat_other) (use assms(2) in \<open>auto dest: other [rotated 2]\<close>)
  moreover have "map_of (concat (drop (Suc ?i) t)) k = None"
    by (rule map_of_concat_other) (auto dest: other [rotated 2])
  moreover have "map_of (concat t) = map_of (concat (take ?i t @ t ! ?i # drop (Suc ?i) t))" by (metis t)
  ultimately show ?thesis by (simp add: map_add_def split: option.splits)
qed

lemma length_concat_update:
  "i < length t \<Longrightarrow> length (concat (t[i := c])) + length (t ! i) = length (concat t) + length c"
  by (induction t arbitrary: i) (auto split: nat.splits)

lemma move_chain_spec:
  assumes "\<forall>x \<in> set c. h (fst x) < length t" "length c \<le> n" "n < 18446744073709551616"
  shows "\<exists>t'. move_chain h c (t, n) = Some (t', n - length c) \<and> length t' = length t \<and>
    length (concat t') = length (concat t) + length c \<and>
    (\<forall>i < length t. t' ! i = rev (filter (\<lambda>x. h (fst x) = i) c) @ t ! i)"
  using assms
proof (induction h c "(t, n)" arbitrary: t n rule: move_chain.induct)
  case (2 h k v c t n)
  have d: "decr n = n - 1" using 2(3,4) by (cases n) (simp_all add: decr_def u64_def)
  have "\<exists>t'. move_chain h c (t[h k := (k, v) # t ! h k], decr n) = Some (t', decr n - length c) \<and>
      length t' = length t \<and> length (concat t') = length (concat t) + Suc (length c) \<and>
      (\<forall>i < length t. t' ! i = rev (filter (\<lambda>x. h (fst x) = i) c) @ t[h k := (k, v) # t ! h k] ! i)"
    using 2(1) 2(2-4) d length_concat_update [of "h k" t "(k, v) # t ! h k"] by simp
  then show ?case using 2(2) d by (fastforce simp: nth_list_update)
qed simp

lemma move_slots_spec:
  assumes "\<forall>x \<in> set (concat cs). h (fst x) < length t" "n = length (concat cs)" "n < 18446744073709551616"
  shows "\<exists>t'. move_slots h cs (t, n) = Some (t', 0) \<and> length t' = length t \<and>
    length (concat t') = length (concat t) + length (concat cs) \<and>
    (\<forall>i < length t. t' ! i = rev (filter (\<lambda>x. h (fst x) = i) (concat cs)) @ t ! i)"
  using assms
proof (induction cs arbitrary: t n)
  case (Cons c cs)
  show ?case
  proof (cases "n = 0")
    case True
    then have "concat (c # cs) = []" using Cons.prems(2) by (metis length_0_conv)
    then show ?thesis using True by (simp del: concat_eq_Nil_conv)
  next
    case False
    obtain t1 where t1: "move_chain h c (t, n) = Some (t1, n - length c)" "length t1 = length t"
      "length (concat t1) = length (concat t) + length c" "\<forall>i < length t. t1 ! i = rev (filter (\<lambda>x. h (fst x) = i) c) @ t ! i"
      using move_chain_spec [of c h t n] Cons.prems by auto
    obtain t2 where "move_slots h cs (t1, n - length c) = Some (t2, 0)" "length t2 = length t1"
      "length (concat t2) = length (concat t1) + length (concat cs)" "\<forall>i < length t1. t2 ! i = rev (filter (\<lambda>x. h (fst x) = i) (concat cs)) @ t1 ! i"
      using Cons.IH [of t1 "n - length c"] Cons.prems t1(2) by auto
    then show ?thesis using t1 False by (simp add: add.assoc)
  qed
qed simp

section \<open>The invariant and the abstraction\<close>

text \<open>Keys are compared by equality and the copies made of keys and values are equal to them.\<close>

definition plain :: "('k, 'v) dictType \<Rightarrow> bool" where
  "plain ty \<longleftrightarrow> (\<forall>f. keyCompare ty = Some f \<longrightarrow> f = (=)) \<and> (\<forall>k. dup (keyDup ty) k = k) \<and> (\<forall>v. dup (valDup ty) v = v)"

abbreviation chains :: "('k, 'v) dict \<Rightarrow> ('k \<times> 'v) list list" where
  "chains ht \<equiv> (case table ht of None \<Rightarrow> [] | Some t \<Rightarrow> t)"

definition dict_abs :: "('k, 'v) dict \<Rightarrow> 'k \<rightharpoonup> 'v" where
  "dict_abs ht = map_of (concat (chains ht))"

definition table_ok :: "('k, 'v) dict \<Rightarrow> bool" where
  "table_ok ht \<longleftrightarrow> (\<exists>t k. table ht = Some t \<and> length t = 2 ^ k \<and> 2 \<le> k \<and> k \<le> 31 \<and> dsize ht = 2 ^ k \<and>
     sizemask ht = 2 ^ k - 1 \<and> used ht = length (concat t) \<and> used ht \<le> dsize ht \<and>
     hashed (dictHash ht (sizemask ht)) t)"

definition dict_inv :: "('k, 'v) dict \<Rightarrow> bool" where
  "dict_inv ht \<longleftrightarrow> plain (dtype ht) \<and>
     (table ht = None \<and> dsize ht = 0 \<and> sizemask ht = 0 \<and> used ht = 0 \<or> table_ok ht)"

lemma compare_plain: "plain (dtype ht) \<Longrightarrow> dictCompareHashKeys ht k = (\<lambda>k'. k = k')"
  by (auto simp: plain_def dictCompareHashKeys_def fun_eq_iff split: option.splits)

lemma find_entry_eq: "find_entry (\<lambda>k'. k = k') c = map_option (Pair k) (map_of c k)"
  by (induction c) auto

lemma hashed_distinct:
  assumes "\<forall>i < length t. distinct (map fst (t ! i)) \<and> (\<forall>x \<in> set (t ! i). h (fst x) = i + n)"
  shows "distinct (map fst (concat t))"
  using assms
proof (induction t arbitrary: n)
  case (Cons c t)
  have "\<forall>i < length t. distinct (map fst (t ! i)) \<and> (\<forall>x \<in> set (t ! i). h (fst x) = i + Suc n)"
    using Cons.prems by (metis Suc_mono add_Suc_shift length_Cons nth_Cons_Suc)
  then have t: "distinct (map fst (concat t))" "\<forall>x \<in> set (concat t). Suc n \<le> h (fst x)"
    using Cons.IH by (fastforce simp: set_conv_nth [of t])+
  have c: "distinct (map fst c)" "\<forall>x \<in> set c. h (fst x) = n" using Cons.prems by (metis add_0 length_greater_0_conv list.distinct(1) nth_Cons_0)+
  have "fst ` set c \<inter> fst ` set (concat t) = {}"
  proof -
    have False if "x \<in> set c" "y \<in> set (concat t)" "fst x = fst y" for x y
      using that c(2) t(2) by (metis not_less_eq_eq order_refl)
    then show ?thesis by blast
  qed
  then show ?case using t(1) c(1) by (simp add: image_UN)
qed simp

lemma map_of_same:
  assumes "distinct (map fst xs)" "distinct (map fst ys)" "\<And>v. (k, v) \<in> set xs \<longleftrightarrow> (k, v) \<in> set ys"
  shows "map_of xs k = map_of ys k"
  using assms by (cases "map_of xs k"; cases "map_of ys k") (auto dest: map_of_SomeD weak_map_of_SomeI)

lemma rehash:
  fixes t :: "('k \<times> 'v) list list"
  assumes "hashed h t" "\<forall>k. g k < n" "length t' = n"
    "\<forall>i < n. t' ! i = rev (filter (\<lambda>x. g (fst x) = i) (concat t))"
  shows "hashed g t'" "map_of (concat t') = map_of (concat t)"
proof -
  have d: "distinct (map fst (concat t))" using hashed_distinct [of t h 0] assms(1) by (simp add: hashed_def)
  have di: "distinct (map fst (t' ! i))" if "i < n" for i
    using assms(4) that d by (simp add: distinct_map_filter rev_map [symmetric] del: map_concat)
  then show g: "hashed g t'" using assms(3,4) by (auto simp: hashed_def)
  show "map_of (concat t') = map_of (concat t)"
  proof
    fix k
    have "map_of (concat t') k = map_of (t' ! g k) k" using hashed_lookup [OF g, of k] assms(2,3) by simp
    also have "\<dots> = map_of (concat t) k"
      by (rule map_of_same) (use di d assms(2,4) in auto)
    finally show "map_of (concat t') k = map_of (concat t) k" .
  qed
qed

section \<open>Growing\<close>

lemma expand:
  assumes "dict_inv ht" "\<And>n. can_alloc e n" "2 \<le> k" "k \<le> 31" "used ht \<le> 2 ^ k"
  shows "\<exists>t. dictExpand e ht (2 ^ k) = Some (DOk (ht\<lparr>dsize := 2 ^ k, sizemask := 2 ^ k - 1, table := Some t\<rparr>)) \<and>
    length t = 2 ^ k \<and> length (concat t) = used ht \<and> hashed (dictHash ht (2 ^ k - 1)) t \<and>
    map_of (concat t) = dict_abs ht"
proof -
  let ?n = "(2 :: nat) ^ k" and ?g = "dictHash ht (2 ^ k - 1)"
  have u: "used ht = length (concat (chains ht))" using assms(1) by (auto simp: dict_inv_def table_ok_def)
  have hd: "hashed (dictHash ht (sizemask ht)) (chains ht)"
    using assms(1) by (auto simp: dict_inv_def table_ok_def hashed_def [of _ "[]"])
  have g: "\<forall>k. ?g k < ?n" using dictHash_less [of "2 ^ k - 1" k ht] by simp
  have "?n \<le> 2 ^ 31" using assms(4) by (intro power_increasing) simp_all
  then have "used ht < 18446744073709551616" using assms(5) by simp
  then obtain t where t: "move_slots ?g (chains ht) (replicate ?n [], used ht) = Some (t, 0)" "length t = ?n"
    "length (concat t) = used ht" "\<forall>i < ?n. t ! i = rev (filter (\<lambda>x. ?g (fst x) = i) (concat (chains ht)))"
    using move_slots_spec [of "chains ht" ?g "replicate ?n []" "used ht"] u g by (auto simp: concat_replicate_trivial)
  have "dictNextPower ?n = Some ?n" using next_power_exact assms(3,4) by simp
  then have "dictExpand e ht ?n = Some (DOk (ht\<lparr>dsize := ?n, sizemask := ?n - 1, table := Some t\<rparr>))"
    using t(1) assms(2,5) by (simp add: dictExpand_def Let_def)
  then show ?thesis using t rehash [OF hd g t(2,4)] by (auto simp: dict_abs_def)
qed

lemma expand_if_needed:
  assumes "dict_inv ht" "\<And>n. can_alloc e n" "used ht < 2147483648"
  shows "\<exists>ht'. dictExpandIfNeeded e ht = Some (DOk ht') \<and> table_ok ht' \<and> used ht' < dsize ht' \<and>
    dict_abs ht' = dict_abs ht \<and> used ht' = used ht \<and> dlog ht' = dlog ht \<and> dtype ht' = dtype ht"
proof -
  have grow: "\<exists>ht'. dictExpand e ht (2 ^ k) = Some (DOk ht') \<and> table_ok ht' \<and> used ht' < dsize ht' \<and>
    dict_abs ht' = dict_abs ht \<and> used ht' = used ht \<and> dlog ht' = dlog ht \<and> dtype ht' = dtype ht"
    if k: "2 \<le> k" "k \<le> 31" "used ht < 2 ^ k" for k
  proof -
    obtain t where t: "dictExpand e ht (2 ^ k) = Some (DOk (ht\<lparr>dsize := 2 ^ k, sizemask := 2 ^ k - 1, table := Some t\<rparr>))"
      "length t = 2 ^ k" "length (concat t) = used ht" "hashed (dictHash ht (2 ^ k - 1)) t" "map_of (concat t) = dict_abs ht"
      using expand [OF assms(1,2) k(1,2)] k(3) by auto
    let ?ht = "ht\<lparr>dsize := 2 ^ k, sizemask := 2 ^ k - 1, table := Some t\<rparr>"
    have "dictHash ?ht m = dictHash ht m" for m by (simp add: dictHash_def fun_eq_iff)
    then have "table_ok ?ht" unfolding table_ok_def using t k by (intro exI [of _ t] exI [of _ k]) simp
    then show ?thesis using t k(3) by (intro exI [of _ ?ht]) (simp add: dict_abs_def)
  qed
  consider (new) "dsize ht = 0" "used ht = 0" | (full) "table_ok ht" "used ht = dsize ht" | (fits) "table_ok ht" "used ht \<noteq> dsize ht"
    using assms(1) by (auto simp: dict_inv_def)
  then show ?thesis
  proof cases
    case new
    then show ?thesis using grow [of 2] by (simp add: dictExpandIfNeeded_def)
  next
    case full
    then obtain k where k: "dsize ht = 2 ^ k" "2 \<le> k" by (auto simp: table_ok_def)
    have "(2 :: nat) ^ k < 2 ^ 31" using assms(3) full(2) k(1) by simp
    then have "k < 31" by (simp only: power_strict_increasing_iff one_less_numeral_iff semiring_norm(76))
    moreover have "u64 (dsize ht * 2) = 2 ^ Suc k" using \<open>(2 :: nat) ^ k < 2 ^ 31\<close> k(1) by (simp add: u64_def)
    ultimately show ?thesis using grow [of "Suc k"] full(2) k by (simp add: dictExpandIfNeeded_def)
  next
    case fits
    then have "dsize ht \<noteq> 0" "used ht < dsize ht" by (auto simp: table_ok_def)
    then show ?thesis using fits by (simp add: dictExpandIfNeeded_def)
  qed
qed

section \<open>Operations on the invariant\<close>

lemma table_okE:
  assumes "table_ok ht"
  obtains t k where "table ht = Some t" "length t = 2 ^ k" "2 \<le> k" "k \<le> 31" "dsize ht = 2 ^ k" "sizemask ht = 2 ^ k - 1"
    "used ht = length (concat t)" "used ht \<le> dsize ht" "hashed (dictHash ht (sizemask ht)) t"
    "\<And>x. dictHash ht (sizemask ht) x < length t" "length t \<le> 2147483648"
proof -
  obtain t k where t: "table ht = Some t" "length t = 2 ^ k" "2 \<le> k" "k \<le> 31" "dsize ht = 2 ^ k" "sizemask ht = 2 ^ k - 1"
    "used ht = length (concat t)" "used ht \<le> dsize ht" "hashed (dictHash ht (sizemask ht)) t"
    using assms by (auto simp: table_ok_def)
  have "(2 :: nat) ^ k \<le> 2 ^ 31" using t(4) by (intro power_increasing) simp_all
  then show ?thesis using that [OF t] dictHash_less [OF t(6), of ht] t(2) by simp
qed

text \<open>Changing one chain of a table.\<close>

lemma update_chain:
  assumes "hashed h t" "\<forall>x. h x < length t" "distinct (map fst c)" "\<forall>x \<in> set c. h (fst x) = h k"
  shows "hashed h (t[h k := c])"
    "map_of (concat (t[h k := c])) k' = (if h k' = h k then map_of c k' else map_of (concat t) k')"
proof -
  show *: "hashed h (t[h k := c])" using assms by (auto simp: hashed_def nth_list_update)
  show "map_of (concat (t[h k := c])) k' = (if h k' = h k then map_of c k' else map_of (concat t) k')"
    using hashed_lookup [OF *, of k'] hashed_lookup [OF assms(1), of k'] assms(2) by simp
qed

text \<open>A table in which the chain of a key has been changed.\<close>

lemma table_ok_update:
  assumes ok: "table_ok ht" "table ht = Some t"
    and c: "distinct (map fst c)" "\<forall>x \<in> set c. dictHash ht (sizemask ht) (fst x) = dictHash ht (sizemask ht) k"
    and n: "n + length (t ! dictHash ht (sizemask ht) k) = used ht + length c" "n \<le> dsize ht"
    and same: "dtype ht' = dtype ht" "dsize ht' = dsize ht" "sizemask ht' = sizemask ht" "used ht' = n"
      "table ht' = Some (t[dictHash ht (sizemask ht) k := c])"
  shows "table_ok ht'"
    "dict_abs ht' k' = (if dictHash ht (sizemask ht) k' = dictHash ht (sizemask ht) k then map_of c k' else dict_abs ht k')"
proof -
  let ?h = "dictHash ht (sizemask ht)"
  obtain m where m: "length t = 2 ^ m" "2 \<le> m" "m \<le> 31" "dsize ht = 2 ^ m" "sizemask ht = 2 ^ m - 1"
    "used ht = length (concat t)" "hashed ?h t" "\<And>x. ?h x < length t"
    using ok by (elim table_okE) auto
  have h: "dictHash ht' x = dictHash ht x" for x using same by (simp add: dictHash_def fun_eq_iff)
  have "length (concat (t[?h k := c])) = n" using length_concat_update [of "?h k" t c] m(6,8) n(1) by simp
  then show "table_ok ht'" unfolding table_ok_def h same
    using m update_chain(1) [OF m(7) _ c] n(2) by (intro exI [of _ "t[?h k := c]"] exI [of _ m]) simp
  show "dict_abs ht' k' = (if ?h k' = ?h k then map_of c k' else dict_abs ht k')"
    using update_chain(2) [OF m(7) _ c] m(8) ok(2) same(5) by (simp add: dict_abs_def)
qed

lemma abs_lookup:
  assumes "table_ok ht" "table ht = Some t"
  shows "dict_abs ht k = map_of (t ! dictHash ht (sizemask ht) k) k"
proof -
  have "hashed (dictHash ht (sizemask ht)) t" "dictHash ht (sizemask ht) k < length t"
    using assms by (auto elim!: table_okE)
  then show ?thesis using assms(2) hashed_lookup by (simp add: dict_abs_def)
qed

lemma key_index:
  assumes "dict_inv ht" "\<And>n. can_alloc e n" "used ht < 2147483648"
  shows "\<exists>ht'. dictKeyIndex e ht k = Some (DOk (ht', if dict_abs ht k = None then int (dictHash ht' (sizemask ht') k) else - 1)) \<and>
    table_ok ht' \<and> used ht' < dsize ht' \<and> dict_abs ht' = dict_abs ht \<and> used ht' = used ht \<and> dlog ht' = dlog ht \<and> dtype ht' = dtype ht"
proof -
  obtain ht' where ht': "dictExpandIfNeeded e ht = Some (DOk ht')" "table_ok ht'" "used ht' < dsize ht'" "dict_abs ht' = dict_abs ht"
    "used ht' = used ht" "dlog ht' = dlog ht" "dtype ht' = dtype ht" using expand_if_needed [OF assms] by blast
  let ?h = "dictHash ht' (sizemask ht') k"
  obtain t where t: "table ht' = Some t" "?h < length t" "length t \<le> 2147483648" using ht'(2) by (elim table_okE) auto
  have "plain (dtype ht')" using assms(1) ht'(7) by (simp add: dict_inv_def)
  moreover have "c_int (int ?h) = int ?h" using t(2,3) by (intro c_int_id) simp_all
  ultimately have "dictKeyIndex e ht k = Some (DOk (ht', if dict_abs ht k = None then int ?h else - 1))"
    using ht'(1) t abs_lookup [OF ht'(2) t(1), of k] ht'(4)
    by (auto simp: dictKeyIndex_def chain_def compare_plain find_entry_eq Let_def)
  then show ?thesis using ht' by blast
qed

lemma add_present:
  assumes "dict_inv ht" "\<And>n. can_alloc e n" "used ht < 2147483648" "dict_abs ht k = Some w"
  shows "\<exists>ht'. dictAdd e ht k v = Some (DErr ht') \<and> table_ok ht' \<and> dict_abs ht' = dict_abs ht \<and> used ht' = used ht \<and>
    dlog ht' = dlog ht \<and> dtype ht' = dtype ht"
  using key_index [OF assms(1-3), of k] assms(4) by (auto simp: dictAdd_def)

lemma add_absent:
  assumes "dict_inv ht" "\<And>n. can_alloc e n" "used ht < 2147483648" "dict_abs ht k = None"
  shows "\<exists>ht'. dictAdd e ht k v = Some (DOk ht') \<and> table_ok ht' \<and> dict_abs ht' = (dict_abs ht)(k \<mapsto> v) \<and>
    used ht' = used ht + 1 \<and> dlog ht' = dlog ht \<and> dtype ht' = dtype ht"
proof -
  obtain h1 where h1: "dictKeyIndex e ht k = Some (DOk (h1, int (dictHash h1 (sizemask h1) k)))" "table_ok h1"
    "used h1 < dsize h1" "dict_abs h1 = dict_abs ht" "used h1 = used ht" "dlog h1 = dlog ht" "dtype h1 = dtype ht"
    using key_index [OF assms(1-3), of k] assms(4) by auto
  let ?h = "dictHash h1 (sizemask h1)"
  obtain t where t: "table h1 = Some t" "?h k < length t" "hashed ?h t" using h1(2) by (elim table_okE) auto
  have ty: "dup (keyDup (dtype h1)) k = k" "dup (valDup (dtype h1)) v = v"
    using assms(1) h1(7) by (auto simp: dict_inv_def plain_def)
  define ht' where "ht' = h1\<lparr>table := Some (t[?h k := (k, v) # t ! ?h k]), used := used h1 + 1\<rparr>"
  have "u64 (used h1 + 1) = used h1 + 1" using assms(3) h1(5) by (simp add: u64_def)
  then have add: "dictAdd e ht k v = Some (DOk ht')" using h1(1) t(1,2) assms(2) ty by (simp add: dictAdd_def ht'_def)
  have kn: "map_of (t ! ?h k) k = None" using abs_lookup [OF h1(2) t(1), of k] h1(4) assms(4) by simp
  have "distinct (map fst ((k, v) # t ! ?h k))" "\<forall>x \<in> set ((k, v) # t ! ?h k). ?h (fst x) = ?h k"
    using t(2,3) kn by (auto simp: hashed_def map_of_eq_None_iff)
  note upd = table_ok_update [OF h1(2) t(1) this, of "used h1 + 1" ht']
  have "table_ok ht'" using upd(1) h1(3) by (simp add: ht'_def)
  moreover have "dict_abs ht' = (dict_abs ht)(k \<mapsto> v)"
  proof
    fix k'
    have "dict_abs ht' k' = (if ?h k' = ?h k then map_of ((k, v) # t ! ?h k) k' else dict_abs h1 k')"
      using upd(2) [of k'] h1(3) by (simp add: ht'_def)
    then show "dict_abs ht' k' = ((dict_abs ht)(k \<mapsto> v)) k'" using abs_lookup [OF h1(2) t(1), of k'] h1(4) by auto
  qed
  ultimately show ?thesis using add h1 by (simp add: ht'_def)
qed

lemma find_refines:
  assumes "dict_inv ht"
  shows "dictFind ht k = DOk (map_option (Pair k) (dict_abs ht k))"
proof (cases "dsize ht = 0")
  case True
  then have "table ht = None" using assms by (auto simp: dict_inv_def table_ok_def)
  then show ?thesis using True by (simp add: dictFind_def dict_abs_def)
next
  case False
  then have ok: "table_ok ht" "plain (dtype ht)" using assms by (auto simp: dict_inv_def)
  then obtain t where t: "table ht = Some t" "dictHash ht (sizemask ht) k < length t" by (elim table_okE) auto
  then show ?thesis using False ok abs_lookup [OF ok(1) t(1)]
    by (simp add: dictFind_def chain_def compare_plain find_entry_eq Let_def)
qed

lemma map_of_set_entry: "map_of (set_entry (\<lambda>k'. k = k') v c) k' = (if k' = k \<and> map_of c k \<noteq> None then Some v else map_of c k')"
  by (induction c) auto

lemma set_entry_keys [simp]: "map fst (set_entry p v c) = map fst c"
  by (induction c) auto

lemma cut_entry_map:
  "distinct (map fst c) \<Longrightarrow> map_of (cut_entry (\<lambda>k'. k = k') c) k' = (if k' = k then None else map_of c k')"
proof (induction c)
  case (Cons x c)
  then have "map_of c (fst x) = None" by (simp add: map_of_eq_None_iff)
  then show ?case using Cons by (cases x) auto
qed simp

lemma cut_entry_keys: "distinct (map fst c) \<Longrightarrow> distinct (map fst (cut_entry p c)) \<and> set (cut_entry p c) \<subseteq> set c"
proof (induction c)
  case (Cons x c)
  then have "fst ` set (cut_entry p c) \<subseteq> fst ` set c" by auto
  then show ?case using Cons by auto
qed simp

lemma cut_entry_length: "map_of c k = Some v \<Longrightarrow> length c = Suc (length (cut_entry (\<lambda>k'. k = k') c))"
  by (induction c) (auto split: if_splits)

lemma free_sel [simp]:
  "table (dictFreeEntryVal v ht) = table ht" "table (dictFreeEntryKey k ht) = table ht"
  "dtype (dictFreeEntryVal v ht) = dtype ht" "dtype (dictFreeEntryKey k ht) = dtype ht"
  "dsize (dictFreeEntryVal v ht) = dsize ht" "dsize (dictFreeEntryKey k ht) = dsize ht"
  "sizemask (dictFreeEntryVal v ht) = sizemask ht" "sizemask (dictFreeEntryKey k ht) = sizemask ht"
  "used (dictFreeEntryVal v ht) = used ht" "used (dictFreeEntryKey k ht) = used ht"
  by (simp_all add: dictFreeEntryVal_def dictFreeEntryKey_def)

text \<open>The destructor calls for a removed key and value.\<close>

definition val_log :: "('k, 'v) dictType \<Rightarrow> 'v \<Rightarrow> ('k, 'v) freed list" where
  "val_log ty v = (if valDestructor ty then [FreedVal v] else [])"

definition key_log :: "('k, 'v) dictType \<Rightarrow> 'k \<Rightarrow> ('k, 'v) freed list" where
  "key_log ty k = (if keyDestructor ty then [FreedKey k] else [])"

lemma free_log [simp]:
  "dlog (dictFreeEntryVal v ht) = dlog ht @ val_log (dtype ht) v" "dlog (dictFreeEntryKey k ht) = dlog ht @ key_log (dtype ht) k"
  by (simp_all add: dictFreeEntryVal_def dictFreeEntryKey_def val_log_def key_log_def)

lemma replace_refines:
  assumes "dict_inv ht" "\<And>n. can_alloc e n" "used ht < 2147483648"
  shows "\<exists>ht' n. dictReplace e ht k v = Some (if dict_abs ht k = None then DOk ht' else DErr ht') \<and>
    dict_inv ht' \<and> dict_abs ht' = (dict_abs ht)(k \<mapsto> v) \<and> used ht' = (if dict_abs ht k = None then used ht + 1 else used ht) \<and>
    dlog ht' = dlog ht @ (case dict_abs ht k of None \<Rightarrow> [] | Some w \<Rightarrow> val_log (dtype ht) w) \<and> dtype ht' = dtype ht"
proof (cases "dict_abs ht k")
  case None
  then show ?thesis using add_absent [OF assms, of k v] assms(1) by (auto simp: dictReplace_def dict_inv_def)
next
  case (Some w)
  obtain h1 where h1: "dictAdd e ht k v = Some (DErr h1)" "table_ok h1" "dict_abs h1 = dict_abs ht" "used h1 = used ht"
    "dlog h1 = dlog ht" "dtype h1 = dtype ht" using add_present [OF assms Some] by blast
  have p: "plain (dtype h1)" "dict_inv h1" using assms(1) h1(2,6) by (auto simp: dict_inv_def)
  let ?h = "dictHash h1 (sizemask h1)"
  obtain t where t: "table h1 = Some t" "?h k < length t" "hashed ?h t" "used h1 \<le> dsize h1" using h1(2) by (elim table_okE) auto
  define c where "c = set_entry (\<lambda>k'. k = k') v (t ! ?h k)"
  define ht' where "ht' = dictFreeEntryVal w (h1\<lparr>table := Some (t[?h k := c])\<rparr>)"
  have "dup (valDup (dtype h1)) v = v" using p(1) by (simp add: plain_def)
  then have r: "dictReplace e ht k v = Some (DErr ht')"
    using h1(1) find_refines [OF p(2), of k] h1(3) Some t(1) p(1)
    by (simp add: dictReplace_def ht'_def c_def compare_plain Let_def)
  have "\<forall>x \<in> fst ` set (t ! ?h k). ?h x = ?h k" using t(2,3) by (auto simp: hashed_def)
  moreover have "fst ` set c = fst ` set (t ! ?h k)" by (metis c_def set_entry_keys list.set_map)
  ultimately have c2: "\<forall>x \<in> set c. ?h (fst x) = ?h k" by (metis imageI)
  have c: "distinct (map fst c)" using t(2,3) by (simp add: c_def hashed_def)
  have "length c = length (t ! ?h k)" by (metis c_def length_map set_entry_keys)
  note upd = table_ok_update [OF h1(2) t(1) c c2, of "used h1" ht', unfolded this]
  have "table_ok ht'" using upd(1) t(4) by (simp add: ht'_def)
  moreover have "dict_abs ht' = (dict_abs ht)(k \<mapsto> v)"
  proof
    fix k'
    have "dict_abs ht' k' = (if ?h k' = ?h k then map_of c k' else dict_abs h1 k')"
      using upd(2) [of k'] t(4) by (simp add: ht'_def)
    then show "dict_abs ht' k' = ((dict_abs ht)(k \<mapsto> v)) k'"
      using abs_lookup [OF h1(2) t(1)] h1(3) Some by (auto simp: c_def map_of_set_entry)
  qed
  ultimately show ?thesis using r h1 p Some by (auto simp: ht'_def dict_inv_def)
qed

lemma delete_refines:
  assumes "dict_inv ht"
  shows "\<exists>ht'. dictDelete ht k = (if dict_abs ht k = None then DErr ht' else DOk ht') \<and> dict_inv ht' \<and>
    dict_abs ht' = (dict_abs ht)(k := None) \<and> used ht' \<le> used ht \<and> dtype ht' = dtype ht \<and>
    dlog ht' = dlog ht @ (case dict_abs ht k of None \<Rightarrow> [] | Some v \<Rightarrow> key_log (dtype ht) k @ val_log (dtype ht) v)"
proof (cases "dsize ht = 0")
  case True
  then have "table ht = None" using assms by (auto simp: dict_inv_def table_ok_def)
  then show ?thesis using True assms by (simp add: dictDelete_def dict_abs_def fun_eq_iff)
next
  case False
  then have ok: "table_ok ht" "plain (dtype ht)" using assms by (auto simp: dict_inv_def)
  let ?h = "dictHash ht (sizemask ht)"
  obtain t where t: "table ht = Some t" "?h k < length t" "hashed ?h t" "used ht \<le> dsize ht" "used ht = length (concat t)"
    using ok(1) by (elim table_okE) auto
  have lk: "dict_abs ht k' = map_of (t ! ?h k') k'" for k' using abs_lookup [OF ok(1) t(1)] .
  show ?thesis
  proof (cases "dict_abs ht k")
    case None
    then have "dictDelete ht k = DErr ht"
      using False t ok(2) lk [of k] by (simp add: dictDelete_def chain_def compare_plain find_entry_eq Let_def)
    moreover have "(dict_abs ht)(k := None) = dict_abs ht" using None by (simp add: fun_eq_iff)
    ultimately show ?thesis using assms None by simp
  next
    case (Some v)
    define c where "c = cut_entry (\<lambda>k'. k = k') (t ! ?h k)"
    define ht' where "ht' = (dictFreeEntryVal v (dictFreeEntryKey k (ht\<lparr>table := Some (t[?h k := c])\<rparr>)))\<lparr>used := used ht - 1\<rparr>"
    have found: "map_of (t ! ?h k) k = Some v" using lk [of k] Some by simp
    have len: "length (t ! ?h k) = Suc (length c)" using cut_entry_length [OF found] by (simp add: c_def)
    have "length (t ! ?h k) \<le> length (concat t)" using length_concat_update [OF t(2), of "[]"] by simp
    then have pos: "used ht \<noteq> 0" using len t(5) by linarith
    have "used ht < 18446744073709551616" using ok(1) by (auto elim!: table_okE)
    then have "decr (used ht) = used ht - 1" using pos by (cases "used ht") (simp_all add: decr_def u64_def)
    then have r: "dictDelete ht k = DOk ht'"
      using False t ok(2) found
      by (simp add: dictDelete_def chain_def compare_plain find_entry_eq Let_def ht'_def c_def)
    have "distinct (map fst (t ! ?h k))" "\<forall>x \<in> set (t ! ?h k). ?h (fst x) = ?h k" using t(2,3) by (auto simp: hashed_def)
    then have c: "distinct (map fst c)" "\<forall>x \<in> set c. ?h (fst x) = ?h k"
      using cut_entry_keys [of "t ! ?h k"] by (auto simp: c_def)
    note upd = table_ok_update [OF ok(1) t(1) c, of "used ht - 1" ht']
    have "table_ok ht'" using upd(1) t(4) len pos by (simp add: ht'_def)
    moreover have "dict_abs ht' = (dict_abs ht)(k := None)"
    proof
      fix k'
      have "dict_abs ht' k' = (if ?h k' = ?h k then map_of c k' else dict_abs ht k')"
        using upd(2) [of k'] t(4) len pos by (simp add: ht'_def)
      then show "dict_abs ht' k' = ((dict_abs ht)(k := None)) k'"
        using lk cut_entry_map [OF \<open>distinct (map fst (t ! ?h k))\<close>] by (auto simp: c_def)
    qed
    ultimately show ?thesis using r ok(2) Some by (auto simp: ht'_def dict_inv_def)
  qed
qed

lemma clear_chain_spec:
  "length c \<le> used ht \<Longrightarrow> used ht < 18446744073709551616 \<Longrightarrow>
    used (clear_chain c ht) = used ht - length c \<and> dtype (clear_chain c ht) = dtype ht \<and>
    dlog (clear_chain c ht) = dlog ht @ concat (map (\<lambda>(k, v). key_log (dtype ht) k @ val_log (dtype ht) v) c)"
proof (induction c ht rule: clear_chain.induct)
  case (2 k v c ht)
  have d: "decr (used ht) = used ht - 1" using 2(2,3) by (cases "used ht") (simp_all add: decr_def u64_def)
  then show ?case using 2 by (simp add: Let_def)
qed simp

lemma clear_slots_spec:
  "length (concat cs) = used ht \<Longrightarrow> used ht < 18446744073709551616 \<Longrightarrow>
    dtype (clear_slots cs ht) = dtype ht \<and>
    dlog (clear_slots cs ht) = dlog ht @ concat (map (\<lambda>(k, v). key_log (dtype ht) k @ val_log (dtype ht) v) (concat cs))"
proof (induction cs ht rule: clear_slots.induct)
  case (2 c cs ht)
  show ?case
  proof (cases "used ht > 0")
    case True
    then show ?thesis using 2 clear_chain_spec [of c ht] by simp
  next
    case False
    then have "concat (c # cs) = []" using 2(2) by (metis length_0_conv neq0_conv)
    then show ?thesis using False by (simp del: concat_eq_Nil_conv)
  qed
qed simp

lemma clear_refines:
  assumes "dict_inv ht"
  shows "dict_inv (dictClear ht)" "dict_abs (dictClear ht) = Map.empty"
    "dlog (dictClear ht) = dlog ht @ concat (map (\<lambda>(k, v). key_log (dtype ht) k @ val_log (dtype ht) v) (concat (chains ht)))"
proof -
  have "length (concat (chains ht)) = used ht" "used ht < 18446744073709551616"
    using assms by (auto simp: dict_inv_def elim!: table_okE)
  note c = clear_slots_spec [OF this]
  show "dict_inv (dictClear ht)" using c assms by (simp add: dict_inv_def dictClear_def dictReset_def)
  show "dict_abs (dictClear ht) = Map.empty" by (simp add: dict_abs_def dictClear_def dictReset_def)
  show "dlog (dictClear ht) = dlog ht @ concat (map (\<lambda>(k, v). key_log (dtype ht) k @ val_log (dtype ht) v) (concat (chains ht)))"
    using c by (simp add: dictClear_def dictReset_def)
qed

section \<open>Iterating\<close>

text \<open>What an iterator has still to visit.\<close>

definition to_visit :: "('k \<times> 'v) list list \<Rightarrow> ('k, 'v) dictIterator \<Rightarrow> ('k \<times> 'v) list" where
  "to_visit t it = (if it_entry it = [] then [] else it_nextEntry it) @ concat (drop (nat (it_index it + 1)) t)"

lemma dictNext_visits:
  assumes "- 1 \<le> it_index it"
  shows "case dictNext t it of
      (it', None) \<Rightarrow> to_visit t it = []
    | (it', Some x) \<Rightarrow> to_visit t it = x # to_visit t it' \<and> - 1 \<le> it_index it'"
  using assms
proof (induction t it rule: dictNext.induct)
  case (1 t it)
  show ?case
  proof (cases "it_entry it = []")
    case True
    show ?thesis
    proof (cases "it_index it + 1 \<ge> int (length t)")
      case True
      then show ?thesis using \<open>it_entry it = []\<close> by (simp add: dictNext.simps [of t it] to_visit_def)
    next
      case f: False
      let ?i = "nat (it_index it + 1)"
      let ?it = "it\<lparr>it_index := it_index it + 1, it_entry := t ! ?i\<rparr>"
      have i: "?i < length t" "nat (it_index it + 2) = Suc ?i" using f 1(2) by simp_all
      have v: "to_visit t it = t ! ?i @ concat (drop (Suc ?i) t)"
        using True i(1) by (simp add: to_visit_def Cons_nth_drop_Suc [symmetric])
      show ?thesis
      proof (cases "t ! ?i")
        case Nil
        have "to_visit t ?it = to_visit t it" using v i(2) Nil by (simp add: to_visit_def add.commute)
        then show ?thesis using "1.IH" [OF _ refl] "1.prems" True f Nil by (simp add: dictNext.simps [of t it] Let_def)
      next
        case (Cons x c)
        then show ?thesis using True f v i(2) 1(2) by (simp add: dictNext.simps [of t it] to_visit_def Let_def add.commute)
      qed
    qed
  next
    case False
    let ?it = "it\<lparr>it_entry := it_nextEntry it\<rparr>"
    show ?thesis
    proof (cases "it_nextEntry it")
      case Nil
      have "to_visit t ?it = to_visit t it" using Nil False by (simp add: to_visit_def)
      then show ?thesis using "1.IH" [OF _ refl] "1.prems" False Nil by (simp add: dictNext.simps [of t it] Let_def)
    next
      case (Cons x c)
      then show ?thesis using False 1(2) by (simp add: dictNext.simps [of t it] to_visit_def Let_def)
    qed
  qed
qed

text \<open>The loop over an iterator.\<close>

primrec visit :: "nat \<Rightarrow> ('k \<times> 'v) list list \<Rightarrow> ('k, 'v) dictIterator \<Rightarrow> ('k \<times> 'v) list option" where
  "visit 0 t it = None"
| "visit (Suc n) t it =
     (case dictNext t it of
        (it', None) \<Rightarrow> Some []
      | (it', Some x) \<Rightarrow> map_option (Cons x) (visit n t it'))"

lemma visit_all:
  "- 1 \<le> it_index it \<Longrightarrow> length (to_visit t it) < n \<Longrightarrow> visit n t it = Some (to_visit t it)"
proof (induction n arbitrary: it)
  case (Suc n)
  obtain it' x where n: "dictNext t it = (it', x)" by force
  then show ?case using Suc dictNext_visits [OF Suc.prems(1), of t] by (cases x) auto
qed simp

section \<open>The interface of a table\<close>

datatype ('k, 'v) dop = DPut 'k 'v | DDel 'k

text \<open>What a sequence of updates means for a map.\<close>

fun map_op :: "('k, 'v) dop \<Rightarrow> ('k \<rightharpoonup> 'v) \<Rightarrow> 'k \<rightharpoonup> 'v" where
  "map_op (DPut k v) m = m(k \<mapsto> v)"
| "map_op (DDel k) m = m(k := None)"

locale kv_table =
  fixes ok :: "'d \<Rightarrow> bool"
    and count :: "'d \<Rightarrow> nat"
    and lim :: nat
    and lookup :: "'d \<Rightarrow> 'k \<rightharpoonup> 'v"
    and put :: "'d \<Rightarrow> 'k \<Rightarrow> 'v \<Rightarrow> 'd option"
    and del :: "'d \<Rightarrow> 'k \<Rightarrow> 'd option"
  assumes put_ok: "ok d \<Longrightarrow> count d < lim \<Longrightarrow>
      \<exists>d'. put d k v = Some d' \<and> ok d' \<and> lookup d' = (lookup d)(k \<mapsto> v) \<and> count d' \<le> count d + 1"
    and del_ok: "ok d \<Longrightarrow>
      \<exists>d'. del d k = Some d' \<and> ok d' \<and> lookup d' = (lookup d)(k := None) \<and> count d' \<le> count d"
    and finite_lookup: "ok d \<Longrightarrow> finite (dom (lookup d))"
begin

fun apply_op :: "('k, 'v) dop \<Rightarrow> 'd \<Rightarrow> 'd option" where
  "apply_op (DPut k v) d = put d k v"
| "apply_op (DDel k) d = del d k"

fun apply_ops :: "('k, 'v) dop list \<Rightarrow> 'd \<Rightarrow> 'd option" where
  "apply_ops [] d = Some d"
| "apply_ops (x # xs) d = (case apply_op x d of None \<Rightarrow> None | Some d' \<Rightarrow> apply_ops xs d')"

lemma apply_op_ok:
  assumes "ok d" "count d < lim"
  shows "\<exists>d'. apply_op x d = Some d' \<and> ok d' \<and> lookup d' = map_op x (lookup d) \<and> count d' \<le> count d + 1"
proof (cases x)
  case (DPut k v)
  then show ?thesis using put_ok [OF assms, of k v] by simp
next
  case (DDel k)
  then show ?thesis using del_ok [OF assms(1), of k] by auto
qed

lemma apply_ops_lookup:
  assumes "ok d" "count d + length xs \<le> lim"
  shows "\<exists>d'. apply_ops xs d = Some d' \<and> ok d' \<and> lookup d' = fold map_op xs (lookup d)"
  using assms
proof (induction xs arbitrary: d)
  case (Cons x xs)
  obtain d1 where d1: "apply_op x d = Some d1" "ok d1" "lookup d1 = map_op x (lookup d)" "count d1 \<le> count d + 1"
    using apply_op_ok [of d x] Cons.prems by auto
  then show ?case using Cons.IH [of d1] Cons.prems by auto
qed simp

end

text \<open>A table that gives back the values it no longer holds.\<close>

abbreviation op_key :: "('k, 'v) dop \<Rightarrow> 'k" where
  "op_key x \<equiv> (case x of DPut k v \<Rightarrow> k | DDel k \<Rightarrow> k)"

fun given :: "('k, 'v) dop list \<Rightarrow> 'v multiset" where
  "given [] = {#}"
| "given (DPut k v # xs) = add_mset v (given xs)"
| "given (DDel k # xs) = given xs"

locale kv_table_free = kv_table +
  fixes freed :: "'a \<Rightarrow> 'c list"
  assumes put_freed: "ok d \<Longrightarrow> count d < lim \<Longrightarrow> put d k v = Some d' \<Longrightarrow>
      freed d' = freed d @ (case lookup d k of None \<Rightarrow> [] | Some w \<Rightarrow> [w])"
    and del_freed: "ok d \<Longrightarrow> del d k = Some d' \<Longrightarrow>
      freed d' = freed d @ (case lookup d k of None \<Rightarrow> [] | Some w \<Rightarrow> [w])"
begin

lemma apply_op_freed:
  "ok d \<Longrightarrow> count d < lim \<Longrightarrow> apply_op x d = Some d' \<Longrightarrow>
    freed d' = freed d @ (case lookup d (op_key x) of None \<Rightarrow> [] | Some w \<Rightarrow> [w])"
  by (cases x) (simp_all add: put_freed del_freed)

text \<open>The values in the table, and those given back, are the values put in.\<close>

definition stored :: "'a \<Rightarrow> 'c multiset" where
  "stored d = image_mset (\<lambda>k. the (lookup d k)) (mset_set (dom (lookup d)))"

lemma stored_remove:
  fixes m :: "'b \<rightharpoonup> 'c"
  assumes "finite (dom m)"
  shows "image_mset (\<lambda>k. the (m k)) (mset_set (dom m)) =
    image_mset (\<lambda>k. the (m k)) (mset_set (dom m - {k})) + (case m k of None \<Rightarrow> {#} | Some w \<Rightarrow> {#w#})"
proof (cases "m k")
  case None
  then have "dom m - {k} = dom m" by auto
  then show ?thesis using None by simp
next
  case (Some w)
  then have "mset_set (dom m) = add_mset k (mset_set (dom m - {k}))" using assms by (simp add: mset_set.remove domI)
  then show ?thesis using Some by simp
qed

lemma stored_step:
  assumes "ok d" "ok d'" "lookup d' = map_op x (lookup d)"
  shows "stored d' + mset (case lookup d (op_key x) of None \<Rightarrow> [] | Some w \<Rightarrow> [w]) = stored d + given [x]"
proof -
  define k where "k = op_key x"
  have fin: "finite (dom (lookup d))" "finite (dom (lookup d'))"
    by (rule finite_lookup [OF assms(1)]) (rule finite_lookup [OF assms(2)])
  have other: "lookup d' j = lookup d j" if "j \<noteq> k" for j using assms(3) that by (cases x) (auto simp: k_def)
  have dom: "dom (lookup d') - {k} = dom (lookup d) - {k}" using other by (auto simp: dom_def)
  have "image_mset (\<lambda>j. the (lookup d' j)) (mset_set (dom (lookup d) - {k})) =
      image_mset (\<lambda>j. the (lookup d j)) (mset_set (dom (lookup d) - {k}))"
    using fin other by (intro image_mset_cong) auto
  moreover have "(case lookup d' k of None \<Rightarrow> {#} | Some w \<Rightarrow> {#w#}) = given [x]"
    using assms(3) by (cases x) (auto simp: k_def)
  ultimately have "stored d' = image_mset (\<lambda>j. the (lookup d j)) (mset_set (dom (lookup d) - {k})) + given [x]"
    using stored_remove [OF fin(2), of k] dom by (simp add: stored_def)
  moreover have "mset (case lookup d k of None \<Rightarrow> [] | Some w \<Rightarrow> [w]) = (case lookup d k of None \<Rightarrow> {#} | Some w \<Rightarrow> {#w#})"
    by (simp split: option.splits)
  ultimately show ?thesis using stored_remove [OF fin(1), of k] by (simp add: stored_def k_def)
qed

lemma apply_ops_balance:
  assumes "ok d" "count d + length xs \<le> lim"
  shows "\<exists>d'. apply_ops xs d = Some d' \<and> ok d' \<and> stored d' + mset (freed d') = stored d + mset (freed d) + given xs"
  using assms
proof (induction xs arbitrary: d)
  case (Cons x xs)
  obtain d1 where d1: "apply_op x d = Some d1" "ok d1" "lookup d1 = map_op x (lookup d)" "count d1 \<le> count d + 1"
    using apply_op_ok [of d x] Cons.prems by auto
  have f1: "freed d1 = freed d @ (case lookup d (op_key x) of None \<Rightarrow> [] | Some w \<Rightarrow> [w])"
    using apply_op_freed [OF Cons.prems(1) _ d1(1)] Cons.prems(2) by simp
  obtain d2 where d2: "apply_ops xs d1 = Some d2" "ok d2" "stored d2 + mset (freed d2) = stored d1 + mset (freed d1) + given xs"
    using Cons.IH [of d1] Cons.prems d1 by auto
  have "stored d1 + mset (freed d1) = stored d + mset (freed d) + given [x]"
    using stored_step [OF Cons.prems(1) d1(2,3)] f1 by (simp add: add.assoc add.left_commute)
  moreover have "given (x # xs) = given [x] + given xs" by (cases x) auto
  ultimately show ?case using d1(1) d2 by (simp add: add.assoc)
qed simp

end

section \<open>The hash table implements the interface\<close>

text \<open>The operations with the distinction between new and replaced keys left out.\<close>

definition dict_put :: "menv \<Rightarrow> ('k, 'v) dict \<Rightarrow> 'k \<Rightarrow> 'v \<Rightarrow> ('k, 'v) dict option" where
  "dict_put e ht k v = (case dictReplace e ht k v of Some (DOk d) \<Rightarrow> Some d | Some (DErr d) \<Rightarrow> Some d | _ \<Rightarrow> None)"

definition dict_del :: "('k, 'v) dict \<Rightarrow> 'k \<Rightarrow> ('k, 'v) dict option" where
  "dict_del ht k = (case dictDelete ht k of DOk d \<Rightarrow> Some d | DErr d \<Rightarrow> Some d | DBad \<Rightarrow> None)"

definition dict_get :: "('k, 'v) dict \<Rightarrow> 'k \<rightharpoonup> 'v" where
  "dict_get ht k = (case dictFind ht k of DOk (Some (k', v)) \<Rightarrow> Some v | _ \<Rightarrow> None)"

definition freed_vals :: "('k, 'v) freed list \<Rightarrow> 'v list" where
  "freed_vals l = concat (map (\<lambda>x. case x of FreedVal v \<Rightarrow> [v] | FreedKey k \<Rightarrow> []) l)"

lemma freed_vals_log [simp]: "freed_vals (l @ l') = freed_vals l @ freed_vals l'" "freed_vals (key_log ty k) = []"
  "valDestructor ty \<Longrightarrow> freed_vals (val_log ty v) = [v]" "freed_vals [] = []"
  by (simp_all add: freed_vals_def key_log_def val_log_def)

definition dict_ok :: "('k, 'v) dict \<Rightarrow> bool" where
  "dict_ok ht \<longleftrightarrow> dict_inv ht \<and> valDestructor (dtype ht)"

lemma get_abs: "dict_inv ht \<Longrightarrow> dict_get ht = dict_abs ht"
  by (auto simp: dict_get_def find_refines fun_eq_iff split: option.splits)

lemma dict_put_ok:
  assumes "dict_inv d" "used d < 2147483648" "\<And>n. can_alloc e n"
  shows "\<exists>d'. dict_put e d k v = Some d' \<and> dict_inv d' \<and> dict_get d' = (dict_get d)(k \<mapsto> v) \<and>
    used d' \<le> used d + 1 \<and> dtype d' = dtype d \<and>
    dlog d' = dlog d @ (case dict_get d k of None \<Rightarrow> [] | Some w \<Rightarrow> val_log (dtype d) w)"
proof -
  obtain d' where d': "dictReplace e d k v = Some (if dict_abs d k = None then DOk d' else DErr d')"
    "dict_inv d'" "dict_abs d' = (dict_abs d)(k \<mapsto> v)" "used d' = (if dict_abs d k = None then used d + 1 else used d)"
    "dlog d' = dlog d @ (case dict_abs d k of None \<Rightarrow> [] | Some w \<Rightarrow> val_log (dtype d) w)" "dtype d' = dtype d"
    using replace_refines [OF assms(1,3,2), of k v] by auto
  have "dict_put e d k v = Some d'" using d'(1) by (simp add: dict_put_def)
  then show ?thesis using assms(1) d' by (simp add: get_abs)
qed

lemma dict_del_ok:
  assumes "dict_inv d"
  shows "\<exists>d'. dict_del d k = Some d' \<and> dict_inv d' \<and> dict_get d' = (dict_get d)(k := None) \<and>
    used d' \<le> used d \<and> dtype d' = dtype d \<and>
    dlog d' = dlog d @ (case dict_get d k of None \<Rightarrow> [] | Some w \<Rightarrow> key_log (dtype d) k @ val_log (dtype d) w)"
proof -
  obtain d' where d': "dictDelete d k = (if dict_abs d k = None then DErr d' else DOk d')" "dict_inv d'"
    "dict_abs d' = (dict_abs d)(k := None)" "used d' \<le> used d" "dtype d' = dtype d"
    "dlog d' = dlog d @ (case dict_abs d k of None \<Rightarrow> [] | Some v \<Rightarrow> key_log (dtype d) k @ val_log (dtype d) v)"
    using delete_refines [OF assms, of k] by auto
  have "dict_del d k = Some d'" using d'(1) by (simp add: dict_del_def)
  then show ?thesis using assms d' by (simp add: get_abs)
qed

lemma dict_get_finite: "dict_inv d \<Longrightarrow> finite (dom (dict_get d))"
  by (simp add: get_abs dict_abs_def finite_dom_map_of)

interpretation dt: kv_table dict_inv used 2147483648 dict_get "dict_put \<lparr>can_alloc = (\<lambda>n. True), junk = j\<rparr>" dict_del
proof unfold_locales
  fix d :: "('a, 'b) dict" and k v
  let ?e = "\<lparr>can_alloc = (\<lambda>n. True), junk = j\<rparr>"
  show "\<exists>d'. dict_put ?e d k v = Some d' \<and> dict_inv d' \<and> dict_get d' = (dict_get d)(k \<mapsto> v) \<and> used d' \<le> used d + 1"
    if "dict_inv d" "used d < 2147483648" using dict_put_ok [OF that, of ?e k v] by auto
  show "\<exists>d'. dict_del d k = Some d' \<and> dict_inv d' \<and> dict_get d' = (dict_get d)(k := None) \<and> used d' \<le> used d"
    if "dict_inv d" using dict_del_ok [OF that, of k] by auto
qed (rule dict_get_finite)

interpretation dtf: kv_table_free dict_ok used 2147483648 dict_get "dict_put \<lparr>can_alloc = (\<lambda>n. True), junk = j\<rparr>" dict_del
  "\<lambda>ht. freed_vals (dlog ht)"
proof unfold_locales
  fix d d' :: "('a, 'b) dict" and k v
  let ?e = "\<lparr>can_alloc = (\<lambda>n. True), junk = j\<rparr>"
  show "\<exists>d'. dict_put ?e d k v = Some d' \<and> dict_ok d' \<and> dict_get d' = (dict_get d)(k \<mapsto> v) \<and> used d' \<le> used d + 1"
    if "dict_ok d" "used d < 2147483648" using dict_put_ok [of d ?e k v] that by (auto simp: dict_ok_def)
  show "\<exists>d'. dict_del d k = Some d' \<and> dict_ok d' \<and> dict_get d' = (dict_get d)(k := None) \<and> used d' \<le> used d"
    if "dict_ok d" using dict_del_ok [of d k] that by (auto simp: dict_ok_def)
  show "finite (dom (dict_get d))" if "dict_ok d" using dict_get_finite [of d] that by (simp add: dict_ok_def)
  show "freed_vals (dlog d') = freed_vals (dlog d) @ (case dict_get d k of None \<Rightarrow> [] | Some w \<Rightarrow> [w])"
    if "dict_ok d" "used d < 2147483648" "dict_put ?e d k v = Some d'"
    using dict_put_ok [of d ?e k v] that by (auto simp: dict_ok_def split: option.splits)
  show "freed_vals (dlog d') = freed_vals (dlog d) @ (case dict_get d k of None \<Rightarrow> [] | Some w \<Rightarrow> [w])"
    if "dict_ok d" "dict_del d k = Some d'"
    using dict_del_ok [of d k] that by (auto simp: dict_ok_def split: option.splits)
qed

section \<open>Properties\<close>

text \<open>A program that only updates one table.\<close>

fun dict_run :: "menv \<Rightarrow> ('k, 'v) dop list \<Rightarrow> ('k, 'v) dict \<Rightarrow> ('k, 'v) dict option" where
  "dict_run e [] ht = Some ht"
| "dict_run e (DPut k v # xs) ht = (case dict_put e ht k v of None \<Rightarrow> None | Some ht' \<Rightarrow> dict_run e xs ht')"
| "dict_run e (DDel k # xs) ht = (case dict_del ht k of None \<Rightarrow> None | Some ht' \<Rightarrow> dict_run e xs ht')"

lemma dict_run_ops: "dict_run \<lparr>can_alloc = (\<lambda>n. True), junk = j\<rparr> xs ht = dt.apply_ops j xs ht"
  by (induction "\<lparr>can_alloc = (\<lambda>n. True), junk = j\<rparr>" xs ht rule: dict_run.induct)
    (auto simp: dt.apply_ops.simps dt.apply_op.simps split: option.splits)

lemma create_inv: "plain ty \<Longrightarrow> dict_inv (dictCreate ty)" "dict_abs (dictCreate ty) = Map.empty"
  by (simp_all add: dict_inv_def dictCreate_def dict_abs_def)

text \<open>C31 A table is a finite map: after any sequence of at most 2147483648 calls of \<^verbatim>\<open>dictReplace\<close> and
  \<^verbatim>\<open>dictDelete\<close> on a new table, with all the growing and rehashing in between, \<^verbatim>\<open>dictFind\<close> gives for
  every key the value that was last stored and not deleted, and no operation fails or touches
  memory outside the table.\<close>

theorem dict_history:
  assumes "plain ty" "length xs \<le> 2147483648" "\<And>n. can_alloc e n"
  shows "\<exists>ht. dict_run e xs (dictCreate ty) = Some ht \<and>
    (\<forall>k. dictFind ht k = DOk (map_option (Pair k) (fold map_op xs Map.empty k)))"
proof -
  have e: "e = \<lparr>can_alloc = (\<lambda>n. True), junk = junk e\<rparr>" using assms(3) by (cases e) auto
  obtain ht where "dt.apply_ops (junk e) xs (dictCreate ty) = Some ht" "dict_inv ht"
    "dict_get ht = fold map_op xs (dict_get (dictCreate ty))"
    using dt.apply_ops_lookup [of "dictCreate ty" xs "junk e"] create_inv assms(1,2) by (auto simp: dictCreate_def)
  moreover have "dict_get (dictCreate ty) = Map.empty" using get_abs create_inv assms(1) by metis
  ultimately show ?thesis
    using dict_run_ops [of "junk e" xs] e find_refines [of ht] by (auto simp: get_abs)
qed

theorem dict_history_witness:
  "\<exists>ht. let ty = \<lparr>hashFunction = (\<lambda>k. dictGenHashFunction k 5381), keyDup = None, valDup = None, keyCompare = None,
       keyDestructor = False, valDestructor = False\<rparr> in
     dict_run \<lparr>can_alloc = (\<lambda>n. True), junk = (\<lambda>n. NUL)\<rparr>
       [DPut ''a'' 1, DPut ''b'' (2 :: int), DPut ''c'' 3, DPut ''d'' 4, DPut ''e'' 5, DPut ''b'' 6, DDel ''a''] (dictCreate ty) = Some ht \<and>
     dictFind ht ''b'' = DOk (Some (''b'', 6)) \<and> dictFind ht ''a'' = DOk None"
proof -
  let ?ty = "\<lparr>hashFunction = (\<lambda>k. dictGenHashFunction k 5381), keyDup = None, valDup = None, keyCompare = None,
       keyDestructor = False, valDestructor = False\<rparr> :: (string, int) dictType"
  have "plain ?ty" by (simp add: plain_def dup_def)
  then show ?thesis
    using dict_history [of ?ty "[DPut ''a'' 1, DPut ''b'' 2, DPut ''c'' 3, DPut ''d'' 4, DPut ''e'' 5, DPut ''b'' 6, DDel ''a'']"
        "\<lparr>can_alloc = (\<lambda>n. True), junk = (\<lambda>n. NUL)\<rparr>"]
    by (fastforce simp: Let_def)
qed

lemma inv_distinct:
  assumes "dict_inv ht"
  shows "distinct (map fst (concat (chains ht)))"
proof -
  have "hashed (dictHash ht (sizemask ht)) (chains ht)"
    using assms by (auto simp: dict_inv_def table_ok_def hashed_def [of _ "[]"])
  then show ?thesis using hashed_distinct [of "chains ht" "dictHash ht (sizemask ht)" 0] by (simp add: hashed_def)
qed

lemma values_stored:
  assumes "dict_inv ht"
  shows "image_mset (\<lambda>k. the (dict_get ht k)) (mset_set (dom (dict_get ht))) = mset (map snd (concat (chains ht)))"
proof -
  define xs where "xs = concat (chains ht)"
  have d: "distinct (map fst xs)" using inv_distinct [OF assms] by (simp only: xs_def)
  have "mset_set (dom (map_of xs)) = mset (map fst xs)"
    using mset_set_set [OF d] by (simp add: dom_map_of_conv_image_fst)
  then have "image_mset (\<lambda>k. the (map_of xs k)) (mset_set (dom (map_of xs))) = image_mset (\<lambda>x. the (map_of xs (fst x))) (mset xs)"
    by (simp add: image_mset.compositionality comp_def)
  also have "\<dots> = image_mset snd (mset xs)"
    by (rule image_mset_cong) (use d in \<open>auto simp: map_of_eq_Some_iff\<close>)
  finally show ?thesis using assms by (simp add: get_abs dict_abs_def xs_def)
qed

text \<open>C32 Every value is destroyed exactly once: when a table whose type has a value destructor is
  updated by any sequence of \<^verbatim>\<open>dictReplace\<close> and \<^verbatim>\<open>dictDelete\<close> and then cleared, the values handed to
  the destructor are, with their multiplicity, the values that were stored.\<close>

theorem dict_destroys_once:
  assumes "plain ty" "valDestructor ty" "length xs \<le> 2147483648" "\<And>n. can_alloc e n"
  shows "\<exists>ht. dict_run e xs (dictCreate ty) = Some ht \<and> mset (freed_vals (dlog (dictClear ht))) = given xs"
proof -
  have e: "e = \<lparr>can_alloc = (\<lambda>n. True), junk = junk e\<rparr>" using assms(4) by (cases e) auto
  have ok: "dict_ok (dictCreate ty)" using create_inv(1) [OF assms(1)] assms(2) by (simp add: dict_ok_def dictCreate_def)
  obtain ht where ht: "dt.apply_ops (junk e) xs (dictCreate ty) = Some ht" "dict_ok ht"
    "dtf.stored ht + mset (freed_vals (dlog ht)) = dtf.stored (dictCreate ty) + mset (freed_vals (dlog (dictCreate ty))) + given xs"
    using dtf.apply_ops_balance [OF ok, of xs "junk e"] assms(3) by (auto simp: dictCreate_def)
  have i: "dict_inv ht" "valDestructor (dtype ht)" using ht(2) by (auto simp: dict_ok_def)
  have "dtf.stored (dictCreate ty) = {#}"
    using values_stored [OF create_inv(1) [OF assms(1)]] by (simp add: dtf.stored_def dictCreate_def)
  moreover have "dtf.stored ht = mset (map snd (concat (chains ht)))" using values_stored [OF i(1)] by (simp add: dtf.stored_def)
  moreover have "freed_vals (concat (map (\<lambda>(k, v). key_log (dtype ht) k @ val_log (dtype ht) v) ys)) = map snd ys" for ys
    using i(2) by (induction ys) auto
  ultimately have "mset (freed_vals (dlog (dictClear ht))) = given xs"
    using ht(3) clear_refines(3) [OF i(1)] by (simp add: dictCreate_def add.commute)
  then show ?thesis using dict_run_ops [of "junk e" xs] ht(1) e by auto
qed

theorem dict_destroys_once_witness:
  "\<exists>ht. dict_run \<lparr>can_alloc = (\<lambda>n. True), junk = (\<lambda>n. NUL)\<rparr> [DPut True 1, DPut True (2 :: int), DPut False 2, DDel False]
       (dictCreate \<lparr>hashFunction = (\<lambda>k. 0), keyDup = None, valDup = None, keyCompare = None, keyDestructor = False,
          valDestructor = True\<rparr>) = Some ht \<and>
     mset (freed_vals (dlog (dictClear ht))) = {#1, 2, 2#}"
  using dict_destroys_once [of "\<lparr>hashFunction = (\<lambda>k. 0), keyDup = None, valDup = None, keyCompare = None, keyDestructor = False,
      valDestructor = True\<rparr>" "[DPut True 1, DPut True 2, DPut False 2, DDel False]" "\<lparr>can_alloc = (\<lambda>n. True), junk = (\<lambda>n. NUL)\<rparr>"]
  by (simp add: plain_def dup_def)



end
