(* ===== verification/AdList.thy ===== *)
theory AdList
  imports Dict "HOL-Library.Monad_Syntax"
begin

text \<open>
  Model of the doubly linked lists of \<^verbatim>\<open>adlist.c\<close> on an explicit store of nodes: a pointer is an
  address or null, following a null or dangling pointer is an error (\<^term>\<open>None\<close> in the pointer
  operations, \<^term>\<open>Crash\<close> in the list operations), and the values handed to the \<^verbatim>\<open>free\<close> method
  are recorded.
\<close>

section \<open>Nodes and lists\<close>

record 'v listNode =
  nprev :: "nat option"
  nnext :: "nat option"
  nvalue :: 'v

record 'v lheap =
  nodes :: "nat \<rightharpoonup> 'v listNode"
  lfresh :: nat
  lfreed :: "'v list"

record 'v hilist =
  lhead :: "nat option"
  ltail :: "nat option"
  ldup :: "('v \<Rightarrow> 'v option) option"
  lfree :: bool
  lmatch :: "('v \<Rightarrow> 'v \<Rightarrow> bool) option"
  llen :: nat

definition deref :: "nat option \<Rightarrow> 'v lheap \<Rightarrow> 'v listNode option" where
  "deref p s = do { a \<leftarrow> p; nodes s a }"

definition set_node :: "nat option \<Rightarrow> ('v listNode \<Rightarrow> 'v listNode) \<Rightarrow> 'v lheap \<Rightarrow> 'v lheap option" where
  "set_node p f s = do { a \<leftarrow> p; n \<leftarrow> nodes s a; Some (s\<lparr>nodes := (nodes s)(a \<mapsto> f n)\<rparr>) }"

abbreviation set_prev :: "nat option \<Rightarrow> nat option \<Rightarrow> 'v lheap \<Rightarrow> 'v lheap option" where
  "set_prev p x \<equiv> set_node p (\<lambda>n. n\<lparr>nprev := x\<rparr>)"

abbreviation set_next :: "nat option \<Rightarrow> nat option \<Rightarrow> 'v lheap \<Rightarrow> 'v lheap option" where
  "set_next p x \<equiv> set_node p (\<lambda>n. n\<lparr>nnext := x\<rparr>)"

definition new_node :: "nat option \<Rightarrow> nat option \<Rightarrow> 'v \<Rightarrow> 'v lheap \<Rightarrow> 'v lheap" where
  "new_node p q v s = s\<lparr>nodes := (nodes s)(lfresh s \<mapsto> \<lparr>nprev = p, nnext = q, nvalue = v\<rparr>), lfresh := Suc (lfresh s)\<rparr>"

definition free_node :: "nat \<Rightarrow> 'v lheap \<Rightarrow> 'v lheap" where
  "free_node a s = s\<lparr>nodes := (nodes s)(a := None)\<rparr>"

definition free_value :: "'v hilist \<Rightarrow> 'v \<Rightarrow> 'v lheap \<Rightarrow> 'v lheap" where
  "free_value l v s = (if lfree l then s\<lparr>lfreed := lfreed s @ [v]\<rparr> else s)"

definition or_crash :: "'a option \<Rightarrow> 'a ptr" where
  "or_crash x = (case x of None \<Rightarrow> Crash | Some y \<Rightarrow> Ptr y)"

section \<open>Operations\<close>

definition listCreate :: "menv \<Rightarrow> 'v hilist ptr" where
  "listCreate e =
     (if can_alloc e 48
      then Ptr \<lparr>lhead = None, ltail = None, ldup = None, lfree = False, lmatch = None, llen = 0\<rparr> else Null)"

fun release_loop :: "'v hilist \<Rightarrow> nat \<Rightarrow> nat option \<Rightarrow> 'v lheap \<Rightarrow> 'v lheap option" where
  "release_loop l 0 current s = Some s"
| "release_loop l (Suc len) current s =
     do { a \<leftarrow> current; n \<leftarrow> nodes s a; release_loop l len (nnext n) (free_node a (free_value l (nvalue n) s)) }"

definition listRelease :: "'v hilist \<Rightarrow> 'v lheap \<Rightarrow> 'v lheap option" where
  "listRelease l s = release_loop l (llen l) (lhead l) s"

definition listAddNodeHead :: "menv \<Rightarrow> 'v hilist \<Rightarrow> 'v \<Rightarrow> 'v lheap \<Rightarrow> ('v hilist \<times> 'v lheap) ptr" where
  "listAddNodeHead e l v s =
     (if \<not> can_alloc e 24 then Null
      else
        (let a = Some (lfresh s) in
         or_crash
           (if llen l = 0 then Some (l\<lparr>lhead := a, ltail := a, llen := u64 (llen l + 1)\<rparr>, new_node None None v s)
            else
              do { s \<leftarrow> set_prev (lhead l) a (new_node None (lhead l) v s);
                   Some (l\<lparr>lhead := a, llen := u64 (llen l + 1)\<rparr>, s) })))"

definition listAddNodeTail :: "menv \<Rightarrow> 'v hilist \<Rightarrow> 'v \<Rightarrow> 'v lheap \<Rightarrow> ('v hilist \<times> 'v lheap) ptr" where
  "listAddNodeTail e l v s =
     (if \<not> can_alloc e 24 then Null
      else
        (let a = Some (lfresh s) in
         or_crash
           (if llen l = 0 then Some (l\<lparr>lhead := a, ltail := a, llen := u64 (llen l + 1)\<rparr>, new_node None None v s)
            else
              do { s \<leftarrow> set_next (ltail l) a (new_node (ltail l) None v s);
                   Some (l\<lparr>ltail := a, llen := u64 (llen l + 1)\<rparr>, s) })))"

text \<open>Linking the neighbours of a node to it.\<close>

definition link_node :: "nat \<Rightarrow> 'v lheap \<Rightarrow> 'v lheap option" where
  "link_node a s =
     do { n \<leftarrow> nodes s a;
          s \<leftarrow> (if nprev n \<noteq> None then set_next (nprev n) (Some a) s else Some s);
          n \<leftarrow> nodes s a;
          (if nnext n \<noteq> None then set_prev (nnext n) (Some a) s else Some s) }"

definition listInsertNode :: "menv \<Rightarrow> 'v hilist \<Rightarrow> nat option \<Rightarrow> 'v \<Rightarrow> bool \<Rightarrow> 'v lheap \<Rightarrow> ('v hilist \<times> 'v lheap) ptr" where
  "listInsertNode e l old v after s =
     (if \<not> can_alloc e 24 then Null
      else
        (let a = lfresh s in
         or_crash
           (do { n \<leftarrow> deref old s;
                 (l, s) \<leftarrow>
                   Some (if after
                         then (if ltail l = old then l\<lparr>ltail := Some a\<rparr> else l, new_node old (nnext n) v s)
                         else (if lhead l = old then l\<lparr>lhead := Some a\<rparr> else l, new_node (nprev n) old v s));
                 s \<leftarrow> link_node a s;
                 Some (l\<lparr>llen := u64 (llen l + 1)\<rparr>, s) })))"

definition listDelNode :: "'v hilist \<Rightarrow> nat option \<Rightarrow> 'v lheap \<Rightarrow> ('v hilist \<times> 'v lheap) option" where
  "listDelNode l node s =
     do { a \<leftarrow> node; n \<leftarrow> nodes s a;
          (l, s) \<leftarrow>
            (if nprev n \<noteq> None then do { s \<leftarrow> set_next (nprev n) (nnext n) s; Some (l, s) }
             else Some (l\<lparr>lhead := nnext n\<rparr>, s));
          n \<leftarrow> nodes s a;
          (l, s) \<leftarrow>
            (if nnext n \<noteq> None then do { s \<leftarrow> set_prev (nnext n) (nprev n) s; Some (l, s) }
             else Some (l\<lparr>ltail := nprev n\<rparr>, s));
          Some (l\<lparr>llen := decr (llen l)\<rparr>, free_node a (free_value l (nvalue n) s)) }"

record listIter =
  li_next :: "nat option"
  li_head :: bool

definition listGetIterator :: "menv \<Rightarrow> 'v hilist \<Rightarrow> bool \<Rightarrow> listIter ptr" where
  "listGetIterator e l from_head =
     (if can_alloc e 16 then Ptr \<lparr>li_next = (if from_head then lhead l else ltail l), li_head = from_head\<rparr> else Null)"

definition listRewind :: "'v hilist \<Rightarrow> listIter" where
  "listRewind l = \<lparr>li_next = lhead l, li_head = True\<rparr>"

definition listRewindTail :: "'v hilist \<Rightarrow> listIter" where
  "listRewindTail l = \<lparr>li_next = ltail l, li_head = False\<rparr>"

definition listNext :: "listIter \<Rightarrow> 'v lheap \<Rightarrow> (listIter \<times> nat option) option" where
  "listNext it s =
     (case li_next it of
        None \<Rightarrow> Some (it, None)
      | Some a \<Rightarrow>
          do { n \<leftarrow> nodes s a; Some (it\<lparr>li_next := (if li_head it then nnext n else nprev n)\<rparr>, Some a) })"

text \<open>The loops over an iterator: \<^term>\<open>None\<close> when the list is cyclic and the loop does not end.\<close>

partial_function (option) dup_loop ::
  "menv \<Rightarrow> listIter \<Rightarrow> 'v hilist \<Rightarrow> 'v lheap \<Rightarrow> ('v hilist option \<times> 'v lheap) ptr option" where
  "dup_loop e it copy s =
     (case listNext it s of
        None \<Rightarrow> Some Crash
      | Some (it, None) \<Rightarrow> Some (Ptr (Some copy, s))
      | Some (it, Some a) \<Rightarrow>
          (case nodes s a of
             None \<Rightarrow> Some Crash
           | Some n \<Rightarrow>
               (case (case ldup copy of Some f \<Rightarrow> f (nvalue n) | None \<Rightarrow> Some (nvalue n)) of
                  None \<Rightarrow> Some (or_crash (map_option (Pair None) (listRelease copy s)))
                | Some v \<Rightarrow>
                    (case listAddNodeTail e copy v s of
                       Crash \<Rightarrow> Some Crash
                     | Null \<Rightarrow> Some (or_crash (map_option (Pair None) (listRelease copy s)))
                     | Ptr (copy, s) \<Rightarrow> dup_loop e it copy s))))"

definition listDup :: "menv \<Rightarrow> 'v hilist \<Rightarrow> 'v lheap \<Rightarrow> ('v hilist option \<times> 'v lheap) ptr option" where
  "listDup e l s =
     (case listCreate e of
        Ptr copy \<Rightarrow>
          (case listGetIterator e l True of
             Ptr it \<Rightarrow> dup_loop e it (copy\<lparr>ldup := ldup l, lfree := lfree l, lmatch := lmatch l\<rparr>) s
           | _ \<Rightarrow> Some Crash)
      | _ \<Rightarrow> Some (Ptr (None, s)))"

partial_function (option) search_loop :: "listIter \<Rightarrow> 'v hilist \<Rightarrow> 'v \<Rightarrow> 'v lheap \<Rightarrow> nat option ptr option" where
  "search_loop it l key s =
     (case listNext it s of
        None \<Rightarrow> Some Crash
      | Some (it, None) \<Rightarrow> Some (Ptr None)
      | Some (it, Some a) \<Rightarrow>
          (case nodes s a of
             None \<Rightarrow> Some Crash
           | Some n \<Rightarrow>
               if (case lmatch l of Some f \<Rightarrow> f (nvalue n) key | None \<Rightarrow> key = nvalue n)
               then Some (Ptr (Some a)) else search_loop it l key s))"

definition listSearchKey :: "menv \<Rightarrow> 'v hilist \<Rightarrow> 'v \<Rightarrow> 'v lheap \<Rightarrow> nat option ptr option" where
  "listSearchKey e l key s =
     (case listGetIterator e l True of Ptr it \<Rightarrow> search_loop it l key s | _ \<Rightarrow> Some Crash)"

fun walk :: "('v listNode \<Rightarrow> nat option) \<Rightarrow> nat \<Rightarrow> nat option \<Rightarrow> 'v lheap \<Rightarrow> nat option option" where
  "walk dir 0 p s = Some p"
| "walk dir (Suc i) None s = Some None"
| "walk dir (Suc i) (Some a) s = do { n \<leftarrow> nodes s a; walk dir i (dir n) s }"

definition listIndex :: "'v hilist \<Rightarrow> int \<Rightarrow> 'v lheap \<Rightarrow> nat option option" where
  "listIndex l index s =
     (if index < 0 then walk nprev (nat (- index - 1)) (ltail l) s else walk nnext (nat index) (lhead l) s)"

definition listRotate :: "'v hilist \<Rightarrow> 'v lheap \<Rightarrow> ('v hilist \<times> 'v lheap) option" where
  "listRotate l s =
     (if llen l \<le> 1 then Some (l, s)
      else
        do { n \<leftarrow> deref (ltail l) s;
             s \<leftarrow> set_next (nprev n) None s;
             s \<leftarrow> set_prev (lhead l) (ltail l) s;
             s \<leftarrow> set_prev (ltail l) None s;
             s \<leftarrow> set_next (ltail l) (lhead l) s;
             Some (l\<lparr>ltail := nprev n, lhead := ltail l\<rparr>, s) })"

section \<open>Segments\<close>

text \<open>A doubly linked segment: the address before it, its first address, the addresses and
  values in it, its last address, and the address after it.\<close>

primrec dseg :: "(nat \<rightharpoonup> 'v listNode) \<Rightarrow> nat option \<Rightarrow> nat option \<Rightarrow> (nat \<times> 'v) list \<Rightarrow> nat option \<Rightarrow> nat option \<Rightarrow> bool" where
  "dseg ns p h [] t q \<longleftrightarrow> h = q \<and> t = p"
| "dseg ns p h (x # xs) t q \<longleftrightarrow>
     h = Some (fst x) \<and> (\<exists>n. ns (fst x) = Some n \<and> nprev n = p \<and> nvalue n = snd x \<and> dseg ns (Some (fst x)) (nnext n) xs t q)"

abbreviation addrs_of :: "(nat \<times> 'v) list \<Rightarrow> nat set" where
  "addrs_of xs \<equiv> fst ` set xs"

lemma dseg_append: "dseg ns p h (xs @ ys) t q \<longleftrightarrow> (\<exists>k m. dseg ns p h xs k m \<and> dseg ns k m ys t q)"
  by (induction xs arbitrary: p h) auto

lemma dseg_frame: "a \<notin> addrs_of xs \<Longrightarrow> dseg (ns(a := n)) p h xs t q = dseg ns p h xs t q"
  by (induction xs arbitrary: p h) auto

lemma dseg_ends:
  "dseg ns p h xs t q \<Longrightarrow> h = (if xs = [] then q else Some (fst (hd xs))) \<and> t = (if xs = [] then p else Some (fst (last xs)))"
  by (induction xs arbitrary: p h) (auto split: if_splits)

text \<open>Changing the address after, and the address before, a segment.\<close>

lemma dseg_set_last:
  "dseg ns p h (xs @ [x]) t q \<Longrightarrow> distinct (map fst (xs @ [x])) \<Longrightarrow>
    \<exists>n. ns (fst x) = Some n \<and> nnext n = q \<and> t = Some (fst x) \<and> dseg (ns(fst x \<mapsto> n\<lparr>nnext := q'\<rparr>)) p h (xs @ [x]) t q'"
  by (auto simp: dseg_append dseg_frame)

lemma dseg_set_first:
  "dseg ns p h (x # xs) t q \<Longrightarrow> distinct (map fst (x # xs)) \<Longrightarrow>
    \<exists>n. ns (fst x) = Some n \<and> nprev n = p \<and> h = Some (fst x) \<and> dseg (ns(fst x \<mapsto> n\<lparr>nprev := p'\<rparr>)) p' h (x # xs) t q"
  by (auto simp: dseg_frame)

section \<open>Representation\<close>

definition list_rep :: "'v lheap \<Rightarrow> 'v hilist \<Rightarrow> (nat \<times> 'v) list \<Rightarrow> bool" where
  "list_rep s l xs \<longleftrightarrow> dseg (nodes s) None (lhead l) xs (ltail l) None \<and> distinct (map fst xs) \<and>
     llen l = length xs \<and> (\<forall>a \<in> addrs_of xs. a < lfresh s)"

text \<open>What an operation that works on some addresses leaves alone.\<close>

definition outside :: "nat set \<Rightarrow> 'v lheap \<Rightarrow> 'v lheap \<Rightarrow> bool" where
  "outside A s s' \<longleftrightarrow> (\<forall>b. b \<notin> A \<longrightarrow> nodes s' b = nodes s b)"

lemma dseg_outside: "outside A s s' \<Longrightarrow> A \<inter> addrs_of xs = {} \<Longrightarrow> dseg (nodes s') p h xs t q = dseg (nodes s) p h xs t q"
proof (induction xs arbitrary: p h)
  case (Cons x xs)
  then have "nodes s' (fst x) = nodes s (fst x)" "A \<inter> addrs_of xs = {}" by (auto simp: outside_def)
  then show ?case using Cons by simp
qed simp

text \<open>Setting the link after a segment that is not empty, and before one.\<close>

lemma set_after:
  assumes "dseg (nodes s) p h ys k m" "distinct (map fst ys)" "ys \<noteq> []"
  shows "\<exists>s'. set_next k q s = Some s' \<and> dseg (nodes s') p h ys k q \<and> outside (addrs_of ys) s s' \<and>
    lfresh s' = lfresh s \<and> lfreed s' = lfreed s"
proof -
  obtain zs x where ys: "ys = zs @ [x]" using assms(3) by (metis append_butlast_last_id)
  obtain n where n: "nodes s (fst x) = Some n" "k = Some (fst x)" "dseg ((nodes s)(fst x \<mapsto> n\<lparr>nnext := q\<rparr>)) p h ys k q"
    using dseg_set_last [of "nodes s" p h zs x k m q] assms ys by auto
  then show ?thesis using ys by (auto simp: set_node_def outside_def)
qed

lemma set_before:
  assumes "dseg (nodes s) k m zs t q" "distinct (map fst zs)" "zs \<noteq> []"
  shows "\<exists>s'. set_prev m p s = Some s' \<and> dseg (nodes s') p m zs t q \<and> outside (addrs_of zs) s s' \<and>
    lfresh s' = lfresh s \<and> lfreed s' = lfreed s"
proof -
  obtain x xs where zs: "zs = x # xs" using assms(3) by (cases zs) auto
  obtain n where n: "nodes s (fst x) = Some n" "m = Some (fst x)" "dseg ((nodes s)(fst x \<mapsto> n\<lparr>nprev := p\<rparr>)) p m zs t q"
    using dseg_set_first [of "nodes s" k m x xs t q p] assms zs by auto
  then show ?thesis using zs by (auto simp: set_node_def outside_def)
qed

text \<open>Two neighbouring segments joined through a node, or directly.\<close>

lemma join_segments:
  assumes "dseg (nodes s) None h ys k m'" "dseg (nodes s) k' m zs t None" "distinct (map fst (ys @ zs))"
  shows "\<exists>s1 s2. (if k \<noteq> None then set_next k q s else Some s) = Some s1 \<and>
    (if m \<noteq> None then set_prev m p s1 else Some s1) = Some s2 \<and>
    dseg (nodes s2) None (if ys = [] then q else h) ys k q \<and> dseg (nodes s2) p m zs (if zs = [] then p else t) None \<and>
    outside (addrs_of ys) s s1 \<and> outside (addrs_of (ys @ zs)) s s2 \<and> lfresh s2 = lfresh s \<and> lfreed s2 = lfreed s"
proof -
  have km: "k = (if ys = [] then None else Some (fst (last ys)))" "m = (if zs = [] then None else Some (fst (hd zs)))"
    using dseg_ends [OF assms(1)] dseg_ends [OF assms(2)] by auto
  have disj: "addrs_of ys \<inter> addrs_of zs = {}" using assms(3) by auto
  obtain s1 where s1: "(if k \<noteq> None then set_next k q s else Some s) = Some s1"
    "dseg (nodes s1) None (if ys = [] then q else h) ys k q" "outside (addrs_of ys) s s1" "lfresh s1 = lfresh s" "lfreed s1 = lfreed s"
  proof (cases "ys = []")
    case True
    then show ?thesis using that [of s] assms(1) km(1) by (simp add: outside_def)
  next
    case False
    then show ?thesis using that set_after [OF assms(1) _ False, of q] assms(3) km(1) by auto
  qed
  have z1: "dseg (nodes s1) k' m zs t None" using dseg_outside [OF s1(3) disj] assms(2) by blast
  obtain s2 where s2: "(if m \<noteq> None then set_prev m p s1 else Some s1) = Some s2"
    "dseg (nodes s2) p m zs (if zs = [] then p else t) None" "outside (addrs_of zs) s1 s2" "lfresh s2 = lfresh s1" "lfreed s2 = lfreed s1"
  proof (cases "zs = []")
    case True
    then show ?thesis using that [of s1] z1 km(2) by (simp add: outside_def)
  next
    case False
    then show ?thesis using that set_before [OF z1 _ False, of p] assms(3) km(2) by auto
  qed
  have "dseg (nodes s2) None (if ys = [] then q else h) ys k q"
    using dseg_outside [OF s2(3)] disj s1(2) by (metis Int_commute)
  moreover have "outside (addrs_of (ys @ zs)) s s2" using s1(3) s2(3) by (simp add: outside_def image_Un)
  ultimately show ?thesis using s1 s2 by auto
qed

section \<open>Adding\<close>

lemma insert_rep:
  assumes ok: "list_rep s l (ys @ zs)" and km: "dseg (nodes s) None (lhead l) ys k m" "dseg (nodes s) k m zs (ltail l) None"
    and n: "length (ys @ zs) < 18446744073709551615"
  shows "\<exists>s'. link_node (lfresh s) (new_node k m v s) = Some s' \<and>
    list_rep s' (l\<lparr>lhead := (if ys = [] then Some (lfresh s) else lhead l), ltail := (if zs = [] then Some (lfresh s) else ltail l),
      llen := u64 (llen l + 1)\<rparr>) (ys @ (lfresh s, v) # zs) \<and>
    outside (insert (lfresh s) (addrs_of (ys @ zs))) s s' \<and> lfresh s' = Suc (lfresh s) \<and> lfreed s' = lfreed s"
proof -
  let ?a = "lfresh s" and ?s = "new_node k m v s"
  have d0: "\<forall>b \<in> addrs_of (ys @ zs). b < ?a" using ok by (simp add: list_rep_def)
  then have "?a \<notin> addrs_of (ys @ zs)" by blast
  then have d: "distinct (map fst (ys @ zs))" "?a \<notin> addrs_of ys" "?a \<notin> addrs_of zs" "llen l = length (ys @ zs)"
    using ok by (auto simp: list_rep_def image_Un)
  have segs: "dseg (nodes ?s) None (lhead l) ys k m" "dseg (nodes ?s) k m zs (ltail l) None"
    using km d(2,3) by (simp_all add: new_node_def dseg_frame)
  obtain s1 s2 where j: "(if k \<noteq> None then set_next k (Some ?a) ?s else Some ?s) = Some s1"
    "(if m \<noteq> None then set_prev m (Some ?a) s1 else Some s1) = Some s2"
    "dseg (nodes s2) None (if ys = [] then Some ?a else lhead l) ys k (Some ?a)"
    "dseg (nodes s2) (Some ?a) m zs (if zs = [] then Some ?a else ltail l) None"
    "outside (addrs_of ys) ?s s1" "outside (addrs_of (ys @ zs)) ?s s2" "lfresh s2 = lfresh ?s" "lfreed s2 = lfreed ?s"
    using join_segments [OF segs d(1), of "Some ?a" "Some ?a"] by blast
  have a: "nodes ?s ?a = Some \<lparr>nprev = k, nnext = m, nvalue = v\<rparr>" by (simp add: new_node_def)
  moreover have "nodes s1 ?a = nodes ?s ?a" "nodes s2 ?a = nodes ?s ?a" using j(5,6) d(2,3) by (auto simp: outside_def)
  ultimately have n1: "nodes s1 ?a = Some \<lparr>nprev = k, nnext = m, nvalue = v\<rparr>" and n2: "nodes s2 ?a = Some \<lparr>nprev = k, nnext = m, nvalue = v\<rparr>"
    by simp_all
  have "link_node ?a ?s = do { s \<leftarrow> (if k \<noteq> None then set_next k (Some ?a) ?s else Some ?s); n \<leftarrow> nodes s ?a;
      (if nnext n \<noteq> None then set_prev (nnext n) (Some ?a) s else Some s) }"
    unfolding link_node_def a by simp
  then have link: "link_node ?a ?s = Some s2" unfolding j(1) using n1 j(2) by (simp split: if_splits)
  have out: "outside (insert ?a (addrs_of (ys @ zs))) s s2" using j(6) by (simp add: outside_def new_node_def)
  have "dseg (nodes s2) None (if ys = [] then Some ?a else lhead l) (ys @ (?a, v) # zs) (if zs = [] then Some ?a else ltail l) None"
    unfolding dseg_append using j(3,4) n2 by (intro exI [of _ k] exI [of _ "Some ?a"]) simp
  moreover have "u64 (llen l + 1) = length (ys @ (?a, v) # zs)" using d(4) n by (simp add: u64_def)
  moreover have "distinct (map fst (ys @ (?a, v) # zs))" using d(1-3) by simp
  moreover have "\<forall>b \<in> addrs_of (ys @ (?a, v) # zs). b < lfresh s2"
  proof
    fix b
    assume "b \<in> addrs_of (ys @ (?a, v) # zs)"
    then have "b = ?a \<or> b \<in> addrs_of (ys @ zs)" by auto
    then have "b < Suc ?a" using d0 less_SucI by blast
    then show "b < lfresh s2" using j(7) by (simp add: new_node_def)
  qed
  ultimately show ?thesis using link out j(7,8) by (intro exI [of _ s2]) (simp add: list_rep_def new_node_def)
qed

lemma rep_split:
  assumes "list_rep s l (ys @ zs)"
  obtains k m where "dseg (nodes s) None (lhead l) ys k m" "dseg (nodes s) k m zs (ltail l) None"
    "k = (if ys = [] then None else Some (fst (last ys)))" "m = (if zs = [] then None else Some (fst (hd zs)))"
proof -
  obtain k m where km: "dseg (nodes s) None (lhead l) ys k m" "dseg (nodes s) k m zs (ltail l) None"
    using assms by (auto simp: list_rep_def dseg_append)
  then show ?thesis using that dseg_ends [OF km(1)] dseg_ends [OF km(2)] by auto
qed

lemma rep_ends:
  assumes "list_rep s l xs"
  shows "lhead l = (if xs = [] then None else Some (fst (hd xs)))" "ltail l = (if xs = [] then None else Some (fst (last xs)))"
  using assms dseg_ends [of "nodes s" None "lhead l" xs "ltail l" None] by (simp_all add: list_rep_def)

lemma add_head_rep:
  assumes "list_rep s l xs" "length xs < 18446744073709551615" "\<And>n. can_alloc e n"
  shows "\<exists>l' s'. listAddNodeHead e l v s = Ptr (l', s') \<and> list_rep s' l' ((lfresh s, v) # xs) \<and>
    outside (insert (lfresh s) (addrs_of xs)) s s' \<and> lfresh s' = Suc (lfresh s) \<and> lfreed s' = lfreed s \<and>
    ldup l' = ldup l \<and> lfree l' = lfree l \<and> lmatch l' = lmatch l"
proof -
  let ?a = "lfresh s"
  have h: "lhead l = (if xs = [] then None else Some (fst (hd xs)))" "ltail l = (if xs = [] then None else Some (fst (last xs)))"
    using rep_ends [OF assms(1)] .
  have segs: "dseg (nodes s) None (lhead l) [] None (lhead l)" "dseg (nodes s) None (lhead l) xs (ltail l) None"
    using assms(1) by (simp_all add: list_rep_def)
  obtain s' where s': "link_node ?a (new_node None (lhead l) v s) = Some s'"
    "list_rep s' (l\<lparr>lhead := Some ?a, ltail := (if xs = [] then Some ?a else ltail l), llen := u64 (llen l + 1)\<rparr>) ((?a, v) # xs)"
    "outside (insert ?a (addrs_of xs)) s s'" "lfresh s' = Suc ?a" "lfreed s' = lfreed s"
    using insert_rep [of s l "[]" xs None "lhead l" v] assms(1,2) segs by auto
  have n: "nodes (new_node None (lhead l) v s) ?a = Some \<lparr>nprev = None, nnext = lhead l, nvalue = v\<rparr>" by (simp add: new_node_def)
  have "llen l = 0 \<longleftrightarrow> xs = []" using assms(1) by (simp add: list_rep_def)
  then have "listAddNodeHead e l v s = Ptr (l\<lparr>lhead := Some ?a, ltail := (if xs = [] then Some ?a else ltail l), llen := u64 (llen l + 1)\<rparr>, s')"
    using s'(1) h assms(3) n
    by (cases "xs = []") (simp_all add: listAddNodeHead_def link_node_def or_crash_def Let_def)
  then show ?thesis using s' by auto
qed

lemma add_tail_rep:
  assumes "list_rep s l xs" "length xs < 18446744073709551615" "\<And>n. can_alloc e n"
  shows "\<exists>l' s'. listAddNodeTail e l v s = Ptr (l', s') \<and> list_rep s' l' (xs @ [(lfresh s, v)]) \<and>
    outside (insert (lfresh s) (addrs_of xs)) s s' \<and> lfresh s' = Suc (lfresh s) \<and> lfreed s' = lfreed s \<and>
    ldup l' = ldup l \<and> lfree l' = lfree l \<and> lmatch l' = lmatch l"
proof -
  let ?a = "lfresh s"
  have h: "lhead l = (if xs = [] then None else Some (fst (hd xs)))" "ltail l = (if xs = [] then None else Some (fst (last xs)))"
    using rep_ends [OF assms(1)] .
  have segs: "dseg (nodes s) None (lhead l) xs (ltail l) None" "dseg (nodes s) (ltail l) None [] (ltail l) None"
    using assms(1) by (simp_all add: list_rep_def)
  obtain s' where s': "link_node ?a (new_node (ltail l) None v s) = Some s'"
    "list_rep s' (l\<lparr>lhead := (if xs = [] then Some ?a else lhead l), ltail := Some ?a, llen := u64 (llen l + 1)\<rparr>) (xs @ [(?a, v)])"
    "outside (insert ?a (addrs_of xs)) s s'" "lfresh s' = Suc ?a" "lfreed s' = lfreed s"
    using insert_rep [of s l xs "[]" "ltail l" None v] assms(1,2) segs by auto
  have a: "?a \<notin> addrs_of xs" using assms(1) by (auto simp: list_rep_def)
  have n: "nodes (new_node (ltail l) None v s) ?a = Some \<lparr>nprev = ltail l, nnext = None, nvalue = v\<rparr>" by (simp add: new_node_def)
  have "llen l = 0 \<longleftrightarrow> xs = []" using assms(1) by (simp add: list_rep_def)
  then have "listAddNodeTail e l v s = Ptr (l\<lparr>lhead := (if xs = [] then Some ?a else lhead l), ltail := Some ?a, llen := u64 (llen l + 1)\<rparr>, s')"
  proof (cases "xs = []")
    case True
    then show ?thesis using s'(1) h assms(1,3) n by (simp add: listAddNodeTail_def link_node_def or_crash_def Let_def list_rep_def)
  next
    case False
    have "fst (last xs) \<noteq> ?a" using a False by (metis imageI last_in_set)
    then show ?thesis using s'(1) h assms(1,3) n False
      by (auto simp: listAddNodeTail_def link_node_def or_crash_def Let_def list_rep_def set_node_def bind_eq_Some_conv)
  qed
  then show ?thesis using s' by auto
qed

text \<open>Inserting next to a node of the list.\<close>

lemma insert_node_rep:
  assumes "list_rep s l (ys @ (b, w) # zs)" "length (ys @ zs) < 18446744073709551614" "\<And>n. can_alloc e n"
  shows "\<exists>l' s'. listInsertNode e l (Some b) v after s = Ptr (l', s') \<and>
    list_rep s' l' (if after then ys @ (b, w) # (lfresh s, v) # zs else ys @ (lfresh s, v) # (b, w) # zs) \<and>
    lfreed s' = lfreed s \<and> lfree l' = lfree l"
proof -
  let ?a = "lfresh s"
  obtain k m where km0: "dseg (nodes s) None (lhead l) ys k m" "dseg (nodes s) k m ((b, w) # zs) (ltail l) None"
    by (rule rep_split [OF assms(1)])
  then have km: "dseg (nodes s) None (lhead l) ys k (Some b)" "dseg (nodes s) k (Some b) ((b, w) # zs) (ltail l) None" by auto
  obtain n where n: "nodes s b = Some n" "nprev n = k" "nvalue n = w" "dseg (nodes s) (Some b) (nnext n) zs (ltail l) None"
    using km(2) by auto
  have d: "distinct (map fst (ys @ (b, w) # zs))" using assms(1) by (simp add: list_rep_def)
  have ends: "lhead l = Some b \<longleftrightarrow> ys = []" "ltail l = Some b \<longleftrightarrow> zs = []"
    using rep_ends [OF assms(1)] d by (auto simp: hd_append split: if_splits dest: hd_in_set last_in_set)
  show ?thesis
  proof (cases after)
    case True
    have 1: "dseg (nodes s) None (lhead l) (ys @ [(b, w)]) (Some b) (nnext n)"
      unfolding dseg_append using km(1) n by (intro exI [of _ k] exI [of _ "Some b"]) simp
    obtain s' where "link_node ?a (new_node (Some b) (nnext n) v s) = Some s'"
      "list_rep s' (l\<lparr>lhead := lhead l, ltail := (if zs = [] then Some ?a else ltail l), llen := u64 (llen l + 1)\<rparr>)
        ((ys @ [(b, w)]) @ (?a, v) # zs)" "lfreed s' = lfreed s"
      using insert_rep [OF _ 1 n(4), of v] assms(1,2) by auto
    then show ?thesis using True n(1) ends(2) assms(3)
      by (auto simp: listInsertNode_def deref_def or_crash_def Let_def list_rep_def)
  next
    case False
    obtain s' where "link_node ?a (new_node k (Some b) v s) = Some s'"
      "list_rep s' (l\<lparr>lhead := (if ys = [] then Some ?a else lhead l), ltail := ltail l, llen := u64 (llen l + 1)\<rparr>)
        (ys @ (?a, v) # (b, w) # zs)" "lfreed s' = lfreed s"
      using insert_rep [OF assms(1) km, of v] assms(2) by auto
    then show ?thesis using False n(1,2) ends(1) assms(3)
      by (auto simp: listInsertNode_def deref_def or_crash_def Let_def list_rep_def)
  qed
qed

section \<open>Removing\<close>

lemma free_value_sel [simp]: "nodes (free_value l v s) = nodes s" "lfresh (free_value l v s) = lfresh s"
  "lfreed (free_value l v s) = lfreed s @ (if lfree l then [v] else [])"
  by (simp_all add: free_value_def)

lemma free_node_sel [simp]: "nodes (free_node a s) = (nodes s)(a := None)" "lfresh (free_node a s) = lfresh s"
  "lfreed (free_node a s) = lfreed s"
  by (simp_all add: free_node_def)

lemma del_node_rep:
  assumes "list_rep s l (ys @ (a, v) # zs)" "length (ys @ zs) < 18446744073709551615"
  shows "\<exists>l' s'. listDelNode l (Some a) s = Some (l', s') \<and> list_rep s' l' (ys @ zs) \<and> nodes s' a = None \<and>
    lfreed s' = lfreed s @ (if lfree l then [v] else []) \<and> lfree l' = lfree l \<and> lfresh s' = lfresh s"
proof -
  obtain k m0 where km0: "dseg (nodes s) None (lhead l) ys k m0" "dseg (nodes s) k m0 ((a, v) # zs) (ltail l) None"
    by (rule rep_split [OF assms(1)])
  then obtain n where n: "nodes s a = Some n" "nprev n = k" "nvalue n = v" "dseg (nodes s) (Some a) (nnext n) zs (ltail l) None"
    by auto
  have d: "distinct (map fst (ys @ zs))" "a \<notin> addrs_of ys" "a \<notin> addrs_of zs" "llen l = Suc (length (ys @ zs))"
    "\<forall>b \<in> addrs_of (ys @ zs). b < lfresh s"
    using assms(1) by (auto simp: list_rep_def)
  have km: "k = (if ys = [] then None else Some (fst (last ys)))" "nnext n = (if zs = [] then None else Some (fst (hd zs)))"
    using dseg_ends [OF km0(1)] dseg_ends [OF n(4)] by auto
  obtain s1 s2 where j: "(if k \<noteq> None then set_next k (nnext n) s else Some s) = Some s1"
    "(if nnext n \<noteq> None then set_prev (nnext n) k s1 else Some s1) = Some s2"
    "dseg (nodes s2) None (if ys = [] then nnext n else lhead l) ys k (nnext n)"
    "dseg (nodes s2) k (nnext n) zs (if zs = [] then k else ltail l) None"
    "outside (addrs_of ys) s s1" "outside (addrs_of (ys @ zs)) s s2" "lfresh s2 = lfresh s" "lfreed s2 = lfreed s"
    using join_segments [OF km0(1) n(4) d(1), of "nnext n" k] by blast
  have n1: "nodes s1 a = Some n" using j(5) d(2) n(1) by (simp add: outside_def)
  define l' where "l' = l\<lparr>lhead := (if ys = [] then nnext n else lhead l), ltail := (if zs = [] then k else ltail l), llen := length (ys @ zs)\<rparr>"
  define s' where "s' = free_node a (free_value l v s2)"
  have dec: "decr (llen l) = length (ys @ zs)" using d(4) assms(2) by (simp add: decr_def u64_def)
  have "listDelNode l (Some a) s = Some (l', s')"
  proof -
    have "free_value (l\<lparr>lhead := x, ltail := y\<rparr>) v s2 = free_value l v s2" "free_value (l\<lparr>lhead := x\<rparr>) v s2 = free_value l v s2"
      "free_value (l\<lparr>ltail := y\<rparr>) v s2 = free_value l v s2" for x y by (simp_all add: free_value_def)
    then show ?thesis
      using j(1,2) n n1 km dec by (cases "ys = []"; cases "zs = []") (simp_all add: listDelNode_def l'_def s'_def)
  qed
  moreover have "dseg (nodes s') None (lhead l') (ys @ zs) (ltail l') None"
    unfolding dseg_append using j(3,4) d(2,3) by (intro exI [of _ k] exI [of _ "nnext n"]) (simp add: s'_def l'_def dseg_frame)
  ultimately show ?thesis using d(1,5) j(7,8)
    by (intro exI [of _ l'] exI [of _ s']) (simp add: list_rep_def l'_def s'_def)
qed

lemma rotate_rep:
  assumes "list_rep s l (ys @ [(a, v)])"
  shows "\<exists>l' s'. listRotate l s = Some (l', s') \<and> list_rep s' l' ((a, v) # ys) \<and> lfreed s' = lfreed s \<and> lfree l' = lfree l"
proof (cases "ys = []")
  case True
  then show ?thesis using assms by (simp add: listRotate_def list_rep_def)
next
  case False
  obtain k m0 where km0: "dseg (nodes s) None (lhead l) ys k m0" "dseg (nodes s) k m0 [(a, v)] (ltail l) None"
    by (rule rep_split [OF assms])
  then obtain n where n: "nodes s a = Some n" "nprev n = k" "nvalue n = v" "ltail l = Some a" by auto
  have d: "distinct (map fst ys)" "a \<notin> addrs_of ys" "llen l = Suc (length ys)"
    "\<forall>b \<in> addrs_of (ys @ [(a, v)]). b < lfresh s"
    using assms by (auto simp: list_rep_def)
  obtain s1 where s1: "set_next k None s = Some s1" "dseg (nodes s1) None (lhead l) ys k None" "outside (addrs_of ys) s s1"
    "lfresh s1 = lfresh s" "lfreed s1 = lfreed s"
    using set_after [OF km0(1) d(1) False, of None] by blast
  obtain s2 where s2: "set_prev (lhead l) (Some a) s1 = Some s2" "dseg (nodes s2) (Some a) (lhead l) ys k None"
    "outside (addrs_of ys) s1 s2" "lfresh s2 = lfresh s1" "lfreed s2 = lfreed s1"
    using set_before [OF s1(2) d(1) False, of "Some a"] by blast
  have a: "nodes s2 a = Some n" using s1(3) s2(3) d(2) n(1) by (simp add: outside_def)
  define s3 where "s3 = s2\<lparr>nodes := (nodes s2)(a \<mapsto> n\<lparr>nprev := None, nnext := lhead l\<rparr>)\<rparr>"
  define l' where "l' = l\<lparr>ltail := k, lhead := Some a\<rparr>"
  have "listRotate l s = Some (l', s3)"
    using s1(1) s2(1) n a d(3) False by (simp add: listRotate_def deref_def set_node_def [of "Some a"] s3_def l'_def)
  moreover have "dseg (nodes s3) None (lhead l') ((a, v) # ys) (ltail l') None"
    using s2(2) d(2) n(3) by (simp add: s3_def l'_def dseg_frame)
  ultimately show ?thesis using d s1(4,5) s2(4,5)
    by (intro exI [of _ l'] exI [of _ s3]) (simp add: list_rep_def l'_def s3_def)
qed

lemma release_loop_rep:
  assumes "dseg (nodes s) p h xs t None" "distinct (map fst xs)"
  shows "\<exists>s'. release_loop l (length xs) h s = Some s' \<and> (\<forall>a \<in> addrs_of xs. nodes s' a = None) \<and> outside (addrs_of xs) s s' \<and>
    lfresh s' = lfresh s \<and> lfreed s' = lfreed s @ (if lfree l then map snd xs else [])"
  using assms
proof (induction xs arbitrary: p h s)
  case (Cons x xs)
  obtain n where n: "h = Some (fst x)" "nodes s (fst x) = Some n" "nvalue n = snd x" "dseg (nodes s) (Some (fst x)) (nnext n) xs t None"
    using Cons.prems(1) by auto
  let ?s = "free_node (fst x) (free_value l (snd x) s)"
  have x: "fst x \<notin> addrs_of xs" using Cons.prems(2) by simp
  have "dseg (nodes ?s) (Some (fst x)) (nnext n) xs t None" using n(4) x by (simp add: dseg_frame)
  from Cons.IH [OF this] obtain s' where s': "release_loop l (length xs) (nnext n) ?s = Some s'" "\<forall>a \<in> addrs_of xs. nodes s' a = None"
    "outside (addrs_of xs) ?s s'" "lfresh s' = lfresh s" "lfreed s' = lfreed ?s @ (if lfree l then map snd xs else [])"
    using Cons.prems(2) by auto
  have "nodes s' (fst x) = None" using s'(3) x by (simp add: outside_def)
  then show ?case using n s' by (intro exI [of _ s']) (auto simp: outside_def)
qed (simp add: outside_def)

lemma release_rep:
  assumes "list_rep s l xs"
  shows "\<exists>s'. listRelease l s = Some s' \<and> (\<forall>a \<in> addrs_of xs. nodes s' a = None) \<and> outside (addrs_of xs) s s' \<and>
    lfresh s' = lfresh s \<and> lfreed s' = lfreed s @ (if lfree l then map snd xs else [])"
proof -
  have a: "dseg (nodes s) None (lhead l) xs (ltail l) None" "distinct (map fst xs)" "llen l = length xs"
    using assms by (simp_all add: list_rep_def)
  show ?thesis using release_loop_rep [OF a(1,2), of l] by (simp add: listRelease_def a(3))
qed

section \<open>Finding\<close>

lemma walk_forward:
  "dseg (nodes s) p h xs t None \<Longrightarrow> walk nnext i h s = Some (if i < length xs then Some (fst (xs ! i)) else None)"
proof (induction xs arbitrary: p h i)
  case Nil
  then show ?case by (cases i) auto
next
  case (Cons x xs)
  then show ?case by (cases i) auto
qed

lemma walk_backward:
  "dseg (nodes s) None h xs t q \<Longrightarrow> walk nprev i t s = Some (if i < length xs then Some (fst (rev xs ! i)) else None)"
proof (induction xs arbitrary: t q i rule: rev_induct)
  case Nil
  then show ?case by (cases i) auto
next
  case (snoc x xs)
  obtain k where "dseg (nodes s) None h xs k (Some (fst x))" "t = Some (fst x)" "\<exists>n. nodes s (fst x) = Some n \<and> nprev n = k"
    using snoc.prems by (auto simp: dseg_append)
  then show ?case using snoc.IH by (cases i) auto
qed

lemma index_rep:
  assumes "list_rep s l xs"
  shows "listIndex l i s = Some (let j = (if i < 0 then int (length xs) + i else i) in
    if 0 \<le> j \<and> j < int (length xs) then Some (fst (xs ! nat j)) else None)"
proof -
  have d: "dseg (nodes s) None (lhead l) xs (ltail l) None" using assms by (simp add: list_rep_def)
  have r: "rev xs ! nat (- i - 1) = xs ! nat (int (length xs) + i)" if "i < 0" "- i - 1 < int (length xs)"
  proof -
    have "length xs - Suc (nat (- i - 1)) = nat (int (length xs) + i)" using that by simp
    then show ?thesis using that by (simp add: rev_nth)
  qed
  show ?thesis
    using walk_forward [OF d, of "nat i"] walk_backward [OF d, of "nat (- i - 1)"] r by (auto simp: listIndex_def Let_def)
qed

definition list_match :: "'v hilist \<Rightarrow> 'v \<Rightarrow> 'v \<Rightarrow> bool" where
  "list_match l key v = (case lmatch l of Some f \<Rightarrow> f v key | None \<Rightarrow> key = v)"

lemma search_loop_rep:
  "dseg (nodes s) p h xs t None \<Longrightarrow>
    search_loop \<lparr>li_next = h, li_head = True\<rparr> l key s = Some (Ptr (map_option fst (find (\<lambda>x. list_match l key (snd x)) xs)))"
proof (induction xs arbitrary: p h)
  case Nil
  then show ?case by (subst search_loop.simps) (simp add: listNext_def)
next
  case (Cons x xs)
  then obtain n where n: "h = Some (fst x)" "nodes s (fst x) = Some n" "nvalue n = snd x" "dseg (nodes s) (Some (fst x)) (nnext n) xs t None"
    by auto
  then show ?case using Cons.IH [OF n(4)]
    by (subst search_loop.simps) (simp add: listNext_def list_match_def cong: option.case_cong)
qed

section \<open>Copying\<close>

definition dup_value :: "'v hilist \<Rightarrow> 'v \<Rightarrow> 'v option" where
  "dup_value l v = (case ldup l of Some f \<Rightarrow> f v | None \<Rightarrow> Some v)"

lemma dup_loop_rep:
  assumes "dseg (nodes s) p h xs t None" "list_rep s copy ys" "addrs_of ys \<inter> addrs_of xs = {}" "\<forall>a \<in> addrs_of xs. a < lfresh s"
    "length xs + length ys < 18446744073709551615" "\<And>n. can_alloc e n"
  shows "\<exists>r s'. dup_loop e \<lparr>li_next = h, li_head = True\<rparr> copy s = Some (Ptr (r, s')) \<and>
    (\<forall>a < lfresh s. a \<notin> addrs_of ys \<longrightarrow> nodes s' a = nodes s a) \<and>
    (case those (map (\<lambda>x. dup_value copy (snd x)) xs) of
       None \<Rightarrow> r = None
     | Some vs \<Rightarrow> \<exists>copy' zs. r = Some copy' \<and> list_rep s' copy' (ys @ zs) \<and> map snd zs = vs)"
  using assms
proof (induction xs arbitrary: p h s copy ys)
  case Nil
  then show ?case by (subst dup_loop.simps) (auto simp: listNext_def)
next
  case (Cons x xs)
  obtain n where n: "h = Some (fst x)" "nodes s (fst x) = Some n" "nvalue n = snd x" "dseg (nodes s) (Some (fst x)) (nnext n) xs t None"
    using Cons.prems(1) by auto
  let ?it = "\<lparr>li_next = nnext n, li_head = True\<rparr>"
  have nx: "listNext \<lparr>li_next = h, li_head = True\<rparr> s = Some (?it, Some (fst x))" using n(1,2) by (simp add: listNext_def)
  show ?case
  proof (cases "dup_value copy (snd x)")
    case None
    obtain s' where s': "listRelease copy s = Some s'" "outside (addrs_of ys) s s'" using release_rep [OF Cons.prems(2)] by blast
    have "dup_loop e \<lparr>li_next = h, li_head = True\<rparr> copy s = Some (Ptr (None, s'))"
      using nx n None s'(1) by (subst dup_loop.simps) (simp add: dup_value_def or_crash_def cong: option.case_cong)
    then show ?thesis using None s'(2) by (simp add: outside_def)
  next
    case (Some v)
    obtain c1 s1 where c1: "listAddNodeTail e copy v s = Ptr (c1, s1)" "list_rep s1 c1 (ys @ [(lfresh s, v)])"
      "outside (insert (lfresh s) (addrs_of ys)) s s1" "lfresh s1 = Suc (lfresh s)" "ldup c1 = ldup copy"
      using add_tail_rep [OF Cons.prems(2) _ Cons.prems(6), of v] Cons.prems(5) by auto
    have loop: "dup_loop e \<lparr>li_next = h, li_head = True\<rparr> copy s = dup_loop e ?it c1 s1"
      using nx n Some c1(1) by (subst dup_loop.simps) (simp add: dup_value_def cong: option.case_cong)
    have "insert (lfresh s) (addrs_of ys) \<inter> addrs_of xs = {}" using Cons.prems(3,4) by auto
    then have d1: "dseg (nodes s1) (Some (fst x)) (nnext n) xs t None" "addrs_of (ys @ [(lfresh s, v)]) \<inter> addrs_of xs = {}"
      using dseg_outside [OF c1(3)] n(4) by auto
    have "\<forall>a \<in> addrs_of xs. a < lfresh s1" using Cons.prems(4) c1(4) by auto
    from Cons.IH [OF d1(1) c1(2) d1(2) this _ Cons.prems(6)] Cons.prems(5) obtain r s' where
      r: "dup_loop e ?it c1 s1 = Some (Ptr (r, s'))" "\<forall>a < lfresh s1. a \<notin> addrs_of (ys @ [(lfresh s, v)]) \<longrightarrow> nodes s' a = nodes s1 a"
      "case those (map (\<lambda>x. dup_value c1 (snd x)) xs) of None \<Rightarrow> r = None
       | Some vs \<Rightarrow> \<exists>copy' zs. r = Some copy' \<and> list_rep s' copy' ((ys @ [(lfresh s, v)]) @ zs) \<and> map snd zs = vs"
      by auto
    have "nodes s' a = nodes s a" if "a < lfresh s" "a \<notin> addrs_of ys" for a
      using r(2) c1(3,4) that by (auto simp: outside_def)
    moreover have "dup_value c1 = dup_value copy" using c1(5) by (simp add: dup_value_def fun_eq_iff)
    ultimately show ?thesis using loop r(1,3) Some
      by (auto split: option.splits) (metis append.assoc append_Cons append_Nil list.simps(9) snd_conv)
  qed
qed

section \<open>Lists of values\<close>

datatype 'v lop = LHead 'v | LTail 'v | LInsert int bool 'v | LDelete int | LRotate

text \<open>An operation, at the node with a given index where it needs one.\<close>

definition at_index :: "(nat option \<Rightarrow> ('v hilist \<times> 'v lheap) option) \<Rightarrow> int \<Rightarrow> 'v hilist \<Rightarrow> 'v lheap \<Rightarrow> ('v hilist \<times> 'v lheap) option" where
  "at_index f i l s =
     do { p \<leftarrow> listIndex l i s; (case p of None \<Rightarrow> Some (l, s) | Some a \<Rightarrow> f p) }"

fun list_op :: "menv \<Rightarrow> 'v lop \<Rightarrow> 'v hilist \<Rightarrow> 'v lheap \<Rightarrow> ('v hilist \<times> 'v lheap) option" where
  "list_op e (LHead v) l s = (case listAddNodeHead e l v s of Ptr r \<Rightarrow> Some r | _ \<Rightarrow> None)"
| "list_op e (LTail v) l s = (case listAddNodeTail e l v s of Ptr r \<Rightarrow> Some r | _ \<Rightarrow> None)"
| "list_op e (LInsert i after v) l s =
     at_index (\<lambda>p. case listInsertNode e l p v after s of Ptr r \<Rightarrow> Some r | _ \<Rightarrow> None) i l s"
| "list_op e (LDelete i) l s = at_index (\<lambda>p. listDelNode l p s) i l s"
| "list_op e LRotate l s = listRotate l s"

fun list_ops :: "menv \<Rightarrow> 'v lop list \<Rightarrow> 'v hilist \<Rightarrow> 'v lheap \<Rightarrow> ('v hilist \<times> 'v lheap) option" where
  "list_ops e [] l s = Some (l, s)"
| "list_ops e (x # xs) l s = do { (l, s) \<leftarrow> list_op e x l s; list_ops e xs l s }"

definition value_at :: "'v hilist \<Rightarrow> int \<Rightarrow> 'v lheap \<Rightarrow> 'v option" where
  "value_at l i s = do { p \<leftarrow> listIndex l i s; n \<leftarrow> deref p s; Some (nvalue n) }"

text \<open>The same operations on a list of values.\<close>

definition position :: "int \<Rightarrow> 'v list \<Rightarrow> nat option" where
  "position i vs =
     (let j = (if i < 0 then int (length vs) + i else i) in if 0 \<le> j \<and> j < int (length vs) then Some (nat j) else None)"

fun abs_lop :: "'v lop \<Rightarrow> 'v list \<Rightarrow> 'v list" where
  "abs_lop (LHead v) vs = v # vs"
| "abs_lop (LTail v) vs = vs @ [v]"
| "abs_lop (LInsert i after v) vs =
     (case position i vs of
        None \<Rightarrow> vs
      | Some j \<Rightarrow> if after then take (Suc j) vs @ v # drop (Suc j) vs else take j vs @ v # drop j vs)"
| "abs_lop (LDelete i) vs = (case position i vs of None \<Rightarrow> vs | Some j \<Rightarrow> take j vs @ drop (Suc j) vs)"
| "abs_lop LRotate vs = (if vs = [] then [] else last vs # butlast vs)"

lemma index_position:
  "list_rep s l xs \<Longrightarrow> listIndex l i s = Some (map_option (\<lambda>j. fst (xs ! j)) (position i (map snd xs)))"
  by (simp add: index_rep position_def Let_def)

lemma position_less: "position i vs = Some j \<Longrightarrow> j < length vs"
  by (auto simp: position_def Let_def split: if_splits)

lemma list_op_rep:
  assumes "list_rep s l xs" "length xs < 18446744073709551614" "\<And>n. can_alloc e n"
  shows "\<exists>l' s' xs'. list_op e x l s = Some (l', s') \<and> list_rep s' l' xs' \<and> map snd xs' = abs_lop x (map snd xs)"
proof (cases x)
  case (LHead v)
  then show ?thesis using add_head_rep [OF assms(1) _ assms(3), of v] assms(2) by fastforce
next
  case (LTail v)
  then show ?thesis using add_tail_rep [OF assms(1) _ assms(3), of v] assms(2) by fastforce
next
  case (LInsert i after v)
  show ?thesis
  proof (cases "position i (map snd xs)")
    case None
    then show ?thesis using LInsert assms(1) index_position [OF assms(1), of i] by (auto simp: at_index_def)
  next
    case (Some j)
    then have j: "j < length xs" using position_less by force
    let ?ys = "take j xs" and ?zs = "drop (Suc j) xs"
    have xs: "?ys @ (fst (xs ! j), snd (xs ! j)) # ?zs = xs" using id_take_nth_drop [OF j] by simp
    have "list_rep s l (?ys @ (fst (xs ! j), snd (xs ! j)) # ?zs)" unfolding xs by (rule assms(1))
    moreover have "length (?ys @ ?zs) < 18446744073709551614" using assms(2) j by simp
    ultimately obtain l' s' where
      "listInsertNode e l (Some (fst (xs ! j))) v after s = Ptr (l', s')"
      "list_rep s' l' (if after then ?ys @ (fst (xs ! j), snd (xs ! j)) # (lfresh s, v) # ?zs
        else ?ys @ (lfresh s, v) # (fst (xs ! j), snd (xs ! j)) # ?zs)"
      using insert_node_rep [OF _ _ assms(3), of s l ?ys "fst (xs ! j)" "snd (xs ! j)" ?zs v after] by auto
    moreover have "take (Suc j) (map snd xs) = map snd ?ys @ [snd (xs ! j)]" "drop j (map snd xs) = snd (xs ! j) # map snd ?zs"
      using j by (simp_all add: take_Suc_conv_app_nth Cons_nth_drop_Suc [symmetric] take_map drop_map)
    ultimately show ?thesis using LInsert Some index_position [OF assms(1), of i]
      by (cases after) (fastforce simp: at_index_def take_map drop_map)+
  qed
next
  case (LDelete i)
  show ?thesis
  proof (cases "position i (map snd xs)")
    case None
    then show ?thesis using LDelete assms(1) index_position [OF assms(1), of i] by (auto simp: at_index_def)
  next
    case (Some j)
    then have j: "j < length xs" using position_less by force
    have xs: "take j xs @ (fst (xs ! j), snd (xs ! j)) # drop (Suc j) xs = xs" using id_take_nth_drop [OF j] by simp
    have r: "list_rep s l (take j xs @ (fst (xs ! j), snd (xs ! j)) # drop (Suc j) xs)" unfolding xs by (rule assms(1))
    have "length (take j xs @ drop (Suc j) xs) < 18446744073709551615" using assms(2) j by simp
    from del_node_rep [OF r this] obtain l' s' where
      d: "listDelNode l (Some (fst (xs ! j))) s = Some (l', s')" "list_rep s' l' (take j xs @ drop (Suc j) xs)" by blast
    have "list_op e x l s = Some (l', s')" using LDelete Some index_position [OF assms(1), of i] d(1) by (simp add: at_index_def)
    moreover have "map snd (take j xs @ drop (Suc j) xs) = abs_lop x (map snd xs)" using LDelete Some by (simp add: take_map drop_map)
    ultimately show ?thesis using d(2) by blast
  qed
next
  case LRotate
  show ?thesis
  proof (cases "xs = []")
    case True
    then show ?thesis using assms(1) LRotate by (auto simp: listRotate_def list_rep_def)
  next
    case False
    then have xs: "butlast xs @ [(fst (last xs), snd (last xs))] = xs" by simp
    have "list_rep s l (butlast xs @ [(fst (last xs), snd (last xs))])" unfolding xs by (rule assms(1))
    from rotate_rep [OF this] obtain l' s' where
      r: "listRotate l s = Some (l', s')" "list_rep s' l' ((fst (last xs), snd (last xs)) # butlast xs)" by blast
    have "map snd ((fst (last xs), snd (last xs)) # butlast xs) = abs_lop LRotate (map snd xs)"
      using False by (simp add: last_map map_butlast)
    moreover have "list_op e x l s = Some (l', s')" using LRotate r(1) by simp
    ultimately show ?thesis using LRotate r(2) by blast
  qed
qed

lemma abs_lop_length: "length (abs_lop x vs) \<le> Suc (length vs)"
  by (cases x) (auto split: option.splits dest!: position_less)

lemma list_ops_rep:
  assumes "list_rep s l xs" "length xs + length ops < 18446744073709551615" "\<And>n. can_alloc e n"
  shows "\<exists>l' s' xs'. list_ops e ops l s = Some (l', s') \<and> list_rep s' l' xs' \<and> map snd xs' = fold abs_lop ops (map snd xs)"
  using assms
proof (induction ops arbitrary: l s xs)
  case (Cons x ops)
  obtain l1 s1 xs1 where 1: "list_op e x l s = Some (l1, s1)" "list_rep s1 l1 xs1" "map snd xs1 = abs_lop x (map snd xs)"
    using list_op_rep [OF Cons.prems(1) _ Cons.prems(3), of x] Cons.prems(2) by auto
  have "length xs1 \<le> Suc (length xs)" using abs_lop_length [of x "map snd xs"] by (metis 1(3) length_map)
  then show ?case using Cons.IH [OF 1(2) _ Cons.prems(3)] Cons.prems(2) 1 by auto
qed auto

lemma dseg_value: "dseg ns p h xs t q \<Longrightarrow> x \<in> set xs \<Longrightarrow> \<exists>n. ns (fst x) = Some n \<and> nvalue n = snd x"
  by (induction xs arbitrary: p h) auto

lemma value_at_rep:
  assumes "list_rep s l xs"
  shows "value_at l i s = map_option (\<lambda>j. snd (xs ! j)) (position i (map snd xs))"
proof (cases "position i (map snd xs)")
  case None
  then show ?thesis using index_position [OF assms, of i] by (simp add: value_at_def deref_def)
next
  case (Some j)
  then have x: "xs ! j \<in> set xs" using position_less [of i "map snd xs" j] by simp
  have "dseg (nodes s) None (lhead l) xs (ltail l) None" using assms by (simp add: list_rep_def)
  from dseg_value [OF this x] obtain n where "nodes s (fst (xs ! j)) = Some n" "nvalue n = snd (xs ! j)" by blast
  then show ?thesis using Some index_position [OF assms, of i] by (simp add: value_at_def deref_def)
qed

section \<open>Properties\<close>

text \<open>C34 A linked list is a list: after any sequence of additions at both ends, insertions before
  and after nodes found by index, deletions and rotations on a new list, the values found by
  index, counted from the front and from the back, and the length are those of the same
  operations on a list of values, and no operation follows a null or dangling pointer.\<close>

theorem list_history:
  assumes "listCreate e = Ptr l" "\<And>n. can_alloc e n" "length ops < 18446744073709551615"
  shows "\<exists>l' s'. list_ops e ops l s = Some (l', s') \<and> llen l' = length (fold abs_lop ops []) \<and>
    (\<forall>i. value_at l' i s' = map_option (\<lambda>j. fold abs_lop ops [] ! j) (position i (fold abs_lop ops [])))"
proof -
  have "list_rep s l []" using assms(1) by (auto simp: list_rep_def listCreate_def split: if_splits)
  from list_ops_rep [OF this _ assms(2), of ops] assms(3) obtain l' s' xs' where
    r: "list_ops e ops l s = Some (l', s')" "list_rep s' l' xs'" "map snd xs' = fold abs_lop ops []" by auto
  have "value_at l' i s' = map_option (\<lambda>j. map snd xs' ! j) (position i (map snd xs'))" for i
    using value_at_rep [OF r(2), of i] position_less [of i "map snd xs'"] by (cases "position i (map snd xs')") auto
  moreover have "llen l' = length (map snd xs')" using r(2) by (simp add: list_rep_def)
  ultimately show ?thesis using r by auto
qed

theorem list_history_witness:
  "\<exists>l l' s'. listCreate \<lparr>can_alloc = (\<lambda>n. True), junk = (\<lambda>n. NUL)\<rparr> = Ptr l \<and>
     list_ops \<lparr>can_alloc = (\<lambda>n. True), junk = (\<lambda>n. NUL)\<rparr>
       [LTail (1 :: int), LTail 2, LHead 0, LInsert (- 1) False 5, LRotate, LDelete 1]
       l \<lparr>nodes = (\<lambda>x. None), lfresh = 0, lfreed = []\<rparr> = Some (l', s') \<and>
     llen l' = 3 \<and> value_at l' 0 s' = Some 2 \<and> value_at l' (- 1) s' = Some 5"
proof -
  let ?e = "\<lparr>can_alloc = (\<lambda>n. True), junk = (\<lambda>n. NUL)\<rparr>" and ?s = "\<lparr>nodes = (\<lambda>x. None), lfresh = 0, lfreed = []\<rparr> :: int lheap"
  let ?ops = "[LTail (1 :: int), LTail 2, LHead 0, LInsert (- 1) False 5, LRotate, LDelete 1]"
  have f: "fold abs_lop ?ops [] = [2, 1, 5]" by (simp add: position_def)
  obtain l :: "int hilist" where l: "listCreate ?e = Ptr l" by (simp add: listCreate_def)
  obtain l' s' where "list_ops ?e ?ops l ?s = Some (l', s')" "llen l' = length (fold abs_lop ?ops [])"
    "\<forall>i. value_at l' i s' = map_option (\<lambda>j. fold abs_lop ?ops [] ! j) (position i (fold abs_lop ?ops []))"
    using list_history [OF l, of ?ops ?s] by auto
  then show ?thesis using l unfolding f by (intro exI [of _ l] exI [of _ l'] exI [of _ s']) (simp add: position_def)
qed

text \<open>\<^verbatim>\<open>listDup\<close> leaves the original as it is, also when the copying function fails, and otherwise
  returns a list of its own with the copied values in the same order.\<close>

lemma list_dup_copies:
  assumes "list_rep s l xs" "\<And>n. can_alloc e n" "length xs < 18446744073709551615"
  shows "\<exists>r s'. listDup e l s = Some (Ptr (r, s')) \<and> list_rep (s'\<lparr>lfresh := lfresh s\<rparr>) l xs \<and>
    (case those (map (\<lambda>x. dup_value l (snd x)) xs) of
       None \<Rightarrow> r = None
     | Some vs \<Rightarrow> \<exists>copy ys. r = Some copy \<and> list_rep s' copy ys \<and> map snd ys = vs)"
proof -
  define c where "c = \<lparr>lhead = None, ltail = None, ldup = ldup l, lfree = lfree l, lmatch = lmatch l, llen = 0\<rparr>"
  have x: "dseg (nodes s) None (lhead l) xs (ltail l) None" "\<forall>a \<in> addrs_of xs. a < lfresh s" "distinct (map fst xs)" "llen l = length xs"
    using assms(1) by (simp_all add: list_rep_def)
  have "list_rep s c []" by (simp add: list_rep_def c_def)
  from dup_loop_rep [OF x(1) this _ x(2) _ assms(2)] assms(3) obtain r s' where
    r: "dup_loop e \<lparr>li_next = lhead l, li_head = True\<rparr> c s = Some (Ptr (r, s'))" "\<forall>a < lfresh s. nodes s' a = nodes s a"
    "case those (map (\<lambda>x. dup_value c (snd x)) xs) of None \<Rightarrow> r = None
     | Some vs \<Rightarrow> \<exists>copy' zs. r = Some copy' \<and> list_rep s' copy' ([] @ zs) \<and> map snd zs = vs" by auto
  have "listDup e l s = Some (Ptr (r, s'))"
    using r(1) assms(2) by (simp add: listDup_def listCreate_def listGetIterator_def c_def)
  moreover have "dup_value c = dup_value l" by (simp add: dup_value_def c_def fun_eq_iff)
  moreover have "outside {a. a \<ge> lfresh s} s s'" using r(2) by (simp add: outside_def)
  then have "dseg (nodes s') None (lhead l) xs (ltail l) None" using dseg_outside x(1,2) by (metis (mono_tags, lifting) disjoint_iff leD mem_Collect_eq)
  ultimately show ?thesis using r(3) x by (auto simp: list_rep_def split: option.splits)
qed

lemma list_dup_copies_witness:
  "\<exists>s l copy s' ys. list_rep s l [(0, ''a''), (1, ''b'')] \<and>
     listDup \<lparr>can_alloc = (\<lambda>n. True), junk = (\<lambda>n. NUL)\<rparr> l s = Some (Ptr (Some copy, s')) \<and>
     list_rep s' copy ys \<and> map snd ys = [''a'', ''b'']"
proof -
  let ?s = "\<lparr>nodes = [0 \<mapsto> \<lparr>nprev = None, nnext = Some 1, nvalue = ''a''\<rparr>, 1 \<mapsto> \<lparr>nprev = Some 0, nnext = None, nvalue = ''b''\<rparr>],
    lfresh = 2, lfreed = []\<rparr>"
  let ?l = "\<lparr>lhead = Some 0, ltail = Some 1, ldup = None, lfree = True, lmatch = None, llen = 2\<rparr> :: string hilist"
  have r: "list_rep ?s ?l [(0, ''a''), (1, ''b'')]" by (simp add: list_rep_def)
  obtain copy s' ys where "listDup \<lparr>can_alloc = (\<lambda>n. True), junk = (\<lambda>n. NUL)\<rparr> ?l ?s = Some (Ptr (Some copy, s'))"
    "list_rep s' copy ys" "map snd ys = [''a'', ''b'']"
    using list_dup_copies [OF r, of "\<lparr>can_alloc = (\<lambda>n. True), junk = (\<lambda>n. NUL)\<rparr>"]
    by (auto simp: dup_value_def)
  then show ?thesis using r
    by (intro exI [of _ ?s] exI [of _ ?l] exI [of _ copy] exI [of _ s'] exI [of _ ys] conjI)
qed

end
