(* ===== verification/Crc16.thy ===== *)
theory Crc16
  imports Prelude
begin

text \<open>
  Model of \<^verbatim>\<open>crc16.c\<close> and of \<^verbatim>\<open>keyHashSlot\<close> in
  \<^verbatim>\<open>hircluster.c\<close>: the table-driven CRC-16 and the mapping of a key to
  one of the 16384 hash slots.  The table is proved to be the byte table of the
  bit-serial CCITT polynomial division, and the slot of a key with a hash tag is
  shown to depend on the tag alone.
\<close>

unbundle bit_operations_syntax

section \<open>The checksum\<close>

definition crc16tab :: "16 word list" where
  "crc16tab = [
   0x0000, 0x1021, 0x2042, 0x3063, 0x4084, 0x50A5, 0x60C6, 0x70E7,
   0x8108, 0x9129, 0xA14A, 0xB16B, 0xC18C, 0xD1AD, 0xE1CE, 0xF1EF,
   0x1231, 0x0210, 0x3273, 0x2252, 0x52B5, 0x4294, 0x72F7, 0x62D6,
   0x9339, 0x8318, 0xB37B, 0xA35A, 0xD3BD, 0xC39C, 0xF3FF, 0xE3DE,
   0x2462, 0x3443, 0x0420, 0x1401, 0x64E6, 0x74C7, 0x44A4, 0x5485,
   0xA56A, 0xB54B, 0x8528, 0x9509, 0xE5EE, 0xF5CF, 0xC5AC, 0xD58D,
   0x3653, 0x2672, 0x1611, 0x0630, 0x76D7, 0x66F6, 0x5695, 0x46B4,
   0xB75B, 0xA77A, 0x9719, 0x8738, 0xF7DF, 0xE7FE, 0xD79D, 0xC7BC,
   0x48C4, 0x58E5, 0x6886, 0x78A7, 0x0840, 0x1861, 0x2802, 0x3823,
   0xC9CC, 0xD9ED, 0xE98E, 0xF9AF, 0x8948, 0x9969, 0xA90A, 0xB92B,
   0x5AF5, 0x4AD4, 0x7AB7, 0x6A96, 0x1A71, 0x0A50, 0x3A33, 0x2A12,
   0xDBFD, 0xCBDC, 0xFBBF, 0xEB9E, 0x9B79, 0x8B58, 0xBB3B, 0xAB1A,
   0x6CA6, 0x7C87, 0x4CE4, 0x5CC5, 0x2C22, 0x3C03, 0x0C60, 0x1C41,
   0xEDAE, 0xFD8F, 0xCDEC, 0xDDCD, 0xAD2A, 0xBD0B, 0x8D68, 0x9D49,
   0x7E97, 0x6EB6, 0x5ED5, 0x4EF4, 0x3E13, 0x2E32, 0x1E51, 0x0E70,
   0xFF9F, 0xEFBE, 0xDFDD, 0xCFFC, 0xBF1B, 0xAF3A, 0x9F59, 0x8F78,
   0x9188, 0x81A9, 0xB1CA, 0xA1EB, 0xD10C, 0xC12D, 0xF14E, 0xE16F,
   0x1080, 0x00A1, 0x30C2, 0x20E3, 0x5004, 0x4025, 0x7046, 0x6067,
   0x83B9, 0x9398, 0xA3FB, 0xB3DA, 0xC33D, 0xD31C, 0xE37F, 0xF35E,
   0x02B1, 0x1290, 0x22F3, 0x32D2, 0x4235, 0x5214, 0x6277, 0x7256,
   0xB5EA, 0xA5CB, 0x95A8, 0x8589, 0xF56E, 0xE54F, 0xD52C, 0xC50D,
   0x34E2, 0x24C3, 0x14A0, 0x0481, 0x7466, 0x6447, 0x5424, 0x4405,
   0xA7DB, 0xB7FA, 0x8799, 0x97B8, 0xE75F, 0xF77E, 0xC71D, 0xD73C,
   0x26D3, 0x36F2, 0x0691, 0x16B0, 0x6657, 0x7676, 0x4615, 0x5634,
   0xD94C, 0xC96D, 0xF90E, 0xE92F, 0x99C8, 0x89E9, 0xB98A, 0xA9AB,
   0x5844, 0x4865, 0x7806, 0x6827, 0x18C0, 0x08E1, 0x3882, 0x28A3,
   0xCB7D, 0xDB5C, 0xEB3F, 0xFB1E, 0x8BF9, 0x9BD8, 0xABBB, 0xBB9A,
   0x4A75, 0x5A54, 0x6A37, 0x7A16, 0x0AF1, 0x1AD0, 0x2AB3, 0x3A92,
   0xFD2E, 0xED0F, 0xDD6C, 0xCD4D, 0xBDAA, 0xAD8B, 0x9DE8, 0x8DC9,
   0x7C26, 0x6C07, 0x5C64, 0x4C45, 0x3CA2, 0x2C83, 0x1CE0, 0x0CC1,
   0xEF1F, 0xFF3E, 0xCF5D, 0xDF7C, 0xAF9B, 0xBFBA, 0x8FD9, 0x9FF8,
   0x6E17, 0x7E36, 0x4E55, 0x5E74, 0x2E93, 0x3EB2, 0x0ED1, 0x1EF0]"

text \<open>A \<^verbatim>\<open>char\<close> operand is sign extended when it is promoted to
  \<^verbatim>\<open>int\<close>.\<close>

definition schar :: "char \<Rightarrow> 32 word" where
  "schar c = scast (of_char c :: 8 word)"

definition crc16_step :: "16 word \<Rightarrow> char \<Rightarrow> 16 word" where
  "crc16_step crc c =
     ucast (push_bit 8 (ucast crc :: 32 word) XOR
       ucast (crc16tab ! unat ((drop_bit 8 (ucast crc :: 32 word) XOR schar c) AND 0xFF)))"

definition crc16 :: "string \<Rightarrow> nat \<Rightarrow> 16 word" where
  "crc16 buf len = foldl crc16_step 0 (take len buf)"

section \<open>Hash slots\<close>

function scan :: "char \<Rightarrow> string \<Rightarrow> nat \<Rightarrow> nat" where
  "scan c key i = (if i < length key \<and> key ! i \<noteq> c then scan c key (Suc i) else i)"
  by pat_completeness auto
termination by (relation "measure (\<lambda>(c, key, i). length key - i)") auto

definition keyHashSlot :: "string \<Rightarrow> nat" where
  "keyHashSlot key =
     (let keylen = length key; s = scan (CHR ''{'') key 0 in
      if s = keylen then unat (crc16 key keylen AND 0x3FFF)
      else let e = scan (CHR ''}'') key (s + 1) in
        if e = keylen \<or> e = s + 1 then unat (crc16 key keylen AND 0x3FFF)
        else unat (crc16 (drop (s + 1) key) (e - s - 1) AND 0x3FFF))"

declare scan.simps [simp del]

section \<open>Bit-serial reference\<close>

definition ccitt_bit :: "16 word \<Rightarrow> 16 word" where
  "ccitt_bit r = (if bit r 15 then push_bit 1 r XOR 0x1021 else push_bit 1 r)"

definition ccitt_byte :: "16 word \<Rightarrow> char \<Rightarrow> 16 word" where
  "ccitt_byte r c = (ccitt_bit ^^ 8) (r XOR push_bit 8 (of_char c))"

definition ccitt :: "string \<Rightarrow> 16 word" where
  "ccitt s = foldl ccitt_byte 0 s"

lemma ccitt_bit_xor: "ccitt_bit (a XOR b) = ccitt_bit a XOR ccitt_bit b"
  by (auto simp: ccitt_bit_def bit_simps intro!: bit_word_eqI)

lemma ccitt_pow_xor: "(ccitt_bit ^^ n) (a XOR b) = (ccitt_bit ^^ n) a XOR (ccitt_bit ^^ n) b"
  by (induction n) (simp_all add: ccitt_bit_xor)

text \<open>The same division on integers below \<^term>\<open>2 ^ 16\<close>, where it computes fast.\<close>

definition ccitt_int :: "int \<Rightarrow> int" where
  "ccitt_int n = (if n < 32768 then 2 * n else (2 * n - 65536) XOR 4129)"

definition ccitt_int_byte :: "int \<Rightarrow> int" where
  "ccitt_int_byte i = ccitt_int (ccitt_int (ccitt_int (ccitt_int
     (ccitt_int (ccitt_int (ccitt_int (ccitt_int (256 * i))))))))"

lemma crc16tab_ints: "map uint crc16tab = map ccitt_int_byte (map int [0..<256])"
  unfolding crc16tab_def by code_simp

lemma uint_ccitt_bit: "uint (ccitt_bit r) = ccitt_int (uint r)"
proof -
  have r: "0 \<le> uint r" "uint r < 65536"
    using uint_lt2p [of r] by simp_all
  have "uint r div 32768 = (if uint r < 32768 then 0 else 1)"
    using r by (auto intro: int_div_pos_eq [where r = "uint r - 32768"])
  then have b: "bit r 15 \<longleftrightarrow> 32768 \<le> uint r"
    using bit_uint_iff [of r 15] by (simp add: bit_iff_odd [of "uint r" 15] split: if_splits)
  have "uint (push_bit 1 r) = (2 * uint r) mod 65536"
    by (simp add: uint_word_ariths mult.commute)
  also have "\<dots> = (if uint r < 32768 then 2 * uint r else 2 * uint r - 65536)"
    using r by (auto intro: int_mod_pos_eq [where q = 1])
  finally have "uint (push_bit 1 r) = (if uint r < 32768 then 2 * uint r else 2 * uint r - 65536)" .
  then show ?thesis
    using b by (auto simp: ccitt_bit_def ccitt_int_def unsigned_xor_eq)
qed

lemma funpow_8: "(f ^^ 8) x = f (f (f (f (f (f (f (f x)))))))"
  by (simp add: numeral_eq_Suc)

lemma uint_high_byte:
  assumes "i < 256"
  shows "uint (push_bit 8 (word_of_nat i) :: 16 word) = 256 * int i"
proof -
  have "push_bit 8 (word_of_nat i :: 16 word) = word_of_nat (256 * i)"
    by (simp add: push_bit_eq_mult)
  then show ?thesis
    using assms by (simp only: unsigned_of_nat) (simp add: take_bit_eq_mod)
qed

lemma crc16tab_nth:
  assumes "i < 256"
  shows "crc16tab ! i = (ccitt_bit ^^ 8) (push_bit 8 (word_of_nat i))"
proof -
  have len: "length crc16tab = 256"
    using arg_cong [OF crc16tab_ints, of length] by (simp del: upt_rec_numeral)
  have "uint (crc16tab ! i) = map uint crc16tab ! i"
    using assms len by simp
  also have "\<dots> = ccitt_int_byte (int i)"
    unfolding crc16tab_ints using assms by (simp del: upt_rec_numeral)
  also have "\<dots> = uint ((ccitt_bit ^^ 8) (push_bit 8 (word_of_nat i)))"
    unfolding ccitt_int_byte_def funpow_8 uint_ccitt_bit uint_high_byte [OF assms] ..
  finally show ?thesis by (simp add: word_uint_eq_iff)
qed
lemma ccitt_pow_low:
  "n \<le> 16 \<Longrightarrow> (\<And>k. 16 - n \<le> k \<Longrightarrow> \<not> bit r k) \<Longrightarrow> (ccitt_bit ^^ n) r = push_bit n r"
proof (induction n)
  case (Suc n)
  have "(ccitt_bit ^^ n) r = push_bit n r"
    using Suc by simp
  moreover have "\<not> bit (push_bit n r) 15"
    using Suc.prems by (simp add: bit_simps)
  ultimately have "(ccitt_bit ^^ Suc n) r = push_bit 1 (push_bit n r)"
    by (simp add: ccitt_bit_def [of "push_bit n r"])
  then show ?case
    by (simp only: push_bit_push_bit) simp
qed simp

lemma and_0xFF: "(x :: 32 word) AND 0xFF = take_bit 8 x"
  by (simp add: take_bit_eq_mask mask_eq_exp_minus_1)

lemma table_index:
  "word_of_nat (unat ((drop_bit 8 (ucast r :: 32 word) XOR schar c) AND 0xFF)) =
     drop_bit 8 r XOR (of_char c :: 16 word)"
  (is "word_of_nat (unat ?i) = _")
proof -
  have "word_of_nat (unat ?i) = (ucast ?i :: 16 word)"
    by (simp add: unsigned_of_nat ucast_eq uint_nat del: of_nat_unat)
  also have "\<dots> = drop_bit 8 r XOR ucast (of_char c :: 8 word)"
    unfolding and_0xFF schar_def
    by (rule bit_word_eqI) (auto simp: bit_simps bit_take_bit_iff dest: bit_imp_le_length)
  also have "ucast (of_char c :: 8 word) = (of_char c :: 16 word)"
    using ord_less [of c]
    unfolding of_nat_of_char [of c, where ?'a = "8 word", symmetric]
      of_nat_of_char [of c, where ?'a = "16 word", symmetric] ord_def
    by (simp only: unsigned_of_nat) (simp add: take_bit_nat_eq_self)
  finally show ?thesis .
qed

lemma crc16_step_ccitt: "crc16_step r c = ccitt_byte r c"
proof -
  define i where "i = unat ((drop_bit 8 (ucast r :: 32 word) XOR schar c) AND 0xFF)"
  have i: "word_of_nat i = drop_bit 8 r XOR (of_char c :: 16 word)"
    unfolding i_def by (rule table_index)
  have "i < 256"
    unfolding i_def and_0xFF unsigned_take_bit_eq by (simp add: take_bit_eq_mod)
  have split: "r XOR push_bit 8 (of_char c) = take_bit 8 r XOR push_bit 8 (word_of_nat i)"
    unfolding i
  proof (rule bit_word_eqI)
    fix n assume "n < LENGTH(16)"
    then show "bit (r XOR push_bit 8 (of_char c)) n =
      bit (take_bit 8 r XOR push_bit 8 (drop_bit 8 r XOR of_char c)) n"
      by (cases "n < 8") (auto simp: bit_simps)
  qed
  have "ccitt_byte r c = push_bit 8 (take_bit 8 r) XOR crc16tab ! i"
    unfolding ccitt_byte_def split ccitt_pow_xor crc16tab_nth [OF \<open>i < 256\<close>]
    by (subst ccitt_pow_low) (auto simp: bit_simps)
  also have "push_bit 8 (take_bit 8 r) = push_bit 8 r"
    by (rule bit_word_eqI) (auto simp: bit_simps)
  also have "push_bit 8 r XOR crc16tab ! i = crc16_step r c"
    unfolding crc16_step_def i_def by (rule bit_word_eqI) (auto simp: bit_simps)
  finally show ?thesis by simp
qed

lemma crc16_ccitt_take: "crc16 buf len = ccitt (take len buf)"
  unfolding crc16_def ccitt_def by (simp add: crc16_step_ccitt cong: foldl_cong)

lemma crc16_ccitt: "crc16 key (length key) = ccitt key"
  by (simp add: crc16_ccitt_take)

text \<open>C15 The table-driven checksum of \<^verbatim>\<open>crc16.c\<close> over the first \<open>len\<close> bytes of
  a buffer is the bit-serial CRC-16 with polynomial 0x1021 and initial value 0 that its
  header comment specifies.\<close>

theorem crc16_is_ccitt: "crc16 buf len = ccitt (take len buf)"
  by (rule crc16_ccitt_take)

section \<open>Hash tags\<close>

text \<open>The part of a key that is hashed: what stands between the first opening brace and
  the first closing brace after it, when that is not empty; the whole key otherwise.\<close>

definition hash_part :: "string \<Rightarrow> string" where
  "hash_part key =
     (case dropWhile (\<lambda>c. c \<noteq> CHR ''{'') key of
        [] \<Rightarrow> key
      | _ # rest \<Rightarrow>
          (let tag = takeWhile (\<lambda>c. c \<noteq> CHR ''}'') rest in
           if tag = [] \<or> length tag = length rest then key else tag))"

lemma scan_eq:
  "i \<le> length key \<Longrightarrow> scan c key i = i + length (takeWhile (\<lambda>d. d \<noteq> c) (drop i key))"
proof (induction c key i rule: scan.induct)
  case (1 c key i)
  show ?case
  proof (cases "i < length key \<and> key ! i \<noteq> c")
    case True
    then have "drop i key = key ! i # drop (Suc i) key"
      by (simp add: Cons_nth_drop_Suc)
    with True 1 show ?thesis by (simp add: scan.simps [of c key i])
  next
    case False
    then show ?thesis
      using 1(2)
      by (cases "i = length key")
        (simp_all add: scan.simps [of c] Cons_nth_drop_Suc [symmetric, of i key])
  qed
qed

lemma unat_and_0x3FFF: "unat ((w :: 16 word) AND 0x3FFF) = unat w mod 16384"
proof -
  have "w AND 0x3FFF = take_bit 14 w"
    by (simp add: take_bit_eq_mask mask_eq_exp_minus_1)
  then show ?thesis
    by (simp only: unsigned_take_bit_eq) (simp add: take_bit_eq_mod)
qed

text \<open>C14 A key's slot is the checksum of its hash part modulo 16384: the brace scan of
  \<^verbatim>\<open>keyHashSlot\<close> selects exactly the tag, and falls back to the whole key when
  there is no tag or an empty one.\<close>

theorem keyHashSlot_spec: "keyHashSlot key = unat (ccitt (hash_part key)) mod 16384"
proof -
  let ?o = "\<lambda>c. c \<noteq> CHR ''{''" and ?c = "\<lambda>c. c \<noteq> CHR ''}''"
  have s: "scan (CHR ''{'') key 0 = length (takeWhile ?o key)"
    by (simp add: scan_eq)
  show ?thesis
  proof (cases "dropWhile ?o key")
    case Nil
    then have "length (takeWhile ?o key) = length key"
      by (metis append.right_neutral takeWhile_dropWhile_id)
    then show ?thesis
      by (simp only: keyHashSlot_def s hash_part_def Nil unat_and_0x3FFF crc16_ccitt Let_def)
        simp
  next
    case (Cons b rest)
    then have key: "key = takeWhile ?o key @ b # rest"
      by (metis takeWhile_dropWhile_id)
    let ?s = "length (takeWhile ?o key)"
    have rest: "drop (Suc ?s) key = rest" and len: "length key = Suc (?s + length rest)"
      by (subst (2) key, simp) (subst key, simp)
    have e: "scan (CHR ''}'') key (Suc ?s) = Suc ?s + length (takeWhile ?c rest)"
      using len by (simp add: scan_eq rest)
    show ?thesis
      by (auto simp: keyHashSlot_def s e rest len hash_part_def Cons Let_def unat_and_0x3FFF
          crc16_ccitt crc16_ccitt_take takeWhile_eq_take [symmetric])
  qed
qed

end
