(* ===== verification/HiUtil.thy ===== *)
theory HiUtil
  imports Prelude
begin

text \<open>
  Model of the number, formatting and transfer helpers of \<^verbatim>\<open>hiutil.c\<close>.  A buffer is a
  list of bytes; a write outside it makes the operation \<^term>\<open>None\<close>.  The results of the
  system calls \<^verbatim>\<open>send\<close> and \<^verbatim>\<open>recv\<close> are a list of outcomes, consumed one per call.
\<close>

section \<open>Numbers\<close>

definition c_div :: "int \<Rightarrow> int \<Rightarrow> int" where
  "c_div a b = (if a < 0 then - ((- a) div b) else a div b)"

definition c_mod :: "int \<Rightarrow> int \<Rightarrow> int" where
  "c_mod a b = (if a < 0 then - ((- a) mod b) else a mod b)"

fun atoi_loop :: "string \<Rightarrow> int \<Rightarrow> int" where
  "atoi_loop [] value = (if value < 0 then - 1 else value)"
| "atoi_loop (c # line) value =
     (if ord c < 48 \<or> 57 < ord c then - 1
      else atoi_loop line (c_int (value * 10 + (int (ord c) - 48))))"

definition hi_atoi :: "string \<Rightarrow> int" where
  "hi_atoi line = (if line = [] then - 1 else atoi_loop line 0)"

definition put :: "string \<Rightarrow> nat \<Rightarrow> char \<Rightarrow> string option" where
  "put s i c = (if i < length s then Some (s[i := c]) else None)"

function itoa_digits :: "string \<Rightarrow> nat \<Rightarrow> int \<Rightarrow> (string \<times> nat) option" where
  "itoa_digits s len num =
     (if c_mod num 10 \<noteq> 0 \<or> c_div num 10 \<noteq> 0 then
        (let c = char_of (nat ((c_mod num 10 + 48) mod 256)) in
         case put s (len + 1) (s ! len) of
           None \<Rightarrow> None
         | Some s' \<Rightarrow> itoa_digits (s'[len := c]) (len + 1) (c_div num 10))
      else Some (s, len))"
  by pat_completeness auto
termination
proof (relation "measure (\<lambda>(s, len, num). nat \<bar>num\<bar>)")
  fix s :: string and len :: nat and num :: int and c s'
  assume "c_mod num 10 \<noteq> 0 \<or> c_div num 10 \<noteq> 0"
  then have "num \<noteq> 0" by (auto simp: c_div_def c_mod_def)
  then have "\<bar>c_div num 10\<bar> < \<bar>num\<bar>" by (auto simp: c_div_def)
  then show "((s'[len := c], len + 1, c_div num 10), s, len, num)
    \<in> measure (\<lambda>(s, len, num). nat \<bar>num\<bar>)" by simp
qed simp

declare itoa_digits.simps [simp del]

function itoa_swap :: "string \<Rightarrow> nat \<Rightarrow> nat \<Rightarrow> string" where
  "itoa_swap s len i =
     (if i < len div 2 then
        itoa_swap (s[i := s ! (len - i - 1), len - i - 1 := s ! i]) len (i + 1)
      else s)"
  by pat_completeness auto
termination by (relation "measure (\<lambda>(s, len, i). len - i)") auto

declare itoa_swap.simps [simp del]

definition hi_itoa :: "string \<Rightarrow> int \<Rightarrow> string option" where
  "hi_itoa s num =
     (if num = 0 then put s 0 (CHR ''0'')
      else
        (let sign = (num < 0); num' = (if num < 0 then c_int \<bar>num\<bar> else num) in
         case itoa_digits s 0 num' of
           None \<Rightarrow> None
         | Some (s1, len) \<Rightarrow>
             (case (if sign then map_option (\<lambda>s. (s, len + 1)) (put s1 len (CHR ''-''))
                    else Some (s1, len)) of
                None \<Rightarrow> None
              | Some (s2, len2) \<Rightarrow>
                  (case put s2 len2 NUL of
                     None \<Rightarrow> None
                   | Some s3 \<Rightarrow> Some (itoa_swap s3 len2 0)))))"

definition hi_valid_port :: "int \<Rightarrow> int" where
  "hi_valid_port n = (if n < 1 \<or> n > 65535 then 0 else 1)"

fun uint_len_loop :: "nat \<Rightarrow> nat \<Rightarrow> nat" where
  "uint_len_loop n num = (if num \<noteq> 0 then uint_len_loop (n + 1) (num div 10) else n)"

declare uint_len_loop.simps [simp del]

definition uint_len :: "nat \<Rightarrow> nat" where
  "uint_len num = (if num = 0 then 1 else uint_len_loop 0 num)"

text \<open>\<open>vscnprintf_result n sz\<close> is what \<^verbatim>\<open>_vscnprintf\<close> returns when \<^verbatim>\<open>vsnprintf\<close>
  returned \<open>n\<close> for a buffer of \<open>sz\<close> bytes.\<close>

definition vscnprintf_result :: "int \<Rightarrow> nat \<Rightarrow> int" where
  "vscnprintf_result n sz =
     (if n \<le> 0 then 0 else if n < c_int (int sz) then n else c_int (int sz - 1))"

section \<open>Transfers\<close>

datatype io = Moved nat | EINTR | Failed

fun hi_sendn :: "io list \<Rightarrow> string \<Rightarrow> nat \<Rightarrow> string \<Rightarrow> (int \<times> string) option" where
  "hi_sendn ios [] n acc = Some (int n, acc)"
| "hi_sendn [] (c # cs) n acc = None"
| "hi_sendn (EINTR # ios) (c # cs) n acc = hi_sendn ios (c # cs) n acc"
| "hi_sendn (Failed # ios) (c # cs) n acc = Some (- 1, acc)"
| "hi_sendn (Moved k # ios) (c # cs) n acc =
     (if k = 0 then Some (- 1, acc)
      else hi_sendn ios (drop k (c # cs)) n (acc @ take k (c # cs)))"

datatype rx = Got string | RIntr | RFailed

function hi_recvn :: "rx list \<Rightarrow> nat \<Rightarrow> nat \<Rightarrow> string \<Rightarrow> (int \<times> string) option" where
  "hi_recvn ios n nleft got =
     (if nleft > 0 then
        (case ios of
           [] \<Rightarrow> None
         | RIntr # ios' \<Rightarrow> hi_recvn ios' n nleft got
         | RFailed # ios' \<Rightarrow> Some (- 1, got)
         | Got bs # ios' \<Rightarrow>
             (if bs = [] then Some (int (n - nleft), got)
              else hi_recvn ios' n (nleft - length bs) (got @ bs)))
      else Some (int (n - nleft), got))"
  by pat_completeness auto
termination by (relation "measure (\<lambda>(ios, n, nleft, got). length ios)") auto

declare hi_recvn.simps [simp del]

section \<open>Number lemmas\<close>

lemma atoi_loop_value:
  "\<forall>c \<in> set s. isdigit c \<Longrightarrow> 0 \<le> v \<Longrightarrow> dval (nat v) s < 2147483648 \<Longrightarrow>
   atoi_loop s v = int (dval (nat v) s)"
proof (induction s arbitrary: v)
  case (Cons c s)
  let ?v = "v * 10 + (int (ord c) - 48)"
  have c: "48 \<le> ord c" "ord c \<le> 57"
    using Cons.prems(1) by (simp_all add: isdigit_def)
  have n: "nat ?v = nat v * 10 + digit_val c"
    using c Cons.prems(2) by (simp add: digit_val_def nat_add_distrib nat_mult_distrib nat_diff_distrib)
  have "nat ?v \<le> dval (nat ?v) s" by (rule dval_mono)
  then have "?v < 2147483648" "0 \<le> ?v"
    using Cons.prems n c by simp_all
  then have "c_int ?v = ?v" by (simp add: c_int_id)
  with Cons n c \<open>0 \<le> ?v\<close> show ?case by simp
qed simp

lemma atoi_loop_reject: "\<not> (\<forall>c \<in> set s. isdigit c) \<Longrightarrow> atoi_loop s v = - 1"
  by (induction s arbitrary: v) (auto simp: isdigit_def)

lemma uint_len_loop_dec: "0 < m \<Longrightarrow> uint_len_loop n m = n + length (dec m)"
proof (induction m arbitrary: n rule: dec.induct)
  case (1 m)
  show ?case
  proof (cases "m < 10")
    case True
    with 1(2) show ?thesis by (simp add: uint_len_loop.simps dec.simps)
  next
    case False
    then have "uint_len_loop (Suc n) (m div 10) = Suc n + length (dec (m div 10))"
      by (intro 1) (simp_all add: div_greater_zero_iff)
    with False show ?thesis
      by (simp add: uint_len_loop.simps [of n m] dec.simps [of m])
  qed
qed

lemma itoa_swap_nth:
  "len \<le> length s \<Longrightarrow> i \<le> len div 2 \<Longrightarrow> j < length s \<Longrightarrow>
   itoa_swap s len i ! j = (if i \<le> j \<and> j < len - i then s ! (len - 1 - j) else s ! j)"
proof (induction s len i rule: itoa_swap.induct)
  case (1 s len i)
  show ?case
  proof (cases "i < len div 2")
    case True
    let ?t = "s[i := s ! (len - i - 1), len - i - 1 := s ! i]"
    have "itoa_swap ?t len (i + 1) ! j =
        (if i + 1 \<le> j \<and> j < len - (i + 1) then ?t ! (len - 1 - j) else ?t ! j)"
      using 1 True by simp
    then have step: "itoa_swap s len i ! j =
        (if i < j \<and> j < len - Suc i then ?t ! (len - 1 - j) else ?t ! j)"
      using True by (simp add: itoa_swap.simps [of s len i])
    have ij: "i < len - i - 1" "len - i - 1 < length s" "i < length s"
      "i < len - i" "len - i - 1 < len - i"
      using True 1(2) by linarith+
    consider "j = i" | "j = len - i - 1" | "i < j" "j < len - i - 1" | "j < i \<or> len - i - 1 < j"
      by linarith
    then show ?thesis
    proof cases
      case 3
      then have "len - 1 - j \<noteq> i" "len - 1 - j \<noteq> len - i - 1" "j < len - i"
        using ij by linarith+
      with 3 step ij show ?thesis by simp
    next
      case 4
      then have "j \<noteq> i" "j \<noteq> len - i - 1" "\<not> (i < j \<and> j < len - Suc i)" "\<not> (i \<le> j \<and> j < len - i)"
        using ij by linarith+
      with step show ?thesis by (simp only: if_False) simp
    qed (use step ij in simp_all)
  next
    case False
    then have "len - 1 - j = j" if "i \<le> j" "j < len - i"
      using that by linarith
    with False show ?thesis
      by (auto simp: itoa_swap.simps [of s len i])
  qed
qed

lemma length_itoa_swap [simp]: "length (itoa_swap s len i) = length s"
  by (induction s len i rule: itoa_swap.induct) (subst itoa_swap.simps, simp)

lemma itoa_swap_rev:
  "len \<le> length s \<Longrightarrow> itoa_swap s len 0 = rev (take len s) @ drop len s"
  by (rule nth_equalityI) (auto simp: itoa_swap_nth nth_append rev_nth)

lemma itoa_digits_0 [simp]: "itoa_digits s len 0 = Some (s, len)"
  by (simp add: itoa_digits.simps c_div_def c_mod_def)

lemma itoa_digits_step:
  assumes "0 < n" "len + 1 < length s"
  shows "itoa_digits s len (int n) =
    itoa_digits (s[len + 1 := s ! len, len := digit (n mod 10)]) (len + 1) (int (n div 10))"
proof -
  have "n mod 10 \<noteq> 0 \<or> n div 10 \<noteq> 0"
    using \<open>0 < n\<close> by (metis add.right_neutral div_mult_mod_eq less_irrefl mult_zero_left)
  moreover have "c_mod (int n) 10 = int (n mod 10)" "c_div (int n) 10 = int (n div 10)"
    by (simp_all add: c_mod_def c_div_def zmod_int zdiv_int)
  moreover have "char_of (nat ((int (n mod 10) + 48) mod 256)) = digit (n mod 10)"
  proof -
    have "n mod 10 < 10" by simp
    then have "(int (n mod 10) + 48) mod 256 = int (n mod 10) + 48" by simp
    then show ?thesis by (simp add: digit_def nat_add_distrib add.commute)
  qed
  ultimately show ?thesis
    using assms(2) by (subst itoa_digits.simps) (auto simp: put_def Let_def)
qed

lemma itoa_digits_dec:
  "0 < n \<Longrightarrow> len + length (dec n) < length s \<Longrightarrow>
   \<exists>s'. itoa_digits s len (int n) = Some (s', len + length (dec n)) \<and> length s' = length s \<and>
     take (len + length (dec n)) s' = take len s @ rev (dec n)"
proof (induction n arbitrary: s len rule: dec.induct)
  case (1 n)
  let ?t = "s[len + 1 := s ! len, len := digit (n mod 10)]"
  have room: "len + 1 < length s"
    using 1(3) dec_nonempty [of n] by (cases "dec n") auto
  note step = itoa_digits_step [OF 1(2) room]
  have t: "take (Suc len) ?t = take len s @ [digit (n mod 10)]"
    using room by (simp add: take_Suc_conv_app_nth)
  show ?case
  proof (cases "n < 10")
    case True
    with step t show ?thesis by (simp add: dec.simps [of n])
  next
    case False
    then have d: "length (dec n) = Suc (length (dec (n div 10)))"
      "dec n = dec (n div 10) @ [digit (n mod 10)]"
      by (simp_all add: dec.simps [of n])
    have "\<exists>s'. itoa_digits ?t (len + 1) (int (n div 10)) =
        Some (s', len + 1 + length (dec (n div 10))) \<and> length s' = length ?t \<and>
        take (len + 1 + length (dec (n div 10))) s' = take (len + 1) ?t @ rev (dec (n div 10))"
      using 1(3) d False by (intro 1) (simp_all add: div_greater_zero_iff)
    with step t d show ?thesis by auto
  qed
qed

lemma hi_itoa_shape:
  assumes "0 < n" "n < 2147483648" "length (dec_int (if neg then - int n else int n)) < length s"
  shows "\<exists>s'. hi_itoa s (if neg then - int n else int n) = Some s' \<and> length s' = length s \<and>
    (let d = dec_int (if neg then - int n else int n) in
     take (Suc (length d)) s' = d @ [NUL])"
proof -
  have len: "length (dec n) < length s" "neg \<Longrightarrow> Suc (length (dec n)) < length s"
    using assms(3) \<open>0 < n\<close> by (auto simp: dec_int_def split: if_splits)
  obtain s1 where s1: "itoa_digits s 0 (int n) = Some (s1, length (dec n))"
    "length s1 = length s" "take (length (dec n)) s1 = rev (dec n)"
    using itoa_digits_dec [of n 0 s] assms(1) len(1) by auto
  define s2 where "s2 = (if neg then s1[length (dec n) := CHR ''-''] else s1)"
  define k where "k = (if neg then Suc (length (dec n)) else length (dec n))"
  have k: "k < length s1" "length s2 = length s1"
    using len s1 by (auto simp: k_def s2_def)
  have t: "take k s2 = rev (dec_int (if neg then - int n else int n))"
    using k s1 assms(1) by (auto simp: k_def s2_def dec_int_def take_Suc_conv_app_nth)
  have kd: "k = length (dec_int (if neg then - int n else int n))"
    using assms(1) by (auto simp: k_def dec_int_def)
  have "hi_itoa s (if neg then - int n else int n) = Some (itoa_swap (s2[k := NUL]) k 0)"
    using assms(1,2) s1 k len
    by (auto simp: hi_itoa_def put_def s2_def k_def c_int_id Let_def)
  moreover have "itoa_swap (s2[k := NUL]) k 0 = rev (take k s2) @ NUL # drop (Suc k) s2"
    using k by (subst itoa_swap_rev) (simp_all add: drop_update_swap Cons_nth_drop_Suc [symmetric])
  ultimately show ?thesis
    using k t kd s1(2) by (simp add: Let_def)
qed

lemma sendn_acc:
  "hi_sendn ios s n acc = Some (r, out) \<Longrightarrow>
   \<exists>t. out = acc @ t \<and> (\<exists>u. s = t @ u \<and> (r = int n \<and> u = [] \<or> r = - 1))"
proof (induction ios s n acc rule: hi_sendn.induct)
  case (5 k ios c cs n acc)
  show ?case
  proof (cases "k = 0")
    case False
    then obtain t u where "out = (acc @ take k (c # cs)) @ t" "drop k (c # cs) = t @ u"
      "r = int n \<and> u = [] \<or> r = - 1"
      using 5 by auto
    moreover have "c # cs = take k (c # cs) @ drop k (c # cs)" by simp
    ultimately have "out = acc @ (take k (c # cs) @ t)" "c # cs = (take k (c # cs) @ t) @ u"
      "r = int n \<and> u = [] \<or> r = - 1"
      by simp_all
    then show ?thesis by blast
  qed (use 5 in auto)
qed auto

section \<open>Properties\<close>



text \<open>\<^verbatim>\<open>_hi_itoa\<close> writes the decimal numeral of every non-zero \<^verbatim>\<open>int\<close> other than the
  least one, followed by the terminating zero byte, when the buffer has room for it; it never
  writes outside such a buffer.\<close>

lemma hi_itoa_nonzero:
  assumes "num \<noteq> 0" "- 2147483648 < num" "num < 2147483648" "length (dec_int num) < length s"
  shows "\<exists>s'. hi_itoa s num = Some s' \<and> length s' = length s \<and>
    take (Suc (length (dec_int num))) s' = dec_int num @ [NUL]"
proof -
  have "num = (if num < 0 then - int (nat \<bar>num\<bar>) else int (nat \<bar>num\<bar>))"
    by simp
  then show ?thesis
    using hi_itoa_shape [of "nat \<bar>num\<bar>" "num < 0" s] assms by (simp add: Let_def)
qed

lemma hi_itoa_nonzero_witness:
  "\<exists>s'. hi_itoa ''........'' (- 907) = Some s' \<and> length s' = length ''........'' \<and>
    take (Suc (length (dec_int (- 907)))) s' = dec_int (- 907) @ [NUL]"
proof -
  have "dec_int (- 907) = ''-907''"
    by (simp add: dec_int_def dec.simps ascii)
  then show ?thesis using hi_itoa_nonzero [of "- 907" "''........''"] by simp
qed

text \<open>For the argument 0 the terminator is missing: whatever followed in the buffer is
  left in place, so a reused buffer reads as a longer number.\<close>

lemma hi_itoa_zero_stale: "hi_itoa (c # s) 0 = Some (CHR ''0'' # s)"
  by (simp add: hi_itoa_def put_def)

text \<open>\<^verbatim>\<open>_uint_len\<close> is the number of decimal digits of its argument, so a buffer of that
  size holds what \<^verbatim>\<open>_hi_itoa\<close> or \<^verbatim>\<open>printf\<close> writes.\<close>

lemma uint_len_digits: "uint_len num = length (dec num)"
  by (simp add: uint_len_def uint_len_loop_dec dec.simps [of 0])

text \<open>When \<^verbatim>\<open>_hi_sendn\<close> returns, the bytes handed to the socket are a prefix of the
  buffer in order, and a return value equal to the request means all of it was sent.\<close>

lemma hi_sendn_prefix:
  assumes "hi_sendn ios s (length s) [] = Some (r, out)"
  shows "(r = int (length s) \<and> out = s) \<or> (r = - 1 \<and> (\<exists>u. s = out @ u))"
  using sendn_acc [OF assms] by auto

lemma hi_sendn_prefix_witness:
  "hi_sendn [EINTR, Moved 2, Moved 1] ''abc'' (length ''abc'') [] = Some (3, ''abc'') \<and>
   ((3 :: int) = int (length ''abc'') \<and> ''abc'' = ''abc'' \<or> (3 :: int) = - 1 \<and> (\<exists>u. ''abc'' = ''abc'' @ u))"
proof -
  have "hi_sendn [EINTR, Moved 2, Moved 1] ''abc'' (length ''abc'') [] = Some (3, ''abc'')"
    by simp
  from this hi_sendn_prefix [OF this] show ?thesis by simp
qed

end
