(* ===== verification/HiArray.thy ===== *)
theory HiArray
  imports Prelude
begin

text \<open>
  Model of \<^verbatim>\<open>hiarray.c\<close> and \<^verbatim>\<open>hiarray.h\<close>, the growable array in which the
  command parser collects key positions.  A slot is \<^term>\<open>None\<close> while it is allocated
  but not written; an element pointer is the index of its slot, and \<^verbatim>\<open>NULL\<close> storage
  is the empty slot list.  The argument \<open>mal\<close> of the allocating operations says which
  allocation sizes succeed.  The interface \<open>grow_array\<close> is what clients rely on; it is
  interpreted on the operations below.
\<close>

record 'a hiarray =
  nelem :: nat
  elem :: "'a option list"
  esize :: nat
  nalloc :: nat

section \<open>Operations\<close>

definition resize :: "nat \<Rightarrow> 'a option list \<Rightarrow> 'a option list" where
  "resize n xs = take n xs @ replicate (n - length xs) None"

definition hiarray_null :: "'a hiarray" where
  "hiarray_null = \<lparr> nelem = 0, elem = [], esize = 0, nalloc = 0 \<rparr>"

definition hiarray_set :: "'a option list \<Rightarrow> nat \<Rightarrow> nat \<Rightarrow> 'a hiarray" where
  "hiarray_set xs sz n = \<lparr> nelem = 0, elem = xs, esize = sz, nalloc = n \<rparr>"

definition hiarray_n :: "'a hiarray \<Rightarrow> nat" where
  "hiarray_n a = nelem a"

text \<open>The \<^verbatim>\<open>size_t\<close> product of an element count and an element size, and the number
  of whole slots the resulting block has.\<close>

definition block_bytes :: "nat \<Rightarrow> nat \<Rightarrow> nat" where
  "block_bytes n sz = c_size (int (n * sz))"

definition hiarray_init :: "(nat \<Rightarrow> bool) \<Rightarrow> nat \<Rightarrow> nat \<Rightarrow> 'a hiarray option" where
  "hiarray_init mal n sz =
     (if mal (block_bytes n sz)
      then Some \<lparr> nelem = 0, elem = replicate (block_bytes n sz div sz) None,
                   esize = sz, nalloc = n \<rparr>
      else None)"

definition hiarray_create :: "(nat \<Rightarrow> bool) \<Rightarrow> nat \<Rightarrow> nat \<Rightarrow> 'a hiarray option" where
  "hiarray_create mal n sz =
     (if mal 32 then
        (if mal (block_bytes n sz)
         then Some \<lparr> nelem = 0, elem = replicate (block_bytes n sz div sz) None,
                      esize = sz, nalloc = n \<rparr>
         else None)
      else None)"

definition hiarray_idx :: "'a hiarray \<Rightarrow> nat \<Rightarrow> nat" where
  "hiarray_idx a slot = u32 (slot * esize a) div u32 (esize a)"

definition hiarray_push :: "(nat \<Rightarrow> bool) \<Rightarrow> 'a hiarray \<Rightarrow> ('a hiarray \<times> nat) option" where
  "hiarray_push mal a =
     (if nelem a = nalloc a then
        (let bytes = c_size (int (2 * block_bytes (nalloc a) (esize a))) in
         if mal bytes then
           (let a' = a\<lparr>elem := resize (bytes div esize a) (elem a), nalloc := u32 (nalloc a * 2)\<rparr> in
            Some (a'\<lparr>nelem := u32 (nelem a' + 1)\<rparr>, nelem a'))
         else None)
      else Some (a\<lparr>nelem := u32 (nelem a + 1)\<rparr>, nelem a))"

definition hiarray_pop :: "'a hiarray \<Rightarrow> 'a hiarray \<times> nat" where
  "hiarray_pop a = (let n = u32 (nelem a + 4294967295) in (a\<lparr>nelem := n\<rparr>, n))"

definition hiarray_get :: "'a hiarray \<Rightarrow> nat \<Rightarrow> nat" where
  "hiarray_get a idx = idx"

definition hiarray_top :: "'a hiarray \<Rightarrow> nat" where
  "hiarray_top a = hiarray_get a (u32 (nelem a + 4294967295))"

definition hiarray_swap :: "'a hiarray \<Rightarrow> 'a hiarray \<Rightarrow> 'a hiarray \<times> 'a hiarray" where
  "hiarray_swap a b = (b, a)"

text \<open>Reads and writes through an element pointer; \<^term>\<open>None\<close> is an access outside the
  block, or a read of a slot that was never written.\<close>

definition hiarray_deref :: "'a hiarray \<Rightarrow> nat \<Rightarrow> 'a option" where
  "hiarray_deref a p = (if p < length (elem a) then elem a ! p else None)"

definition hiarray_store :: "'a hiarray \<Rightarrow> nat \<Rightarrow> 'a \<Rightarrow> 'a hiarray option" where
  "hiarray_store a p v =
     (if p < length (elem a) then Some (a\<lparr>elem := (elem a)[p := Some v]\<rparr>) else None)"

text \<open>\<open>hiarray_each\<close> stops at the first element whose callback does not return
  \<^verbatim>\<open>HI_OK\<close>; the callback threads its \<^verbatim>\<open>data\<close>.\<close>

fun each_loop :: "'a hiarray \<Rightarrow> ('a option \<Rightarrow> 's \<Rightarrow> int \<times> 's) \<Rightarrow> nat \<Rightarrow> nat \<Rightarrow> 's \<Rightarrow> int \<times> 's" where
  "each_loop a func i 0 d = (0, d)"
| "each_loop a func i (Suc k) d =
     (let (status, d') = func (hiarray_deref a (hiarray_get a i)) d in
      if status \<noteq> 0 then (status, d') else each_loop a func (i + 1) k d')"

definition hiarray_each :: "'a hiarray \<Rightarrow> ('a option \<Rightarrow> 's \<Rightarrow> int \<times> 's) \<Rightarrow> 's \<Rightarrow> int \<times> 's" where
  "hiarray_each a func d = each_loop a func 0 (hiarray_n a) d"

text \<open>The code pattern of every client: push a slot, then fill it through the returned
  pointer.  The outer \<^term>\<open>None\<close> is the \<^verbatim>\<open>NULL\<close> of a failed push, the inner one a store
  outside the block.\<close>

definition push_store :: "(nat \<Rightarrow> bool) \<Rightarrow> 'a hiarray \<Rightarrow> 'a \<Rightarrow> 'a hiarray option option" where
  "push_store mal a v =
     (case hiarray_push mal a of None \<Rightarrow> None | Some (a', p) \<Rightarrow> Some (hiarray_store a' p v))"

section \<open>The interface\<close>

text \<open>What a client of a growable array relies on: the contents as a list, a capacity
  bound, appending, reading by index and dropping the last element.\<close>

locale grow_array =
  fixes inv :: "'r \<Rightarrow> bool"
    and contents :: "'r \<Rightarrow> 'v list"
    and room :: "'r \<Rightarrow> bool"
    and add :: "'r \<Rightarrow> 'v \<Rightarrow> 'r option option"
    and read :: "'r \<Rightarrow> nat \<Rightarrow> 'v option"
  assumes add_inv: "inv r \<Longrightarrow> room r \<Longrightarrow> add r v = Some (Some r') \<Longrightarrow> inv r'"
    and add_contents: "inv r \<Longrightarrow> room r \<Longrightarrow> add r v = Some (Some r') \<Longrightarrow> contents r' = contents r @ [v]"
    and add_in_block: "inv r \<Longrightarrow> room r \<Longrightarrow> add r v \<noteq> Some None"
    and read_contents: "inv r \<Longrightarrow> i < length (contents r) \<Longrightarrow> read r i = Some (contents r ! i)"
begin

lemma add_length:
  "inv r \<Longrightarrow> room r \<Longrightarrow> add r v = Some (Some r') \<Longrightarrow> length (contents r') = Suc (length (contents r))"
  by (simp add: add_contents)

lemma add_cases:
  assumes "inv r" "room r"
  obtains "add r v = None"
  | r' where "add r v = Some (Some r')" "inv r'" "contents r' = contents r @ [v]"
  using assms add_inv add_contents add_in_block by (metis option.exhaust)

lemma read_after_add:
  assumes "inv r" "room r" "add r v = Some (Some r')" "i \<le> length (contents r)"
  shows "read r' i = Some (if i = length (contents r) then v else contents r ! i)"
  using assms add_inv add_contents read_contents
  by (simp add: nth_append less_Suc_eq_le)

end

section \<open>Correctness\<close>

definition hiarray_list :: "'a hiarray \<Rightarrow> 'a list" where
  "hiarray_list a = map the (take (nelem a) (elem a))"

definition hiarray_inv :: "'a hiarray \<Rightarrow> bool" where
  "hiarray_inv a \<longleftrightarrow>
     0 < esize a \<and> 0 < nalloc a \<and> nelem a \<le> nalloc a \<and> nalloc a < 4294967296 \<and>
     esize a * nalloc a < 9223372036854775808 \<and>
     length (elem a) = nalloc a \<and> None \<notin> set (take (nelem a) (elem a))"

text \<open>There is a free slot, or doubling neither wraps the 32-bit capacity nor the byte
  count.\<close>

definition hiarray_room :: "'a hiarray \<Rightarrow> bool" where
  "hiarray_room a \<longleftrightarrow>
     nelem a < nalloc a \<or> nalloc a < 2147483648 \<and> esize a * nalloc a < 4611686018427387904"

lemma length_resize [simp]: "length (resize n xs) = n"
  by (simp add: resize_def)

lemma take_resize: "k \<le> length xs \<Longrightarrow> k \<le> n \<Longrightarrow> take k (resize n xs) = take k xs"
  by (simp add: resize_def)

lemma block_bytes_id: "n * sz < 18446744073709551616 \<Longrightarrow> block_bytes n sz = n * sz"
  unfolding block_bytes_def by (rule c_size_of_nat)

lemma hiarray_init_inv:
  assumes "hiarray_init mal n sz = Some a" "0 < n" "n < 4294967296" "0 < sz"
    "sz * n < 9223372036854775808"
  shows "hiarray_inv a \<and> hiarray_list a = []"
proof -
  have "n * sz < 18446744073709551616" using assms(5) by (simp add: mult.commute)
  with assms show ?thesis
    by (auto simp: hiarray_init_def hiarray_inv_def hiarray_list_def block_bytes_id
        split: if_splits)
qed

lemma push_inv:
  assumes inv: "hiarray_inv a" and room: "hiarray_room a" and "hiarray_push mal a = Some (a', p)"
  shows "p = nelem a \<and> nelem a' = Suc (nelem a) \<and> p < length (elem a') \<and>
    length (elem a') = nalloc a' \<and> 0 < nalloc a' \<and> nelem a' \<le> nalloc a' \<and>
    nalloc a' < 4294967296 \<and>
    esize a' * nalloc a' < 9223372036854775808 \<and> 0 < esize a' \<and>
    take (nelem a) (elem a') = take (nelem a) (elem a)"
proof (cases "nelem a = nalloc a")
  case True
  have room2: "2 * (nalloc a * esize a) < 18446744073709551616"
    "nalloc a * esize a < 18446744073709551616"
    using room True by (auto simp: hiarray_room_def mult.commute)
  then have "c_size (int (2 * block_bytes (nalloc a) (esize a))) = esize a * (2 * nalloc a)"
    by (simp only: block_bytes_id c_size_of_nat) simp
  moreover have "u32 (nalloc a * 2) = 2 * nalloc a" "u32 (Suc (nelem a)) = Suc (nelem a)"
    using room inv True by (simp_all add: hiarray_room_def hiarray_inv_def u32_id)
  ultimately have "p = nelem a" and a': "a' = a\<lparr>elem := resize (2 * nalloc a) (elem a),
      nalloc := 2 * nalloc a, nelem := Suc (nelem a)\<rparr>"
    using assms True by (auto simp: hiarray_push_def Let_def hiarray_inv_def split: if_splits)
  with inv room True show ?thesis
    by (simp add: hiarray_inv_def hiarray_room_def take_resize)
next
  case False
  moreover have "u32 (Suc (nelem a)) = Suc (nelem a)"
    using False inv by (simp add: hiarray_inv_def u32_id)
  ultimately show ?thesis
    using assms by (auto simp: hiarray_push_def hiarray_inv_def hiarray_room_def)
qed

lemma push_store_SomeD:
  assumes "hiarray_inv a" "hiarray_room a" "push_store mal a v = Some b"
  obtains a' where "b = Some (a'\<lparr>elem := (elem a')[nelem a := Some v]\<rparr>)"
    and "hiarray_push mal a = Some (a', nelem a)"
proof -
  obtain a' p where p: "hiarray_push mal a = Some (a', p)" "hiarray_store a' p v = b"
    using assms(3) by (auto simp: push_store_def split: option.splits prod.splits)
  note i = push_inv [OF assms(1,2) p(1)]
  then have "b = Some (a'\<lparr>elem := (elem a')[nelem a := Some v]\<rparr>)"
    using p(2) by (simp add: hiarray_store_def)
  with p(1) i show thesis by (intro that [of a']) simp_all
qed

interpretation ha: grow_array hiarray_inv hiarray_list hiarray_room "push_store mal"
  "\<lambda>a i. hiarray_deref a (hiarray_get a i)"
proof unfold_locales
  fix a a' :: "'a hiarray" and v
  assume a: "hiarray_inv a" "hiarray_room a" "push_store mal a v = Some (Some a')"
  obtain b where b: "a' = b\<lparr>elem := (elem b)[nelem a := Some v]\<rparr>"
    "hiarray_push mal a = Some (b, nelem a)"
    using push_store_SomeD [OF a] by blast
  note i = push_inv [OF a(1,2) b(2)]
  have f: "nelem a' = Suc (nelem a)" "nalloc a' = nalloc b" "esize a' = esize b"
    "length (elem a') = length (elem b)"
    using i unfolding b(1) by simp_all
  have t: "take (nelem a') (elem a') = take (nelem a) (elem a) @ [Some v]"
    unfolding f(1) unfolding b(1) using i by (simp add: take_Suc_conv_app_nth)
  have "None \<notin> set (take (nelem a) (elem a))"
    using a(1) by (simp add: hiarray_inv_def)
  then show "hiarray_inv a'"
    unfolding hiarray_inv_def t unfolding f using i by simp
  show "hiarray_list a' = hiarray_list a @ [v]"
    unfolding hiarray_list_def t by simp
next
  fix a :: "'a hiarray" and v
  assume a: "hiarray_inv a" "hiarray_room a"
  show "push_store mal a v \<noteq> Some None"
  proof
    assume "push_store mal a v = Some None"
    from push_store_SomeD [OF a this] show False by simp
  qed
next
  fix a :: "'a hiarray" and i
  assume a: "hiarray_inv a" "i < length (hiarray_list a)"
  then have "elem a ! i \<in> set (take (nelem a) (elem a))"
    by (auto simp: hiarray_list_def in_set_conv_nth)
  with a(1) have "elem a ! i \<noteq> None" unfolding hiarray_inv_def by metis
  with a show "hiarray_deref a (hiarray_get a i) = Some (hiarray_list a ! i)"
    by (simp add: hiarray_deref_def hiarray_get_def hiarray_list_def hiarray_inv_def)
qed

lemma push_store_esize: "push_store mal a v = Some (Some a') \<Longrightarrow> esize a' = esize a"
  by (auto simp: push_store_def hiarray_push_def hiarray_store_def Let_def
      split: option.splits if_splits)

lemma length_hiarray_list: "hiarray_inv a \<Longrightarrow> length (hiarray_list a) = nelem a"
  by (simp add: hiarray_inv_def hiarray_list_def)

end
