(* ===== verification/CmdTypes.thy ===== *)
theory CmdTypes
  imports HiArray
begin

text \<open>
  The data of \<^verbatim>\<open>command.h\<close> and the tables of \<^verbatim>\<open>command.c\<close>: the command types, the
  \<^verbatim>\<open>struct cmd\<close> a request is parsed into, the arity classes (\<^verbatim>\<open>redis_argz\<close> to
  \<^verbatim>\<open>redis_argeval\<close>) and the command names the parser recognises, grouped by length in
  the order of the comparisons in the code.  Positions in the request are offsets into
  its buffer.
\<close>

section \<open>Data\<close>

datatype cmd_parse_result =
    CMD_PARSE_OK | CMD_PARSE_ENOMEM | CMD_PARSE_ERROR | CMD_PARSE_REPAIR | CMD_PARSE_AGAIN

datatype (plugins only: size) cmd_type =
    CMD_UNKNOWN | CMD_REQ_REDIS_DEL | CMD_REQ_REDIS_EXISTS | CMD_REQ_REDIS_EXPIRE |
    CMD_REQ_REDIS_EXPIREAT | CMD_REQ_REDIS_PEXPIRE | CMD_REQ_REDIS_PEXPIREAT |
    CMD_REQ_REDIS_PERSIST | CMD_REQ_REDIS_PTTL | CMD_REQ_REDIS_SORT | CMD_REQ_REDIS_TTL |
    CMD_REQ_REDIS_TYPE | CMD_REQ_REDIS_APPEND | CMD_REQ_REDIS_BITCOUNT | CMD_REQ_REDIS_DECR |
    CMD_REQ_REDIS_DECRBY | CMD_REQ_REDIS_DUMP | CMD_REQ_REDIS_GET | CMD_REQ_REDIS_GETBIT |
    CMD_REQ_REDIS_GETRANGE | CMD_REQ_REDIS_GETSET | CMD_REQ_REDIS_INCR | CMD_REQ_REDIS_INCRBY |
    CMD_REQ_REDIS_INCRBYFLOAT | CMD_REQ_REDIS_MGET | CMD_REQ_REDIS_MSET |
    CMD_REQ_REDIS_PSETEX | CMD_REQ_REDIS_RESTORE | CMD_REQ_REDIS_SET | CMD_REQ_REDIS_SETBIT |
    CMD_REQ_REDIS_SETEX | CMD_REQ_REDIS_SETNX | CMD_REQ_REDIS_SETRANGE | CMD_REQ_REDIS_STRLEN |
    CMD_REQ_REDIS_HDEL | CMD_REQ_REDIS_HEXISTS | CMD_REQ_REDIS_HGET | CMD_REQ_REDIS_HGETALL |
    CMD_REQ_REDIS_HINCRBY | CMD_REQ_REDIS_HINCRBYFLOAT | CMD_REQ_REDIS_HKEYS |
    CMD_REQ_REDIS_HLEN | CMD_REQ_REDIS_HMGET | CMD_REQ_REDIS_HMSET | CMD_REQ_REDIS_HSET |
    CMD_REQ_REDIS_HSETNX | CMD_REQ_REDIS_HSCAN | CMD_REQ_REDIS_HVALS | CMD_REQ_REDIS_LINDEX |
    CMD_REQ_REDIS_LINSERT | CMD_REQ_REDIS_LLEN | CMD_REQ_REDIS_LPOP | CMD_REQ_REDIS_LPUSH |
    CMD_REQ_REDIS_LPUSHX | CMD_REQ_REDIS_LRANGE | CMD_REQ_REDIS_LREM | CMD_REQ_REDIS_LSET |
    CMD_REQ_REDIS_LTRIM | CMD_REQ_REDIS_PFADD | CMD_REQ_REDIS_PFCOUNT | CMD_REQ_REDIS_PFMERGE |
    CMD_REQ_REDIS_RPOP | CMD_REQ_REDIS_RPOPLPUSH | CMD_REQ_REDIS_RPUSH | CMD_REQ_REDIS_RPUSHX |
    CMD_REQ_REDIS_SADD | CMD_REQ_REDIS_SCARD | CMD_REQ_REDIS_SDIFF | CMD_REQ_REDIS_SDIFFSTORE |
    CMD_REQ_REDIS_SINTER | CMD_REQ_REDIS_SINTERSTORE | CMD_REQ_REDIS_SISMEMBER |
    CMD_REQ_REDIS_SMEMBERS | CMD_REQ_REDIS_SMOVE | CMD_REQ_REDIS_SPOP |
    CMD_REQ_REDIS_SRANDMEMBER | CMD_REQ_REDIS_SREM | CMD_REQ_REDIS_SUNION |
    CMD_REQ_REDIS_SUNIONSTORE | CMD_REQ_REDIS_SSCAN | CMD_REQ_REDIS_ZADD |
    CMD_REQ_REDIS_ZCARD | CMD_REQ_REDIS_ZCOUNT | CMD_REQ_REDIS_ZINCRBY |
    CMD_REQ_REDIS_ZINTERSTORE | CMD_REQ_REDIS_ZLEXCOUNT | CMD_REQ_REDIS_ZRANGE |
    CMD_REQ_REDIS_ZRANGEBYLEX | CMD_REQ_REDIS_ZRANGEBYSCORE | CMD_REQ_REDIS_ZRANK |
    CMD_REQ_REDIS_ZREM | CMD_REQ_REDIS_ZREMRANGEBYRANK | CMD_REQ_REDIS_ZREMRANGEBYLEX |
    CMD_REQ_REDIS_ZREMRANGEBYSCORE | CMD_REQ_REDIS_ZREVRANGE | CMD_REQ_REDIS_ZREVRANGEBYSCORE |
    CMD_REQ_REDIS_ZREVRANK | CMD_REQ_REDIS_ZSCORE | CMD_REQ_REDIS_ZUNIONSTORE |
    CMD_REQ_REDIS_ZSCAN | CMD_REQ_REDIS_EVAL | CMD_REQ_REDIS_EVALSHA | CMD_REQ_REDIS_PING |
    CMD_REQ_REDIS_QUIT | CMD_REQ_REDIS_AUTH | CMD_RSP_REDIS_STATUS | CMD_RSP_REDIS_ERROR |
    CMD_RSP_REDIS_INTEGER | CMD_RSP_REDIS_BULK | CMD_RSP_REDIS_MULTIBULK | CMD_SENTINEL

text \<open>The enumeration in its order, for the number an error message prints.\<close>

definition cmd_types :: "cmd_type list" where
  "cmd_types = [
     CMD_UNKNOWN, CMD_REQ_REDIS_DEL, CMD_REQ_REDIS_EXISTS, CMD_REQ_REDIS_EXPIRE,
     CMD_REQ_REDIS_EXPIREAT, CMD_REQ_REDIS_PEXPIRE, CMD_REQ_REDIS_PEXPIREAT,
     CMD_REQ_REDIS_PERSIST, CMD_REQ_REDIS_PTTL, CMD_REQ_REDIS_SORT, CMD_REQ_REDIS_TTL,
     CMD_REQ_REDIS_TYPE, CMD_REQ_REDIS_APPEND, CMD_REQ_REDIS_BITCOUNT, CMD_REQ_REDIS_DECR,
     CMD_REQ_REDIS_DECRBY, CMD_REQ_REDIS_DUMP, CMD_REQ_REDIS_GET, CMD_REQ_REDIS_GETBIT,
     CMD_REQ_REDIS_GETRANGE, CMD_REQ_REDIS_GETSET, CMD_REQ_REDIS_INCR, CMD_REQ_REDIS_INCRBY,
     CMD_REQ_REDIS_INCRBYFLOAT, CMD_REQ_REDIS_MGET, CMD_REQ_REDIS_MSET, CMD_REQ_REDIS_PSETEX,
     CMD_REQ_REDIS_RESTORE, CMD_REQ_REDIS_SET, CMD_REQ_REDIS_SETBIT, CMD_REQ_REDIS_SETEX,
     CMD_REQ_REDIS_SETNX, CMD_REQ_REDIS_SETRANGE, CMD_REQ_REDIS_STRLEN, CMD_REQ_REDIS_HDEL,
     CMD_REQ_REDIS_HEXISTS, CMD_REQ_REDIS_HGET, CMD_REQ_REDIS_HGETALL, CMD_REQ_REDIS_HINCRBY,
     CMD_REQ_REDIS_HINCRBYFLOAT, CMD_REQ_REDIS_HKEYS, CMD_REQ_REDIS_HLEN, CMD_REQ_REDIS_HMGET,
     CMD_REQ_REDIS_HMSET, CMD_REQ_REDIS_HSET, CMD_REQ_REDIS_HSETNX, CMD_REQ_REDIS_HSCAN,
     CMD_REQ_REDIS_HVALS, CMD_REQ_REDIS_LINDEX, CMD_REQ_REDIS_LINSERT, CMD_REQ_REDIS_LLEN,
     CMD_REQ_REDIS_LPOP, CMD_REQ_REDIS_LPUSH, CMD_REQ_REDIS_LPUSHX, CMD_REQ_REDIS_LRANGE,
     CMD_REQ_REDIS_LREM, CMD_REQ_REDIS_LSET, CMD_REQ_REDIS_LTRIM, CMD_REQ_REDIS_PFADD,
     CMD_REQ_REDIS_PFCOUNT, CMD_REQ_REDIS_PFMERGE, CMD_REQ_REDIS_RPOP, CMD_REQ_REDIS_RPOPLPUSH,
     CMD_REQ_REDIS_RPUSH, CMD_REQ_REDIS_RPUSHX, CMD_REQ_REDIS_SADD, CMD_REQ_REDIS_SCARD,
     CMD_REQ_REDIS_SDIFF, CMD_REQ_REDIS_SDIFFSTORE, CMD_REQ_REDIS_SINTER,
     CMD_REQ_REDIS_SINTERSTORE, CMD_REQ_REDIS_SISMEMBER, CMD_REQ_REDIS_SMEMBERS,
     CMD_REQ_REDIS_SMOVE, CMD_REQ_REDIS_SPOP, CMD_REQ_REDIS_SRANDMEMBER, CMD_REQ_REDIS_SREM,
     CMD_REQ_REDIS_SUNION, CMD_REQ_REDIS_SUNIONSTORE, CMD_REQ_REDIS_SSCAN, CMD_REQ_REDIS_ZADD,
     CMD_REQ_REDIS_ZCARD, CMD_REQ_REDIS_ZCOUNT, CMD_REQ_REDIS_ZINCRBY,
     CMD_REQ_REDIS_ZINTERSTORE, CMD_REQ_REDIS_ZLEXCOUNT, CMD_REQ_REDIS_ZRANGE,
     CMD_REQ_REDIS_ZRANGEBYLEX, CMD_REQ_REDIS_ZRANGEBYSCORE, CMD_REQ_REDIS_ZRANK,
     CMD_REQ_REDIS_ZREM, CMD_REQ_REDIS_ZREMRANGEBYRANK, CMD_REQ_REDIS_ZREMRANGEBYLEX,
     CMD_REQ_REDIS_ZREMRANGEBYSCORE, CMD_REQ_REDIS_ZREVRANGE, CMD_REQ_REDIS_ZREVRANGEBYSCORE,
     CMD_REQ_REDIS_ZREVRANK, CMD_REQ_REDIS_ZSCORE, CMD_REQ_REDIS_ZUNIONSTORE,
     CMD_REQ_REDIS_ZSCAN, CMD_REQ_REDIS_EVAL, CMD_REQ_REDIS_EVALSHA, CMD_REQ_REDIS_PING,
     CMD_REQ_REDIS_QUIT, CMD_REQ_REDIS_AUTH, CMD_RSP_REDIS_STATUS, CMD_RSP_REDIS_ERROR,
     CMD_RSP_REDIS_INTEGER, CMD_RSP_REDIS_BULK, CMD_RSP_REDIS_MULTIBULK, CMD_SENTINEL]"

definition cmd_type_num :: "cmd_type \<Rightarrow> nat" where
  "cmd_type_num t = length (takeWhile (\<lambda>u. u \<noteq> t) cmd_types)"

record keypos =
  kstart :: nat
  kend :: nat
  remain_len :: "nat option"

text \<open>Of the sub-command, reply and fragment pointers, which the parser does not touch, only
  identities are kept.\<close>

record cmd =
  cid :: nat
  result :: cmd_parse_result
  cerrstr :: "string option"
  ctype :: cmd_type
  cmd_buf :: string
  clen :: nat
  keys :: "keypos hiarray"
  narg_start :: "nat option"
  narg_end :: "nat option"
  narg :: nat
  quit :: bool
  noforward :: bool
  slot_num :: int
  frag_seq :: "nat list option"
  creply :: "nat option"
  sub_commands :: "nat list option"

section \<open>Arity classes\<close>

definition redis_argz :: "cmd \<Rightarrow> bool" where
  "redis_argz r \<longleftrightarrow> ctype r \<in> {
     CMD_REQ_REDIS_PING, CMD_REQ_REDIS_QUIT}"

definition redis_arg0 :: "cmd \<Rightarrow> bool" where
  "redis_arg0 r \<longleftrightarrow> ctype r \<in> {
     CMD_REQ_REDIS_EXISTS, CMD_REQ_REDIS_PERSIST, CMD_REQ_REDIS_PTTL, CMD_REQ_REDIS_SORT,
     CMD_REQ_REDIS_TTL, CMD_REQ_REDIS_TYPE, CMD_REQ_REDIS_DUMP, CMD_REQ_REDIS_DECR,
     CMD_REQ_REDIS_GET, CMD_REQ_REDIS_INCR, CMD_REQ_REDIS_STRLEN, CMD_REQ_REDIS_HGETALL,
     CMD_REQ_REDIS_HKEYS, CMD_REQ_REDIS_HLEN, CMD_REQ_REDIS_HVALS, CMD_REQ_REDIS_LLEN,
     CMD_REQ_REDIS_LPOP, CMD_REQ_REDIS_RPOP, CMD_REQ_REDIS_SCARD, CMD_REQ_REDIS_SMEMBERS,
     CMD_REQ_REDIS_SPOP, CMD_REQ_REDIS_ZCARD, CMD_REQ_REDIS_PFCOUNT, CMD_REQ_REDIS_AUTH}"

definition redis_arg1 :: "cmd \<Rightarrow> bool" where
  "redis_arg1 r \<longleftrightarrow> ctype r \<in> {
     CMD_REQ_REDIS_EXPIRE, CMD_REQ_REDIS_EXPIREAT, CMD_REQ_REDIS_PEXPIRE,
     CMD_REQ_REDIS_PEXPIREAT, CMD_REQ_REDIS_APPEND, CMD_REQ_REDIS_DECRBY, CMD_REQ_REDIS_GETBIT,
     CMD_REQ_REDIS_GETSET, CMD_REQ_REDIS_INCRBY, CMD_REQ_REDIS_INCRBYFLOAT,
     CMD_REQ_REDIS_SETNX, CMD_REQ_REDIS_HEXISTS, CMD_REQ_REDIS_HGET, CMD_REQ_REDIS_LINDEX,
     CMD_REQ_REDIS_LPUSHX, CMD_REQ_REDIS_RPOPLPUSH, CMD_REQ_REDIS_RPUSHX,
     CMD_REQ_REDIS_SISMEMBER, CMD_REQ_REDIS_ZRANK, CMD_REQ_REDIS_ZREVRANK, CMD_REQ_REDIS_ZSCORE}"

definition redis_arg2 :: "cmd \<Rightarrow> bool" where
  "redis_arg2 r \<longleftrightarrow> ctype r \<in> {
     CMD_REQ_REDIS_GETRANGE, CMD_REQ_REDIS_PSETEX, CMD_REQ_REDIS_SETBIT, CMD_REQ_REDIS_SETEX,
     CMD_REQ_REDIS_SETRANGE, CMD_REQ_REDIS_HINCRBY, CMD_REQ_REDIS_HINCRBYFLOAT,
     CMD_REQ_REDIS_HSET, CMD_REQ_REDIS_HSETNX, CMD_REQ_REDIS_LRANGE, CMD_REQ_REDIS_LREM,
     CMD_REQ_REDIS_LSET, CMD_REQ_REDIS_LTRIM, CMD_REQ_REDIS_SMOVE, CMD_REQ_REDIS_ZCOUNT,
     CMD_REQ_REDIS_ZLEXCOUNT, CMD_REQ_REDIS_ZINCRBY, CMD_REQ_REDIS_ZREMRANGEBYLEX,
     CMD_REQ_REDIS_ZREMRANGEBYRANK, CMD_REQ_REDIS_ZREMRANGEBYSCORE, CMD_REQ_REDIS_RESTORE}"

definition redis_arg3 :: "cmd \<Rightarrow> bool" where
  "redis_arg3 r \<longleftrightarrow> ctype r \<in> {
     CMD_REQ_REDIS_LINSERT}"

definition redis_argn :: "cmd \<Rightarrow> bool" where
  "redis_argn r \<longleftrightarrow> ctype r \<in> {
     CMD_REQ_REDIS_BITCOUNT, CMD_REQ_REDIS_SET, CMD_REQ_REDIS_HDEL, CMD_REQ_REDIS_HMGET,
     CMD_REQ_REDIS_HMSET, CMD_REQ_REDIS_HSCAN, CMD_REQ_REDIS_LPUSH, CMD_REQ_REDIS_RPUSH,
     CMD_REQ_REDIS_SADD, CMD_REQ_REDIS_SDIFF, CMD_REQ_REDIS_SDIFFSTORE, CMD_REQ_REDIS_SINTER,
     CMD_REQ_REDIS_SINTERSTORE, CMD_REQ_REDIS_SREM, CMD_REQ_REDIS_SUNION,
     CMD_REQ_REDIS_SUNIONSTORE, CMD_REQ_REDIS_SRANDMEMBER, CMD_REQ_REDIS_SSCAN,
     CMD_REQ_REDIS_PFADD, CMD_REQ_REDIS_PFMERGE, CMD_REQ_REDIS_ZADD, CMD_REQ_REDIS_ZINTERSTORE,
     CMD_REQ_REDIS_ZRANGE, CMD_REQ_REDIS_ZRANGEBYSCORE, CMD_REQ_REDIS_ZREM,
     CMD_REQ_REDIS_ZREVRANGE, CMD_REQ_REDIS_ZRANGEBYLEX, CMD_REQ_REDIS_ZREVRANGEBYSCORE,
     CMD_REQ_REDIS_ZUNIONSTORE, CMD_REQ_REDIS_ZSCAN}"

definition redis_argx :: "cmd \<Rightarrow> bool" where
  "redis_argx r \<longleftrightarrow> ctype r \<in> {
     CMD_REQ_REDIS_MGET, CMD_REQ_REDIS_DEL}"

definition redis_argkvx :: "cmd \<Rightarrow> bool" where
  "redis_argkvx r \<longleftrightarrow> ctype r \<in> {
     CMD_REQ_REDIS_MSET}"

definition redis_argeval :: "cmd \<Rightarrow> bool" where
  "redis_argeval r \<longleftrightarrow> ctype r \<in> {
     CMD_REQ_REDIS_EVAL, CMD_REQ_REDIS_EVALSHA}"

lemmas redis_arg_defs = redis_argz_def redis_arg0_def redis_arg1_def redis_arg2_def redis_arg3_def
  redis_argn_def redis_argx_def redis_argkvx_def redis_argeval_def

text \<open>The classes are disjoint.\<close>

lemma class_disjoint:
  "redis_argz r \<Longrightarrow> \<not> redis_arg0 r \<and> \<not> redis_arg1 r \<and> \<not> redis_arg2 r \<and> \<not> redis_arg3 r \<and> \<not> redis_argn r \<and> \<not> redis_argx r \<and> \<not> redis_argkvx r \<and> \<not> redis_argeval r"
  "redis_arg0 r \<Longrightarrow> \<not> redis_argz r \<and> \<not> redis_arg1 r \<and> \<not> redis_arg2 r \<and> \<not> redis_arg3 r \<and> \<not> redis_argn r \<and> \<not> redis_argx r \<and> \<not> redis_argkvx r \<and> \<not> redis_argeval r"
  "redis_arg1 r \<Longrightarrow> \<not> redis_argz r \<and> \<not> redis_arg0 r \<and> \<not> redis_arg2 r \<and> \<not> redis_arg3 r \<and> \<not> redis_argn r \<and> \<not> redis_argx r \<and> \<not> redis_argkvx r \<and> \<not> redis_argeval r"
  "redis_arg2 r \<Longrightarrow> \<not> redis_argz r \<and> \<not> redis_arg0 r \<and> \<not> redis_arg1 r \<and> \<not> redis_arg3 r \<and> \<not> redis_argn r \<and> \<not> redis_argx r \<and> \<not> redis_argkvx r \<and> \<not> redis_argeval r"
  "redis_arg3 r \<Longrightarrow> \<not> redis_argz r \<and> \<not> redis_arg0 r \<and> \<not> redis_arg1 r \<and> \<not> redis_arg2 r \<and> \<not> redis_argn r \<and> \<not> redis_argx r \<and> \<not> redis_argkvx r \<and> \<not> redis_argeval r"
  "redis_argn r \<Longrightarrow> \<not> redis_argz r \<and> \<not> redis_arg0 r \<and> \<not> redis_arg1 r \<and> \<not> redis_arg2 r \<and> \<not> redis_arg3 r \<and> \<not> redis_argx r \<and> \<not> redis_argkvx r \<and> \<not> redis_argeval r"
  "redis_argx r \<Longrightarrow> \<not> redis_argz r \<and> \<not> redis_arg0 r \<and> \<not> redis_arg1 r \<and> \<not> redis_arg2 r \<and> \<not> redis_arg3 r \<and> \<not> redis_argn r \<and> \<not> redis_argkvx r \<and> \<not> redis_argeval r"
  "redis_argkvx r \<Longrightarrow> \<not> redis_argz r \<and> \<not> redis_arg0 r \<and> \<not> redis_arg1 r \<and> \<not> redis_arg2 r \<and> \<not> redis_arg3 r \<and> \<not> redis_argn r \<and> \<not> redis_argx r \<and> \<not> redis_argeval r"
  "redis_argeval r \<Longrightarrow> \<not> redis_argz r \<and> \<not> redis_arg0 r \<and> \<not> redis_arg1 r \<and> \<not> redis_arg2 r \<and> \<not> redis_arg3 r \<and> \<not> redis_argn r \<and> \<not> redis_argx r \<and> \<not> redis_argkvx r"
  unfolding redis_arg_defs by (elim insertE emptyE; simp)+

lemma redis_arg_keys [simp]:
  "redis_argz (r\<lparr>keys := ks\<rparr>) = redis_argz r"
  "redis_arg0 (r\<lparr>keys := ks\<rparr>) = redis_arg0 r"
  "redis_arg1 (r\<lparr>keys := ks\<rparr>) = redis_arg1 r"
  "redis_arg2 (r\<lparr>keys := ks\<rparr>) = redis_arg2 r"
  "redis_arg3 (r\<lparr>keys := ks\<rparr>) = redis_arg3 r"
  "redis_argn (r\<lparr>keys := ks\<rparr>) = redis_argn r"
  "redis_argx (r\<lparr>keys := ks\<rparr>) = redis_argx r"
  "redis_argkvx (r\<lparr>keys := ks\<rparr>) = redis_argkvx r"
  "redis_argeval (r\<lparr>keys := ks\<rparr>) = redis_argeval r"
  by (simp_all add: redis_arg_defs)

section \<open>Command names\<close>

text \<open>\<open>stricmp m s\<close> is the family \<^verbatim>\<open>str3icmp\<close> to \<^verbatim>\<open>str16icmp\<close> of \<^verbatim>\<open>hiutil.h\<close>: the bytes at
  \<open>m\<close> against the characters of \<open>s\<close>, where each may differ in bit 5.\<close>

definition flip_case :: "char \<Rightarrow> char" where
  "flip_case c = char_of (Bit_Operations.xor (ord c) 32)"

fun stricmp :: "string \<Rightarrow> string \<Rightarrow> bool" where
  "stricmp m [] = True"
| "stricmp [] (c # s) = False"
| "stricmp (d # m) (c # s) = ((d = c \<or> d = flip_case c) \<and> stricmp m s)"

definition req_names3 :: "(string \<times> cmd_type) list" where
  "req_names3 = [
     (''get'', CMD_REQ_REDIS_GET), (''set'', CMD_REQ_REDIS_SET), (''ttl'', CMD_REQ_REDIS_TTL),
     (''del'', CMD_REQ_REDIS_DEL)]"

definition req_names4 :: "(string \<times> cmd_type) list" where
  "req_names4 = [
     (''pttl'', CMD_REQ_REDIS_PTTL), (''decr'', CMD_REQ_REDIS_DECR),
     (''dump'', CMD_REQ_REDIS_DUMP), (''hdel'', CMD_REQ_REDIS_HDEL),
     (''hget'', CMD_REQ_REDIS_HGET), (''hlen'', CMD_REQ_REDIS_HLEN),
     (''hset'', CMD_REQ_REDIS_HSET), (''incr'', CMD_REQ_REDIS_INCR),
     (''llen'', CMD_REQ_REDIS_LLEN), (''lpop'', CMD_REQ_REDIS_LPOP),
     (''lrem'', CMD_REQ_REDIS_LREM), (''lset'', CMD_REQ_REDIS_LSET),
     (''rpop'', CMD_REQ_REDIS_RPOP), (''sadd'', CMD_REQ_REDIS_SADD),
     (''spop'', CMD_REQ_REDIS_SPOP), (''srem'', CMD_REQ_REDIS_SREM),
     (''type'', CMD_REQ_REDIS_TYPE), (''mget'', CMD_REQ_REDIS_MGET),
     (''mset'', CMD_REQ_REDIS_MSET), (''zadd'', CMD_REQ_REDIS_ZADD),
     (''zrem'', CMD_REQ_REDIS_ZREM), (''eval'', CMD_REQ_REDIS_EVAL),
     (''sort'', CMD_REQ_REDIS_SORT), (''ping'', CMD_REQ_REDIS_PING),
     (''quit'', CMD_REQ_REDIS_QUIT), (''auth'', CMD_REQ_REDIS_AUTH)]"

definition req_names5 :: "(string \<times> cmd_type) list" where
  "req_names5 = [
     (''hkeys'', CMD_REQ_REDIS_HKEYS), (''hmget'', CMD_REQ_REDIS_HMGET),
     (''hmset'', CMD_REQ_REDIS_HMSET), (''hvals'', CMD_REQ_REDIS_HVALS),
     (''hscan'', CMD_REQ_REDIS_HSCAN), (''lpush'', CMD_REQ_REDIS_LPUSH),
     (''ltrim'', CMD_REQ_REDIS_LTRIM), (''rpush'', CMD_REQ_REDIS_RPUSH),
     (''scard'', CMD_REQ_REDIS_SCARD), (''sdiff'', CMD_REQ_REDIS_SDIFF),
     (''setex'', CMD_REQ_REDIS_SETEX), (''setnx'', CMD_REQ_REDIS_SETNX),
     (''smove'', CMD_REQ_REDIS_SMOVE), (''sscan'', CMD_REQ_REDIS_SSCAN),
     (''zcard'', CMD_REQ_REDIS_ZCARD), (''zrank'', CMD_REQ_REDIS_ZRANK),
     (''zscan'', CMD_REQ_REDIS_ZSCAN), (''pfadd'', CMD_REQ_REDIS_PFADD)]"

definition req_names6 :: "(string \<times> cmd_type) list" where
  "req_names6 = [
     (''append'', CMD_REQ_REDIS_APPEND), (''decrby'', CMD_REQ_REDIS_DECRBY),
     (''exists'', CMD_REQ_REDIS_EXISTS), (''expire'', CMD_REQ_REDIS_EXPIRE),
     (''getbit'', CMD_REQ_REDIS_GETBIT), (''getset'', CMD_REQ_REDIS_GETSET),
     (''psetex'', CMD_REQ_REDIS_PSETEX), (''hsetnx'', CMD_REQ_REDIS_HSETNX),
     (''incrby'', CMD_REQ_REDIS_INCRBY), (''lindex'', CMD_REQ_REDIS_LINDEX),
     (''lpushx'', CMD_REQ_REDIS_LPUSHX), (''lrange'', CMD_REQ_REDIS_LRANGE),
     (''rpushx'', CMD_REQ_REDIS_RPUSHX), (''setbit'', CMD_REQ_REDIS_SETBIT),
     (''sinter'', CMD_REQ_REDIS_SINTER), (''strlen'', CMD_REQ_REDIS_STRLEN),
     (''sunion'', CMD_REQ_REDIS_SUNION), (''zcount'', CMD_REQ_REDIS_ZCOUNT),
     (''zrange'', CMD_REQ_REDIS_ZRANGE), (''zscore'', CMD_REQ_REDIS_ZSCORE)]"

definition req_names7 :: "(string \<times> cmd_type) list" where
  "req_names7 = [
     (''persist'', CMD_REQ_REDIS_PERSIST), (''pexpire'', CMD_REQ_REDIS_PEXPIRE),
     (''hexists'', CMD_REQ_REDIS_HEXISTS), (''hgetall'', CMD_REQ_REDIS_HGETALL),
     (''hincrby'', CMD_REQ_REDIS_HINCRBY), (''linsert'', CMD_REQ_REDIS_LINSERT),
     (''zincrby'', CMD_REQ_REDIS_ZINCRBY), (''evalsha'', CMD_REQ_REDIS_EVALSHA),
     (''restore'', CMD_REQ_REDIS_RESTORE), (''pfcount'', CMD_REQ_REDIS_PFCOUNT),
     (''pfmerge'', CMD_REQ_REDIS_PFMERGE)]"

definition req_names8 :: "(string \<times> cmd_type) list" where
  "req_names8 = [
     (''expireat'', CMD_REQ_REDIS_EXPIREAT), (''bitcount'', CMD_REQ_REDIS_BITCOUNT),
     (''getrange'', CMD_REQ_REDIS_GETRANGE), (''setrange'', CMD_REQ_REDIS_SETRANGE),
     (''smembers'', CMD_REQ_REDIS_SMEMBERS), (''zrevrank'', CMD_REQ_REDIS_ZREVRANK)]"

definition req_names9 :: "(string \<times> cmd_type) list" where
  "req_names9 = [
     (''pexpireat'', CMD_REQ_REDIS_PEXPIREAT), (''rpoplpush'', CMD_REQ_REDIS_RPOPLPUSH),
     (''sismember'', CMD_REQ_REDIS_SISMEMBER), (''zrevrange'', CMD_REQ_REDIS_ZREVRANGE),
     (''zlexcount'', CMD_REQ_REDIS_ZLEXCOUNT)]"

definition req_names10 :: "(string \<times> cmd_type) list" where
  "req_names10 = [
     (''sdiffstore'', CMD_REQ_REDIS_SDIFFSTORE)]"

definition req_names11 :: "(string \<times> cmd_type) list" where
  "req_names11 = [
     (''incrbyfloat'', CMD_REQ_REDIS_INCRBYFLOAT),
     (''sinterstore'', CMD_REQ_REDIS_SINTERSTORE),
     (''srandmember'', CMD_REQ_REDIS_SRANDMEMBER),
     (''sunionstore'', CMD_REQ_REDIS_SUNIONSTORE),
     (''zinterstore'', CMD_REQ_REDIS_ZINTERSTORE),
     (''zunionstore'', CMD_REQ_REDIS_ZUNIONSTORE), (''zrangebylex'', CMD_REQ_REDIS_ZRANGEBYLEX)]"

definition req_names12 :: "(string \<times> cmd_type) list" where
  "req_names12 = [
     (''hincrbyfloat'', CMD_REQ_REDIS_HINCRBYFLOAT)]"

definition req_names13 :: "(string \<times> cmd_type) list" where
  "req_names13 = [
     (''zrangebyscore'', CMD_REQ_REDIS_ZRANGEBYSCORE)]"

definition req_names14 :: "(string \<times> cmd_type) list" where
  "req_names14 = [
     (''zremrangebylex'', CMD_REQ_REDIS_ZREMRANGEBYLEX)]"

definition req_names15 :: "(string \<times> cmd_type) list" where
  "req_names15 = [
     (''zremrangebyrank'', CMD_REQ_REDIS_ZREMRANGEBYRANK)]"

definition req_names16 :: "(string \<times> cmd_type) list" where
  "req_names16 = [
     (''zremrangebyscore'', CMD_REQ_REDIS_ZREMRANGEBYSCORE),
     (''zrevrangebyscore'', CMD_REQ_REDIS_ZREVRANGEBYSCORE)]"

text \<open>The table the \<^verbatim>\<open>switch\<close> on the name length selects.  The case of length 10 has no
  \<^verbatim>\<open>break\<close> after its only comparison and runs on into the one of length 11.\<close>

definition req_names :: "nat \<Rightarrow> (string \<times> cmd_type) list" where
  "req_names n =
     (if n = 3 then req_names3 else if n = 4 then req_names4 else if n = 5 then req_names5
      else if n = 6 then req_names6 else if n = 7 then req_names7 else if n = 8 then req_names8
      else if n = 9 then req_names9 else if n = 10 then req_names10 @ req_names11
      else if n = 11 then req_names11 else if n = 12 then req_names12
      else if n = 13 then req_names13 else if n = 14 then req_names14
      else if n = 15 then req_names15 else if n = 16 then req_names16 else [])"

fun lookup_name :: "(string \<times> cmd_type) list \<Rightarrow> string \<Rightarrow> cmd_type" where
  "lookup_name [] m = CMD_UNKNOWN"
| "lookup_name ((s, t) # tbl) m = (if stricmp m s then t else lookup_name tbl m)"

lemmas req_names_defs = req_names3_def req_names4_def req_names5_def req_names6_def req_names7_def
  req_names8_def req_names9_def req_names10_def req_names11_def req_names12_def req_names13_def
  req_names14_def req_names15_def req_names16_def

end
