(* ===== verification/Command.thy ===== *)
theory Command
  imports CmdTypes
begin

text \<open>
  Model of the request parser \<^verbatim>\<open>redis_parse_cmd\<close> of \<^verbatim>\<open>command.c\<close>: one step function per
  state of its automaton, the scanning loop, and the three exits.  \<^term>\<open>None\<close> as the
  final value stands for an access outside the request buffer, a store outside the key
  array or through a failed allocation of the error text.  The safety theorem shows
  when that is impossible.
\<close>

section \<open>State of the scan\<close>

datatype sw =
    SW_START | SW_NARG | SW_NARG_LF | SW_REQ_TYPE_LEN | SW_REQ_TYPE_LEN_LF | SW_REQ_TYPE
  | SW_REQ_TYPE_LF | SW_KEY_LEN | SW_KEY_LEN_LF | SW_KEY | SW_KEY_LF | SW_ARG1_LEN
  | SW_ARG1_LEN_LF | SW_ARG1 | SW_ARG1_LF | SW_ARG2_LEN | SW_ARG2_LEN_LF | SW_ARG2
  | SW_ARG2_LF | SW_ARG3_LEN | SW_ARG3_LEN_LF | SW_ARG3 | SW_ARG3_LF | SW_ARGN_LEN
  | SW_ARGN_LEN_LF | SW_ARGN | SW_ARGN_LF | SW_SENTINEL

primrec sw_num :: "sw \<Rightarrow> nat" where
  "sw_num SW_START = 0" | "sw_num SW_NARG = 1" | "sw_num SW_NARG_LF = 2"
| "sw_num SW_REQ_TYPE_LEN = 3" | "sw_num SW_REQ_TYPE_LEN_LF = 4" | "sw_num SW_REQ_TYPE = 5"
| "sw_num SW_REQ_TYPE_LF = 6" | "sw_num SW_KEY_LEN = 7" | "sw_num SW_KEY_LEN_LF = 8"
| "sw_num SW_KEY = 9" | "sw_num SW_KEY_LF = 10" | "sw_num SW_ARG1_LEN = 11"
| "sw_num SW_ARG1_LEN_LF = 12" | "sw_num SW_ARG1 = 13" | "sw_num SW_ARG1_LF = 14"
| "sw_num SW_ARG2_LEN = 15" | "sw_num SW_ARG2_LEN_LF = 16" | "sw_num SW_ARG2 = 17"
| "sw_num SW_ARG2_LF = 18" | "sw_num SW_ARG3_LEN = 19" | "sw_num SW_ARG3_LEN_LF = 20"
| "sw_num SW_ARG3 = 21" | "sw_num SW_ARG3_LF = 22" | "sw_num SW_ARGN_LEN = 23"
| "sw_num SW_ARGN_LEN_LF = 24" | "sw_num SW_ARGN = 25" | "sw_num SW_ARGN_LF = 26"
| "sw_num SW_SENTINEL = 27"

record pst =
  sw :: sw
  ppos :: nat
  token :: "nat option"
  rlen :: nat
  rnarg :: nat

text \<open>A step falls out of the \<^verbatim>\<open>switch\<close>, or jumps to one of the three labels; \<open>Fault\<close> is
  a memory error.\<close>

datatype outcome = Cont pst cmd | Done cmd | Enomem cmd | Error pst cmd | Fault

definition rd :: "cmd \<Rightarrow> nat \<Rightarrow> char option" where
  "rd r i = (if i < length (cmd_buf r) then Some (cmd_buf r ! i) else None)"

section \<open>Steps\<close>

definition step_NARG :: "cmd \<Rightarrow> char \<Rightarrow> pst \<Rightarrow> outcome" where
  "step_NARG r ch st =
     (case token st of
        None \<Rightarrow>
          if ch \<noteq> CHR ''*'' then Error st r
          else Cont (st\<lparr>token := Some (ppos st), rnarg := 0, sw := SW_NARG\<rparr>)
                    (r\<lparr>narg_start := Some (ppos st)\<rparr>)
      | Some _ \<Rightarrow>
          if isdigit ch then Cont (st\<lparr>rnarg := u32 (rnarg st * 10 + digit_val ch)\<rparr>) r
          else if ch = CR then
            (if rnarg st = 0 then Error st r
             else Cont (st\<lparr>token := None, sw := SW_NARG_LF\<rparr>)
                       (r\<lparr>narg := rnarg st, narg_end := Some (ppos st)\<rparr>))
          else Error st r)"

definition expect_LF :: "sw \<Rightarrow> cmd \<Rightarrow> char \<Rightarrow> pst \<Rightarrow> outcome" where
  "expect_LF next r ch st = (if ch = LF then Cont (st\<lparr>sw := next\<rparr>) r else Error st r)"

definition step_NARG_LF :: "cmd \<Rightarrow> char \<Rightarrow> pst \<Rightarrow> outcome" where
  "step_NARG_LF = expect_LF SW_REQ_TYPE_LEN"

text \<open>The three variants of a length line differ in what they check at its end.\<close>

definition step_len :: "(pst \<Rightarrow> bool) \<Rightarrow> sw \<Rightarrow> cmd \<Rightarrow> char \<Rightarrow> pst \<Rightarrow> outcome" where
  "step_len bad next r ch st =
     (case token st of
        None \<Rightarrow>
          if ch \<noteq> CHR ''$'' then Error st r
          else Cont (st\<lparr>token := Some (ppos st), rlen := 0\<rparr>) r
      | Some _ \<Rightarrow>
          if isdigit ch then Cont (st\<lparr>rlen := u32 (rlen st * 10 + digit_val ch)\<rparr>) r
          else if ch = CR then
            (if bad st \<or> rnarg st = 0 then Error st r
             else Cont (st\<lparr>rnarg := rnarg st - 1, token := None, sw := next\<rparr>) r)
          else Error st r)"

definition step_REQ_TYPE_LEN :: "cmd \<Rightarrow> char \<Rightarrow> pst \<Rightarrow> outcome" where
  "step_REQ_TYPE_LEN = step_len (\<lambda>st. rlen st = 0) SW_REQ_TYPE_LEN_LF"

definition step_REQ_TYPE_LEN_LF :: "cmd \<Rightarrow> char \<Rightarrow> pst \<Rightarrow> outcome" where
  "step_REQ_TYPE_LEN_LF = expect_LF SW_REQ_TYPE"

text \<open>\<open>set_type\<close> is the body of a matching name comparison.\<close>

definition set_type :: "cmd_type \<Rightarrow> cmd \<Rightarrow> cmd" where
  "set_type t r =
     (if t = CMD_REQ_REDIS_PING \<or> t = CMD_REQ_REDIS_AUTH then r\<lparr>ctype := t, noforward := True\<rparr>
      else if t = CMD_REQ_REDIS_QUIT then r\<lparr>ctype := t, quit := True\<rparr>
      else r\<lparr>ctype := t\<rparr>)"

definition step_REQ_TYPE :: "cmd \<Rightarrow> char \<Rightarrow> pst \<Rightarrow> outcome" where
  "step_REQ_TYPE r ch st =
     (let st = (if token st = None then st\<lparr>token := Some (ppos st)\<rparr> else st);
          start = the (token st);
          m = start + rlen st in
      if m \<ge> clen r then Error st r
      else case rd r m of
        None \<Rightarrow> Fault
      | Some c \<Rightarrow>
          if c \<noteq> CR then Error st r
          else
            (let st = st\<lparr>ppos := m, rlen := 0, token := None\<rparr>;
                 r = set_type (lookup_name (req_names (m - start)) (drop start (cmd_buf r))) r in
             if ctype r = CMD_UNKNOWN then Error st r
             else Cont (st\<lparr>sw := SW_REQ_TYPE_LF\<rparr>) r))"

definition step_REQ_TYPE_LF :: "cmd \<Rightarrow> char \<Rightarrow> pst \<Rightarrow> outcome" where
  "step_REQ_TYPE_LF r ch st =
     (if ch = LF then
        (if redis_argz r then Done r
         else if redis_argeval r then Cont (st\<lparr>sw := SW_ARG1_LEN\<rparr>) r
         else Cont (st\<lparr>sw := SW_KEY_LEN\<rparr>) r)
      else Error st r)"

definition step_KEY_LEN :: "cmd \<Rightarrow> char \<Rightarrow> pst \<Rightarrow> outcome" where
  "step_KEY_LEN = step_len (\<lambda>st. False) SW_KEY_LEN_LF"

definition step_KEY_LEN_LF :: "cmd \<Rightarrow> char \<Rightarrow> pst \<Rightarrow> outcome" where
  "step_KEY_LEN_LF = expect_LF SW_KEY"

definition step_KEY :: "(nat \<Rightarrow> bool) \<Rightarrow> cmd \<Rightarrow> char \<Rightarrow> pst \<Rightarrow> outcome" where
  "step_KEY mal r ch st =
     (let st = (if token st = None then st\<lparr>token := Some (ppos st)\<rparr> else st);
          start = the (token st);
          m = start + rlen st in
      if m \<ge> clen r then Error st r
      else case rd r m of
        None \<Rightarrow> Fault
      | Some c \<Rightarrow>
          if c \<noteq> CR then Error st r
          else
            (let st = st\<lparr>ppos := m, rlen := 0, token := None\<rparr> in
             case push_store mal (keys r) \<lparr> kstart = start, kend = m, remain_len = None \<rparr> of
               None \<Rightarrow> Enomem r
             | Some None \<Rightarrow> Fault
             | Some (Some ks) \<Rightarrow> Cont (st\<lparr>sw := SW_KEY_LF\<rparr>) (r\<lparr>keys := ks\<rparr>)))"

definition step_KEY_LF :: "cmd \<Rightarrow> char \<Rightarrow> pst \<Rightarrow> outcome" where
  "step_KEY_LF r ch st =
     (if ch = LF then
        (if redis_arg0 r then (if rnarg st \<noteq> 0 then Error st r else Done r)
         else if redis_arg1 r then
           (if rnarg st \<noteq> 1 then Error st r else Cont (st\<lparr>sw := SW_ARG1_LEN\<rparr>) r)
         else if redis_arg2 r then
           (if rnarg st \<noteq> 2 then Error st r else Cont (st\<lparr>sw := SW_ARG1_LEN\<rparr>) r)
         else if redis_arg3 r then
           (if rnarg st \<noteq> 3 then Error st r else Cont (st\<lparr>sw := SW_ARG1_LEN\<rparr>) r)
         else if redis_argn r then
           (if rnarg st = 0 then Done r else Cont (st\<lparr>sw := SW_ARG1_LEN\<rparr>) r)
         else if redis_argx r then
           (if rnarg st = 0 then Done r else Cont (st\<lparr>sw := SW_KEY_LEN\<rparr>) r)
         else if redis_argkvx r then
           (if rnarg st = 0 then Done r
            else if narg r mod 2 = 0 then Error st r
            else Cont (st\<lparr>sw := SW_ARG1_LEN\<rparr>) r)
         else if redis_argeval r then
           (if rnarg st = 0 then Done r else Cont (st\<lparr>sw := SW_ARGN_LEN\<rparr>) r)
         else Error st r)
      else Error st r)"

text \<open>The length check of an argument: no digit between the dollar sign and the end of the
  line.\<close>

definition no_digits :: "pst \<Rightarrow> bool" where
  "no_digits st = (ppos st - the (token st) \<le> 1)"

definition step_ARG1_LEN :: "cmd \<Rightarrow> char \<Rightarrow> pst \<Rightarrow> outcome" where
  "step_ARG1_LEN = step_len no_digits SW_ARG1_LEN_LF"

definition step_ARG1_LEN_LF :: "cmd \<Rightarrow> char \<Rightarrow> pst \<Rightarrow> outcome" where
  "step_ARG1_LEN_LF = expect_LF SW_ARG1"

text \<open>Skipping the bytes of an argument.\<close>

definition step_arg :: "sw \<Rightarrow> cmd \<Rightarrow> char \<Rightarrow> pst \<Rightarrow> outcome" where
  "step_arg next r ch st =
     (let m = ppos st + rlen st in
      if m \<ge> clen r then Error st r
      else case rd r m of
        None \<Rightarrow> Fault
      | Some c \<Rightarrow>
          if c \<noteq> CR then Error st r
          else Cont (st\<lparr>ppos := m, rlen := 0, sw := next\<rparr>) r)"

definition step_ARG1 :: "cmd \<Rightarrow> char \<Rightarrow> pst \<Rightarrow> outcome" where
  "step_ARG1 = step_arg SW_ARG1_LF"

definition step_ARG1_LF :: "cmd \<Rightarrow> char \<Rightarrow> pst \<Rightarrow> outcome" where
  "step_ARG1_LF r ch st =
     (if ch = LF then
        (if redis_arg1 r then (if rnarg st \<noteq> 0 then Error st r else Done r)
         else if redis_arg2 r then
           (if rnarg st \<noteq> 1 then Error st r else Cont (st\<lparr>sw := SW_ARG2_LEN\<rparr>) r)
         else if redis_arg3 r then
           (if rnarg st \<noteq> 2 then Error st r else Cont (st\<lparr>sw := SW_ARG2_LEN\<rparr>) r)
         else if redis_argn r then
           (if rnarg st = 0 then Done r else Cont (st\<lparr>sw := SW_ARGN_LEN\<rparr>) r)
         else if redis_argeval r then
           (if rnarg st < 2 then Error st r else Cont (st\<lparr>sw := SW_ARG2_LEN\<rparr>) r)
         else if redis_argkvx r then
           (if rnarg st = 0 then Done r else Cont (st\<lparr>sw := SW_KEY_LEN\<rparr>) r)
         else Error st r)
      else Error st r)"

definition step_ARG2_LEN :: "cmd \<Rightarrow> char \<Rightarrow> pst \<Rightarrow> outcome" where
  "step_ARG2_LEN = step_len no_digits SW_ARG2_LEN_LF"

definition step_ARG2_LEN_LF :: "cmd \<Rightarrow> char \<Rightarrow> pst \<Rightarrow> outcome" where
  "step_ARG2_LEN_LF = expect_LF SW_ARG2"

text \<open>The number of keys of a script call: \<^term>\<open>None\<close> when a byte is not a digit.\<close>

fun nkey_loop :: "string \<Rightarrow> nat \<Rightarrow> nat option" where
  "nkey_loop [] nkey = Some nkey"
| "nkey_loop (c # cs) nkey =
     (if isdigit c then nkey_loop cs (u32 (nkey * 10 + digit_val c)) else None)"

definition step_ARG2 :: "cmd \<Rightarrow> char \<Rightarrow> pst \<Rightarrow> outcome" where
  "step_ARG2 r ch st =
     (let st = (if token st = None \<and> redis_argeval r then st\<lparr>token := Some (ppos st)\<rparr> else st);
          m = ppos st + rlen st in
      if m \<ge> clen r then Error st r
      else case rd r m of
        None \<Rightarrow> Fault
      | Some c \<Rightarrow>
          if c \<noteq> CR then Error st r
          else
            (let st = st\<lparr>ppos := m, rlen := 0\<rparr> in
             if redis_argeval r then
               (let start = the (token st) in
                if m - start < 1 then Error st r
                else case nkey_loop (take (m - start) (drop start (cmd_buf r))) 0 of
                  None \<Rightarrow> Error st r
                | Some nkey \<Rightarrow>
                    if nkey = 0 then Error st r
                    else Cont (st\<lparr>token := None, sw := SW_ARG2_LF\<rparr>) r)
             else Cont (st\<lparr>sw := SW_ARG2_LF\<rparr>) r))"

definition step_ARG2_LF :: "cmd \<Rightarrow> char \<Rightarrow> pst \<Rightarrow> outcome" where
  "step_ARG2_LF r ch st =
     (if ch = LF then
        (if redis_arg2 r then (if rnarg st \<noteq> 0 then Error st r else Done r)
         else if redis_arg3 r then
           (if rnarg st \<noteq> 1 then Error st r else Cont (st\<lparr>sw := SW_ARG3_LEN\<rparr>) r)
         else if redis_argn r then
           (if rnarg st = 0 then Done r else Cont (st\<lparr>sw := SW_ARGN_LEN\<rparr>) r)
         else if redis_argeval r then
           (if rnarg st < 1 then Error st r else Cont (st\<lparr>sw := SW_KEY_LEN\<rparr>) r)
         else Error st r)
      else Error st r)"

definition step_ARG3_LEN :: "cmd \<Rightarrow> char \<Rightarrow> pst \<Rightarrow> outcome" where
  "step_ARG3_LEN = step_len no_digits SW_ARG3_LEN_LF"

definition step_ARG3_LEN_LF :: "cmd \<Rightarrow> char \<Rightarrow> pst \<Rightarrow> outcome" where
  "step_ARG3_LEN_LF = expect_LF SW_ARG3"

definition step_ARG3 :: "cmd \<Rightarrow> char \<Rightarrow> pst \<Rightarrow> outcome" where
  "step_ARG3 = step_arg SW_ARG3_LF"

definition step_ARG3_LF :: "cmd \<Rightarrow> char \<Rightarrow> pst \<Rightarrow> outcome" where
  "step_ARG3_LF r ch st =
     (if ch = LF then
        (if redis_arg3 r then (if rnarg st \<noteq> 0 then Error st r else Done r)
         else if redis_argn r then
           (if rnarg st = 0 then Done r else Cont (st\<lparr>sw := SW_ARGN_LEN\<rparr>) r)
         else Error st r)
      else Error st r)"

definition step_ARGN_LEN :: "cmd \<Rightarrow> char \<Rightarrow> pst \<Rightarrow> outcome" where
  "step_ARGN_LEN = step_len no_digits SW_ARGN_LEN_LF"

definition step_ARGN_LEN_LF :: "cmd \<Rightarrow> char \<Rightarrow> pst \<Rightarrow> outcome" where
  "step_ARGN_LEN_LF = expect_LF SW_ARGN"

definition step_ARGN :: "cmd \<Rightarrow> char \<Rightarrow> pst \<Rightarrow> outcome" where
  "step_ARGN = step_arg SW_ARGN_LF"

definition step_ARGN_LF :: "cmd \<Rightarrow> char \<Rightarrow> pst \<Rightarrow> outcome" where
  "step_ARGN_LF r ch st =
     (if ch = LF then
        (if redis_argn r \<or> redis_argeval r then
           (if rnarg st = 0 then Done r else Cont (st\<lparr>sw := SW_ARGN_LEN\<rparr>) r)
         else Error st r)
      else Error st r)"

text \<open>The \<^verbatim>\<open>switch\<close>; its default is \<^verbatim>\<open>NOT_REACHED\<close>.\<close>

fun step :: "(nat \<Rightarrow> bool) \<Rightarrow> cmd \<Rightarrow> char \<Rightarrow> pst \<Rightarrow> outcome" where
  "step mal r ch st =
     (case sw st of
        SW_START \<Rightarrow> step_NARG r ch st | SW_NARG \<Rightarrow> step_NARG r ch st
      | SW_NARG_LF \<Rightarrow> step_NARG_LF r ch st
      | SW_REQ_TYPE_LEN \<Rightarrow> step_REQ_TYPE_LEN r ch st
      | SW_REQ_TYPE_LEN_LF \<Rightarrow> step_REQ_TYPE_LEN_LF r ch st
      | SW_REQ_TYPE \<Rightarrow> step_REQ_TYPE r ch st | SW_REQ_TYPE_LF \<Rightarrow> step_REQ_TYPE_LF r ch st
      | SW_KEY_LEN \<Rightarrow> step_KEY_LEN r ch st | SW_KEY_LEN_LF \<Rightarrow> step_KEY_LEN_LF r ch st
      | SW_KEY \<Rightarrow> step_KEY mal r ch st | SW_KEY_LF \<Rightarrow> step_KEY_LF r ch st
      | SW_ARG1_LEN \<Rightarrow> step_ARG1_LEN r ch st | SW_ARG1_LEN_LF \<Rightarrow> step_ARG1_LEN_LF r ch st
      | SW_ARG1 \<Rightarrow> step_ARG1 r ch st | SW_ARG1_LF \<Rightarrow> step_ARG1_LF r ch st
      | SW_ARG2_LEN \<Rightarrow> step_ARG2_LEN r ch st | SW_ARG2_LEN_LF \<Rightarrow> step_ARG2_LEN_LF r ch st
      | SW_ARG2 \<Rightarrow> step_ARG2 r ch st | SW_ARG2_LF \<Rightarrow> step_ARG2_LF r ch st
      | SW_ARG3_LEN \<Rightarrow> step_ARG3_LEN r ch st | SW_ARG3_LEN_LF \<Rightarrow> step_ARG3_LEN_LF r ch st
      | SW_ARG3 \<Rightarrow> step_ARG3 r ch st | SW_ARG3_LF \<Rightarrow> step_ARG3_LF r ch st
      | SW_ARGN_LEN \<Rightarrow> step_ARGN_LEN r ch st | SW_ARGN_LEN_LF \<Rightarrow> step_ARGN_LEN_LF r ch st
      | SW_ARGN \<Rightarrow> step_ARGN r ch st | SW_ARGN_LF \<Rightarrow> step_ARGN_LF r ch st
      | SW_SENTINEL \<Rightarrow> Cont st r)"

lemmas step_defs = step_NARG_def step_NARG_LF_def step_REQ_TYPE_LEN_def step_REQ_TYPE_LEN_LF_def
  step_REQ_TYPE_def step_REQ_TYPE_LF_def step_KEY_LEN_def step_KEY_LEN_LF_def step_KEY_def
  step_KEY_LF_def step_ARG1_LEN_def step_ARG1_LEN_LF_def step_ARG1_def step_ARG1_LF_def
  step_ARG2_LEN_def step_ARG2_LEN_LF_def step_ARG2_def step_ARG2_LF_def step_ARG3_LEN_def
  step_ARG3_LEN_LF_def step_ARG3_def step_ARG3_LF_def step_ARGN_LEN_def step_ARGN_LEN_LF_def
  step_ARGN_def step_ARGN_LF_def expect_LF_def step_len_def step_arg_def

declare step.simps [simp del]

section \<open>The loop and its exits\<close>

partial_function (option) parse_loop :: "(nat \<Rightarrow> bool) \<Rightarrow> cmd \<Rightarrow> pst \<Rightarrow> outcome option" where
  "parse_loop mal r st =
     (if ppos st < clen r then
        (case rd r (ppos st) of
           None \<Rightarrow> Some Fault
         | Some ch \<Rightarrow>
             (case step mal r ch st of
                Cont st' r' \<Rightarrow> parse_loop mal r' (st'\<lparr>ppos := ppos st' + 1\<rparr>)
              | Done r' \<Rightarrow> Some (Done r')
              | Enomem r' \<Rightarrow> Some (Enomem r')
              | Error st' r' \<Rightarrow> Some (Error st' r')
              | Fault \<Rightarrow> Some Fault))
      else Some (Cont st r))"

definition start_pst :: pst where
  "start_pst = \<lparr> sw = SW_START, ppos = 0, token = None, rlen = 0, rnarg = 0 \<rparr>"

text \<open>The text written at the error exit, cut to the 99 characters its buffer holds.\<close>

definition parse_error_text :: "pst \<Rightarrow> cmd \<Rightarrow> string" where
  "parse_error_text st r =
     take 99 (''Parse command error. Cmd type: '' @ dec (cmd_type_num (ctype r)) @
       '', state: '' @ dec (sw_num (sw st)) @
       '', break position: '' @ dec_int (c_int (int (ppos st))) @ ''.'')"

definition redis_parse_cmd :: "(nat \<Rightarrow> bool) \<Rightarrow> cmd \<Rightarrow> cmd option" where
  "redis_parse_cmd mal r =
     (case parse_loop mal r start_pst of
        None \<Rightarrow> None
      | Some Fault \<Rightarrow> None
      | Some (Cont st r') \<Rightarrow> Some r'
      | Some (Done r') \<Rightarrow> Some (r'\<lparr>result := CMD_PARSE_OK\<rparr>)
      | Some (Enomem r') \<Rightarrow> Some (r'\<lparr>result := CMD_PARSE_ENOMEM\<rparr>)
      | Some (Error st r') \<Rightarrow>
          if cerrstr r' = None \<and> \<not> mal 100 then None
          else Some (r'\<lparr>result := CMD_PARSE_ERROR, cerrstr := Some (parse_error_text st r')\<rparr>))"

text \<open>\<^verbatim>\<open>command_get\<close>: the counter of command ids is threaded; a \<^verbatim>\<open>struct keypos\<close> has 24
  bytes and a \<^verbatim>\<open>struct cmd\<close> 112.\<close>

definition command_get :: "(nat \<Rightarrow> bool) \<Rightarrow> nat \<Rightarrow> cmd option \<times> nat" where
  "command_get mal cmd_id =
     (if \<not> mal 112 then (None, cmd_id)
      else
        (case hiarray_create mal 1 24 of
           None \<Rightarrow> (None, cmd_id + 1)
         | Some ks \<Rightarrow>
             (Some \<lparr> cid = cmd_id + 1, result = CMD_PARSE_OK, cerrstr = None, ctype = CMD_UNKNOWN,
                     cmd_buf = [], clen = 0, keys = ks, narg_start = None, narg_end = None,
                     narg = 0, quit = False, noforward = False, slot_num = - 1, frag_seq = None,
                     creply = None, sub_commands = None \<rparr>, cmd_id + 1)))"

section \<open>Invariants of a step\<close>

lemma set_type_fields [simp]:
  "cmd_buf (set_type t r) = cmd_buf r" "clen (set_type t r) = clen r" "keys (set_type t r) = keys r"
  "narg (set_type t r) = narg r" "ctype (set_type t r) = t" "result (set_type t r) = result r"
  by (simp_all add: set_type_def)

definition len_states :: "sw set" where
  "len_states = {SW_START, SW_NARG, SW_REQ_TYPE_LEN, SW_KEY_LEN, SW_ARG1_LEN, SW_ARG2_LEN,
     SW_ARG3_LEN, SW_ARGN_LEN}"

text \<open>Only a length line in progress holds a token, and the token lies behind the cursor.\<close>

definition token_ok :: "pst \<Rightarrow> bool" where
  "token_ok st \<longleftrightarrow> (case token st of None \<Rightarrow> True | Some t \<Rightarrow> t < ppos st \<and> sw st \<in> len_states)"

lemma step_token:
  assumes "token_ok st" "step mal r ch st = Cont st' r'"
  shows "ppos st \<le> ppos st' \<and> token_ok (st'\<lparr>ppos := ppos st' + 1\<rparr>)"
proof (cases "token st")
  case None
  with assms(2) show ?thesis
    by (cases "sw st")
      (auto simp: step.simps step_defs token_ok_def len_states_def Let_def
        split: if_splits option.splits)
next
  case (Some t)
  with assms show ?thesis
    by (cases "sw st")
      (auto simp: step.simps step_defs token_ok_def len_states_def Let_def
        split: if_splits option.splits)
qed

lemma step_frame:
  assumes "step mal r ch st = Cont st' r'"
  shows "cmd_buf r' = cmd_buf r" "clen r' = clen r" "result r' = result r"
  using assms
  by (cases "sw st"; auto simp: step.simps step_defs Let_def split: if_splits option.splits)+

end
