(* ===== verification/CommandSafety.thy ===== *)
theory CommandSafety
  imports Command
begin

text \<open>
  What the request parser never does and always leaves behind: it returns, it reads and
  writes inside its buffers, and the keys it reports lie in the request in order.
\<close>

section \<open>Keys\<close>

text \<open>Keys collected so far: in order, inside the request, each ending at a carriage
  return behind the cursor \<open>p\<close>.\<close>

definition keys_ok :: "cmd \<Rightarrow> nat \<Rightarrow> bool" where
  "keys_ok r p \<longleftrightarrow>
     hiarray_inv (keys r) \<and> esize (keys r) = 24 \<and> length (hiarray_list (keys r)) \<le> p \<and>
     sorted_wrt (\<lambda>a b. kend a < kstart b) (hiarray_list (keys r)) \<and>
     (\<forall>k \<in> set (hiarray_list (keys r)).
        kstart k \<le> kend k \<and> kend k < p \<and> kend k < clen r \<and> cmd_buf r ! kend k = CR)"

definition out_cmd :: "outcome \<Rightarrow> cmd option" where
  "out_cmd out = (case out of Cont st r \<Rightarrow> Some r | Done r \<Rightarrow> Some r | Enomem r \<Rightarrow> Some r
     | Error st r \<Rightarrow> Some r | Fault \<Rightarrow> None)"

lemma step_other_keys:
  assumes "sw st \<noteq> SW_KEY" "out_cmd (step mal r ch st) = Some r'"
  shows "keys r' = keys r"
  using assms
  by (cases "sw st") (auto simp: step.simps step_defs out_cmd_def Let_def split: if_splits option.splits)

lemma step_exit_keys:
  "step mal r ch st = Done r' \<Longrightarrow> keys r' = keys r"
  "step mal r ch st = Enomem r' \<Longrightarrow> keys r' = keys r"
  "step mal r ch st = Error st' r' \<Longrightarrow> keys r' = keys r"
  by (cases "sw st"; auto simp: step.simps step_defs Let_def split: if_splits option.splits)+

lemma step_other_no_fault:
  assumes "sw st \<noteq> SW_KEY" "clen r \<le> length (cmd_buf r)"
  shows "step mal r ch st \<noteq> Fault"
  using assms
  by (cases "sw st") (auto simp: step.simps step_defs rd_def Let_def split: option.splits)

lemma keys_ok_mono: "keys_ok r p \<Longrightarrow> p \<le> q \<Longrightarrow> keys r' = keys r \<Longrightarrow> clen r' = clen r \<Longrightarrow>
    cmd_buf r' = cmd_buf r \<Longrightarrow> keys_ok r' q"
  by (auto simp: keys_ok_def)

lemma keys_ok_room:
  assumes "keys_ok r p" "p < 2147483648"
  shows "hiarray_room (keys r)"
proof -
  have "nelem (keys r) < 2147483648"
    using assms length_hiarray_list [of "keys r"] by (simp add: keys_ok_def)
  then show ?thesis
    using assms(1) by (auto simp: keys_ok_def hiarray_inv_def hiarray_room_def)
qed

lemma step_KEY_cases:
  assumes "keys_ok r (ppos st)" "token st = None" "ppos st < clen r"
    "clen r \<le> length (cmd_buf r)" "clen r < 2147483648"
  obtains (err) st' where "step_KEY mal r ch st = Error st' r"
  | (mem) "step_KEY mal r ch st = Enomem r"
  | (key) ks m where "m = ppos st + rlen st" "m < clen r" "cmd_buf r ! m = CR"
      "step_KEY mal r ch st =
        Cont (st\<lparr>ppos := m, rlen := 0, token := None, sw := SW_KEY_LF\<rparr>) (r\<lparr>keys := ks\<rparr>)"
      "hiarray_inv ks" "esize ks = 24"
      "hiarray_list ks = hiarray_list (keys r) @ [\<lparr> kstart = ppos st, kend = m, remain_len = None \<rparr>]"
proof -
  let ?m = "ppos st + rlen st"
  have room: "hiarray_room (keys r)"
    using assms by (intro keys_ok_room [OF assms(1)]) simp
  have inv: "hiarray_inv (keys r)"
    using assms(1) by (simp add: keys_ok_def)
  show thesis
  proof (cases "?m < clen r \<and> cmd_buf r ! ?m = CR")
    case False
    then show thesis
      using assms by (intro err) (auto simp: step_KEY_def rd_def Let_def)
  next
    case True
    then have rd: "rd r ?m = Some CR" using assms(4) by (simp add: rd_def)
    show thesis
    proof (rule ha.add_cases [OF inv room, of mal
          "\<lparr> kstart = ppos st, kend = ?m, remain_len = None \<rparr>"], goal_cases)
      case 1
      then show thesis using True rd assms(2) by (intro mem) (simp add: step_KEY_def Let_def)
    next
      case (2 ks)
      then show thesis
        using True rd assms(1,2) push_store_esize [OF 2(1)]
        by (intro key) (auto simp: step_KEY_def keys_ok_def Let_def)
    qed
  qed
qed

lemma keys_ok_add:
  assumes "keys_ok r p" "p \<le> m" "m < clen r" "cmd_buf r ! m = CR" "hiarray_inv ks" "esize ks = 24"
    "hiarray_list ks = hiarray_list (keys r) @ [\<lparr> kstart = p, kend = m, remain_len = None \<rparr>]"
  shows "keys_ok (r\<lparr>keys := ks\<rparr>) (Suc m)"
proof -
  have "\<forall>k \<in> set (hiarray_list (keys r)). kend k < Suc m"
    using assms(1,2) by (fastforce simp: keys_ok_def)
  with assms show ?thesis by (auto simp: keys_ok_def sorted_wrt_append)
qed

lemma step_keys_ok:
  assumes "token_ok st" "keys_ok r (ppos st)" "ppos st < clen r"
    "clen r \<le> length (cmd_buf r)" "clen r < 2147483648"
  shows "step mal r ch st \<noteq> Fault"
    and "step mal r ch st = Cont st' r' \<Longrightarrow> keys_ok r' (ppos st' + 1)"
proof -
  have "step mal r ch st \<noteq> Fault \<and>
    (step mal r ch st = Cont st' r' \<longrightarrow> keys_ok r' (ppos st' + 1))"
  proof (cases "sw st = SW_KEY")
    case False
    then have "keys_ok r' (ppos st' + 1)" if "step mal r ch st = Cont st' r'"
      using step_token [OF assms(1) that] step_frame [OF that]
        step_other_keys [OF False, of mal r ch r'] that
      by (intro keys_ok_mono [OF assms(2)]) (auto simp: out_cmd_def)
    then show ?thesis using step_other_no_fault [OF False assms(4)] by blast
  next
    case True
    then have "token st = None"
      using assms(1) by (auto simp: token_ok_def len_states_def split: option.splits)
    moreover have "step mal r ch st = step_KEY mal r ch st"
      using True by (simp add: step.simps)
    ultimately show ?thesis
      using assms(2)
      by (cases rule: step_KEY_cases [OF assms(2) _ assms(3-5), of mal ch])
        (auto intro!: keys_ok_add [OF assms(2)])
  qed
  then show "step mal r ch st \<noteq> Fault"
    and "step mal r ch st = Cont st' r' \<Longrightarrow> keys_ok r' (ppos st' + 1)"
    by blast+
qed

section \<open>Which commands have several keys\<close>

lemma argeval_class:
  "redis_arg0 r \<Longrightarrow> redis_argeval r = False" "redis_arg1 r \<Longrightarrow> redis_argeval r = False"
  "redis_arg2 r \<Longrightarrow> redis_argeval r = False" "redis_arg3 r \<Longrightarrow> redis_argeval r = False"
  "redis_argn r \<Longrightarrow> redis_argeval r = False" "redis_argx r \<Longrightarrow> redis_argeval r = False"
  "redis_argkvx r \<Longrightarrow> redis_argeval r = False" "redis_argz r \<Longrightarrow> redis_argeval r = False"
  by (auto simp: redis_arg_defs)

lemma redis_arg_cong:
  "ctype r' = ctype r \<Longrightarrow> redis_argz r' = redis_argz r" "ctype r' = ctype r \<Longrightarrow> redis_arg0 r' = redis_arg0 r"
  "ctype r' = ctype r \<Longrightarrow> redis_arg1 r' = redis_arg1 r" "ctype r' = ctype r \<Longrightarrow> redis_arg2 r' = redis_arg2 r"
  "ctype r' = ctype r \<Longrightarrow> redis_arg3 r' = redis_arg3 r" "ctype r' = ctype r \<Longrightarrow> redis_argn r' = redis_argn r"
  "ctype r' = ctype r \<Longrightarrow> redis_argx r' = redis_argx r" "ctype r' = ctype r \<Longrightarrow> redis_argkvx r' = redis_argkvx r"
  "ctype r' = ctype r \<Longrightarrow> redis_argeval r' = redis_argeval r"
  unfolding redis_arg_defs by simp_all

definition nkeys :: "cmd \<Rightarrow> nat" where
  "nkeys r = length (hiarray_list (keys r))"

text \<open>The states in which no key may have been recorded: before the first key, in the
  arguments that precede a script's key, and where a command that is not a vector command
  is about to read a key.\<close>

primrec no_key_yet :: "cmd \<Rightarrow> sw \<Rightarrow> bool" where
  "no_key_yet r SW_START = True"
| "no_key_yet r SW_NARG = True"
| "no_key_yet r SW_NARG_LF = True"
| "no_key_yet r SW_REQ_TYPE_LEN = True"
| "no_key_yet r SW_REQ_TYPE_LEN_LF = True"
| "no_key_yet r SW_REQ_TYPE = True"
| "no_key_yet r SW_REQ_TYPE_LF = True"
| "no_key_yet r SW_KEY_LEN = (\<not> (redis_argx r \<or> redis_argkvx r))"
| "no_key_yet r SW_KEY_LEN_LF = (\<not> (redis_argx r \<or> redis_argkvx r))"
| "no_key_yet r SW_KEY = (\<not> (redis_argx r \<or> redis_argkvx r))"
| "no_key_yet r SW_KEY_LF = False"
| "no_key_yet r SW_ARG1_LEN = redis_argeval r"
| "no_key_yet r SW_ARG1_LEN_LF = redis_argeval r"
| "no_key_yet r SW_ARG1 = redis_argeval r"
| "no_key_yet r SW_ARG1_LF = redis_argeval r"
| "no_key_yet r SW_ARG2_LEN = redis_argeval r"
| "no_key_yet r SW_ARG2_LEN_LF = redis_argeval r"
| "no_key_yet r SW_ARG2 = redis_argeval r"
| "no_key_yet r SW_ARG2_LF = redis_argeval r"
| "no_key_yet r SW_ARG3_LEN = False"
| "no_key_yet r SW_ARG3_LEN_LF = False"
| "no_key_yet r SW_ARG3 = False"
| "no_key_yet r SW_ARG3_LF = False"
| "no_key_yet r SW_ARGN_LEN = False"
| "no_key_yet r SW_ARGN_LEN_LF = False"
| "no_key_yet r SW_ARGN = False"
| "no_key_yet r SW_ARGN_LF = False"
| "no_key_yet r SW_SENTINEL = False"

definition multi_ok :: "cmd \<Rightarrow> pst \<Rightarrow> bool" where
  "multi_ok r st \<longleftrightarrow>
     (2 \<le> nkeys r \<longrightarrow> redis_argx r \<or> redis_argkvx r) \<and> (no_key_yet r (sw st) \<longrightarrow> nkeys r = 0)"

lemma step_other_type:
  assumes "sw st \<noteq> SW_REQ_TYPE" "out_cmd (step mal r ch st) = Some r'"
  shows "ctype r' = ctype r"
  using assms
  by (cases "sw st") (auto simp: step.simps step_defs out_cmd_def Let_def split: if_splits option.splits)

lemma no_key_yet_step:
  assumes "sw st \<noteq> SW_REQ_TYPE" "sw st \<noteq> SW_KEY" "step mal r ch st = Cont st' r'"
    "no_key_yet r (sw st')"
  shows "no_key_yet r (sw st)"
  using assms
  by (cases "sw st") (auto simp: step.simps step_defs argeval_class Let_def split: if_splits option.splits)

lemma multi_ok_next:
  assumes "multi_ok r st" "sw st \<noteq> SW_REQ_TYPE" "sw st \<noteq> SW_KEY" "step mal r ch st = Cont st' r'"
  shows "multi_ok r' (st'\<lparr>ppos := ppos st' + 1\<rparr>)"
proof -
  have o: "out_cmd (step mal r ch st) = Some r'" using assms(4) by (simp add: out_cmd_def)
  have k: "nkeys r' = nkeys r"
    using step_other_keys [OF assms(3) o] by (simp add: nkeys_def)
  note c = redis_arg_cong [OF step_other_type [OF assms(2) o]]
  have "no_key_yet r' s = no_key_yet r s" for s by (cases s) (simp_all add: c)
  with assms(1) k show ?thesis
    using no_key_yet_step [OF assms(2-4)] unfolding multi_ok_def c by simp
qed

lemma multi_ok_type:
  assumes "multi_ok r st" "sw st = SW_REQ_TYPE" "step mal r ch st = Cont st' r'"
  shows "multi_ok r' (st'\<lparr>ppos := ppos st' + 1\<rparr>)"
proof -
  have o: "out_cmd (step mal r ch st) = Some r'" using assms(3) by (simp add: out_cmd_def)
  have "nkeys r' = nkeys r"
    using step_other_keys [OF _ o] assms(2) by (simp add: nkeys_def)
  moreover have "sw st' = SW_REQ_TYPE_LF"
    using assms(2,3)
    by (auto simp: step.simps step_REQ_TYPE_def Let_def split: if_splits option.splits)
  ultimately show ?thesis using assms(1,2) by (auto simp: multi_ok_def)
qed

lemma multi_ok_key:
  assumes "multi_ok r st" "sw st = SW_KEY" "hiarray_list ks = hiarray_list (keys r) @ [k]"
    "sw st' = SW_KEY_LF"
  shows "multi_ok (r\<lparr>keys := ks\<rparr>) st'"
  using assms redis_arg_cong(7,8) [of "r\<lparr>keys := ks\<rparr>" r]
  by (auto simp: multi_ok_def nkeys_def)

section \<open>A rule for the loop\<close>

definition parse_inv :: "cmd \<Rightarrow> pst \<Rightarrow> bool" where
  "parse_inv r st \<longleftrightarrow> token_ok st \<and> keys_ok r (ppos st) \<and> multi_ok r st \<and>
     clen r \<le> length (cmd_buf r) \<and> clen r < 2147483648"

lemma parse_inv_step:
  assumes "parse_inv r st" "ppos st < clen r" "step mal r ch st = Cont st' r'"
  shows "parse_inv r' (st'\<lparr>ppos := ppos st' + 1\<rparr>)"
proof -
  note i = assms(1) [unfolded parse_inv_def]
  have "multi_ok r' (st'\<lparr>ppos := ppos st' + 1\<rparr>)"
  proof (cases "sw st = SW_KEY")
    case True
    then have tok: "token st = None"
      using i by (auto simp: token_ok_def len_states_def split: option.splits)
    have eq: "step_KEY mal r ch st = Cont st' r'"
      using True assms(3) by (simp add: step.simps)
    have k: "keys_ok r (ppos st)" "clen r \<le> length (cmd_buf r)" "clen r < 2147483648"
      using i by simp_all
    from k(1) tok assms(2) k(2,3) show ?thesis
    proof (cases rule: step_KEY_cases [where mal = mal and ch = ch])
      case (key ks m)
      then have "r' = r\<lparr>keys := ks\<rparr>" "sw st' = SW_KEY_LF" using eq by auto
      with key(7) i True show ?thesis by (auto intro!: multi_ok_key [of r st])
    qed (use eq in auto)
  next
    case False
    then show ?thesis
      using i assms(3) multi_ok_type multi_ok_next by (cases "sw st = SW_REQ_TYPE") blast+
  qed
  moreover have "keys_ok r' (ppos st' + 1)"
    using i assms by (intro step_keys_ok(2)) auto
  ultimately show ?thesis
    using i step_token [OF _ assms(3)] step_frame [OF assms(3)] by (simp add: parse_inv_def)
qed

lemma parse_inv_no_fault:
  "parse_inv r st \<Longrightarrow> ppos st < clen r \<Longrightarrow> step mal r ch st \<noteq> Fault"
  unfolding parse_inv_def using step_keys_ok(1) by blast

text \<open>From a state that satisfies the invariant the loop returns, without a fault, and its
  result comes either from the end of the input or from a step in such a state.\<close>

lemma parse_loop_returns:
  assumes "parse_inv r st"
  shows "\<exists>out. parse_loop mal r st = Some out \<and> out \<noteq> Fault \<and>
    (\<exists>r1 st1. parse_inv r1 st1 \<and> cmd_buf r1 = cmd_buf r \<and> clen r1 = clen r \<and> result r1 = result r \<and>
      (out = Cont st1 r1 \<and> clen r \<le> ppos st1 \<or>
       ppos st1 < clen r \<and> (\<exists>ch. step mal r1 ch st1 = out \<and> (\<forall>s c. out \<noteq> Cont s c))))"
  using assms
proof (induction "clen r - ppos st" arbitrary: r st rule: less_induct)
  case less
  show ?case
  proof (cases "ppos st < clen r")
    case False
    then show ?thesis using less.prems by (subst parse_loop.simps) auto
  next
    case True
    then obtain ch where rd: "rd r (ppos st) = Some ch"
      using less.prems by (auto simp: rd_def parse_inv_def)
    show ?thesis
    proof (cases "step mal r ch st")
      case (Cont st' r')
      note f = step_frame [OF Cont] and i = parse_inv_step [OF less.prems True Cont]
      have p: "ppos st \<le> ppos st'"
        using step_token [OF _ Cont] less.prems by (simp add: parse_inv_def)
      have "parse_loop mal r st = parse_loop mal r' (st'\<lparr>ppos := ppos st' + 1\<rparr>)"
        using True rd Cont by (subst parse_loop.simps) simp
      moreover have "clen r' - ppos (st'\<lparr>ppos := ppos st' + 1\<rparr>) < clen r - ppos st"
        using True p f by simp
      ultimately show ?thesis
        using less.hyps [OF _ i] f by simp
    qed (use True rd less.prems parse_inv_no_fault [OF less.prems True, of mal ch] in
        \<open>subst parse_loop.simps, auto intro!: exI [of _ r] exI [of _ st] exI [of _ ch]\<close>)+
  qed
qed

section \<open>Properties\<close>

text \<open>A request as the callers of the parser set it up: fresh from \<^verbatim>\<open>command_get\<close>, with a
  buffer of at least \<^verbatim>\<open>clen\<close> bytes.\<close>

definition request :: "cmd \<Rightarrow> string \<Rightarrow> cmd" where
  "request r text = r\<lparr>cmd_buf := text, clen := length text\<rparr>"

definition fresh_cmd :: "cmd \<Rightarrow> bool" where
  "fresh_cmd r \<longleftrightarrow> hiarray_inv (keys r) \<and> esize (keys r) = 24 \<and> nkeys r = 0 \<and> cerrstr r = None \<and>
     result r = CMD_PARSE_OK"

lemma command_get_fresh: "command_get mal n = (Some r, n') \<Longrightarrow> fresh_cmd r"
  by (auto simp: command_get_def fresh_cmd_def nkeys_def hiarray_create_def hiarray_inv_def
      hiarray_list_def block_bytes_def c_size_def split: option.splits if_splits)

lemma parse_inv_start:
  "fresh_cmd r \<Longrightarrow> length text < 2147483648 \<Longrightarrow> parse_inv (request r text) start_pst"
  by (simp add: parse_inv_def fresh_cmd_def request_def start_pst_def token_ok_def keys_ok_def
      multi_ok_def nkeys_def)

lemma fresh_parse_cases:
  assumes "fresh_cmd r" "length text < 2147483648" "mal 100"
  obtains (stop) st r1 where "redis_parse_cmd mal (request r text) = Some r1"
      "parse_inv r1 st" "length text \<le> ppos st" "result r1 = CMD_PARSE_OK" "cmd_buf r1 = text"
      "clen r1 = length text"
  | (exit) st r1 r' where "redis_parse_cmd mal (request r text) = Some r'"
      "parse_inv r1 st" "keys r' = keys r1" "cmd_buf r1 = text" "clen r1 = length text"
      "result r' \<noteq> CMD_PARSE_OK"
  | (ok) st ch r1 r' where "redis_parse_cmd mal (request r text) = Some (r'\<lparr>result := CMD_PARSE_OK\<rparr>)"
      "step mal r1 ch st = Done r'" "parse_inv r1 st" "keys r' = keys r1" "cmd_buf r1 = text"
      "clen r1 = length text"
proof -
  obtain out r1 st1 where o: "parse_loop mal (request r text) start_pst = Some out" "out \<noteq> Fault"
    and i: "parse_inv r1 st1" "cmd_buf r1 = text" "clen r1 = length text" "result r1 = CMD_PARSE_OK"
    and s: "out = Cont st1 r1 \<and> length text \<le> ppos st1 \<or>
      (\<exists>ch. step mal r1 ch st1 = out \<and> (\<forall>s c. out \<noteq> Cont s c))"
    using parse_loop_returns [OF parse_inv_start [OF assms(1,2)], of mal] assms(1)
    by (auto simp: request_def fresh_cmd_def)
  show thesis
  proof (cases out)
    case (Cont x y)
    then show thesis using o i s by (intro stop [of r1 st1]) (auto simp: redis_parse_cmd_def)
  next
    case (Done x)
    then obtain ch where ch: "step mal r1 ch st1 = Done x" using s by auto
    then show thesis
      using o i Done step_exit_keys(1) [OF ch]
      by (intro ok [OF _ ch]) (auto simp: redis_parse_cmd_def)
  next
    case (Enomem x)
    then show thesis
      using o i s step_exit_keys(2)
      by (intro exit [of "x\<lparr>result := CMD_PARSE_ENOMEM\<rparr>" r1 st1]) (auto simp: redis_parse_cmd_def)
  next
    case (Error y x)
    then show thesis
      using o i s step_exit_keys(3) assms(3)
      by (intro exit [of "x\<lparr>result := CMD_PARSE_ERROR, cerrstr := Some (parse_error_text y x)\<rparr>" r1 st1])
        (auto simp: redis_parse_cmd_def)
  qed (use o in auto)
qed

text \<open>C2 The parser is safe and total: on a fresh command with any request text below 2 GiB it
  returns, never reads or writes outside its buffers, and every key it has recorded, whether
  the request was accepted or not, is a range of the request that ends at a carriage return;
  the ranges are in order and do not overlap.\<close>

theorem parse_cmd_safe:
  assumes "fresh_cmd r" "length text < 2147483648" "mal 100"
  shows "\<exists>r'. redis_parse_cmd mal (request r text) = Some r' \<and>
    sorted_wrt (\<lambda>a b. kend a < kstart b) (hiarray_list (keys r')) \<and>
    (\<forall>k \<in> set (hiarray_list (keys r')).
       kstart k \<le> kend k \<and> kend k < length text \<and> text ! kend k = CR)"
  using assms
proof (cases rule: fresh_parse_cases)
  case (stop st r1)
  then show ?thesis by (auto simp: parse_inv_def keys_ok_def)
next
  case (exit st r1 r')
  then show ?thesis by (auto simp: parse_inv_def keys_ok_def)
next
  case (ok st ch r1 r')
  then show ?thesis by (auto simp: parse_inv_def keys_ok_def)
qed

definition a_cmd :: cmd where
  "a_cmd = the (fst (command_get (\<lambda>n. True) 0))"

lemma fresh_a_cmd: "fresh_cmd a_cmd"
proof -
  have "command_get (\<lambda>n. True) 0 = (Some a_cmd, 1)"
    by (simp add: a_cmd_def command_get_def hiarray_create_def)
  then show ?thesis by (rule command_get_fresh)
qed

theorem parse_cmd_safe_witness:
  "\<exists>r'. redis_parse_cmd (\<lambda>n. True) (request a_cmd ''*2'') = Some r' \<and>
    sorted_wrt (\<lambda>a b. kend a < kstart b) (hiarray_list (keys r')) \<and>
    (\<forall>k \<in> set (hiarray_list (keys r')).
       kstart k \<le> kend k \<and> kend k < length ''*2'' \<and> ''*2'' ! kend k = CR)"
  by (rule parse_cmd_safe) (simp_all add: fresh_a_cmd)

end
