(* ===== verification/CmdNames.thy ===== *)
theory CmdNames
  imports CmdTypes
begin

text \<open>
  The name comparisons of the parser amount to one case-insensitive table: the length
  \<^verbatim>\<open>switch\<close>, the bit-5 comparison and the missing \<^verbatim>\<open>break\<close> of the case of length 10
  are all accounted for.
\<close>

section \<open>The names as one case-insensitive table\<close>

definition command_names :: "(string \<times> cmd_type) list" where
  "command_names = req_names3 @ req_names4 @ req_names5 @ req_names6 @ req_names7 @ req_names8 @
     req_names9 @ req_names10 @ req_names11 @ req_names12 @ req_names13 @ req_names14 @
     req_names15 @ req_names16"

definition command_type :: "string \<Rightarrow> cmd_type" where
  "command_type s =
     (case map_of command_names (map c_tolower s) of None \<Rightarrow> CMD_UNKNOWN | Some t \<Rightarrow> t)"

definition is_lower :: "char \<Rightarrow> bool" where
  "is_lower c \<longleftrightarrow> 97 \<le> ord c \<and> ord c \<le> 122"

lemma xor_32: "97 \<le> n \<Longrightarrow> n \<le> 122 \<Longrightarrow> Bit_Operations.xor n 32 = n - (32 :: nat)"
proof -
  assume "97 \<le> n" "n \<le> 122"
  then have "n \<in> set [97..<123]" by (simp del: upt_rec_numeral)
  moreover have "list_all (\<lambda>n. Bit_Operations.xor n 32 = n - (32 :: nat)) [97..<123]" by code_simp
  ultimately show ?thesis by (simp only: list_all_iff)
qed

lemma icmp_lower: "is_lower c \<Longrightarrow> (d = c \<or> d = flip_case c) = (c_tolower d = c)"
proof -
  assume c: "is_lower c"
  then have f: "ord (flip_case c) = ord c - 32"
    by (auto simp: flip_case_def is_lower_def xor_32 ord_char_of)
  have "c_tolower d = c \<longleftrightarrow> ord (c_tolower d) = ord c" by simp
  also have "\<dots> \<longleftrightarrow> ord d = ord c \<or> ord d = ord c - 32"
    using c ord_less [of d] by (auto simp: c_tolower_def is_lower_def ord_char_of)
  also have "\<dots> \<longleftrightarrow> d = c \<or> d = flip_case c"
    by (metis f ord_inject)
  finally show ?thesis by simp
qed

lemma stricmp_lower:
  "\<forall>c \<in> set s. is_lower c \<Longrightarrow>
   stricmp m s \<longleftrightarrow> length s \<le> length m \<and> map c_tolower (take (length s) m) = s"
  by (induction m s rule: stricmp.induct) (auto simp: icmp_lower)

text \<open>A table of lower-case names of length \<open>n\<close>.\<close>

definition name_table :: "nat \<Rightarrow> (string \<times> cmd_type) list \<Rightarrow> bool" where
  "name_table n tbl \<longleftrightarrow> list_all (\<lambda>(s, t). length s = n \<and> list_all is_lower s) tbl"

lemma name_tables:
  "name_table 3 req_names3"
  "name_table 4 req_names4"
  "name_table 5 req_names5"
  "name_table 6 req_names6"
  "name_table 7 req_names7"
  "name_table 8 req_names8"
  "name_table 9 req_names9"
  "name_table 10 req_names10"
  "name_table 11 req_names11"
  "name_table 12 req_names12"
  "name_table 13 req_names13"
  "name_table 14 req_names14"
  "name_table 15 req_names15"
  "name_table 16 req_names16"
  by (simp_all add: name_table_def req_names_defs is_lower_def ord_def)

lemma lookup_name_table:
  "name_table n tbl \<Longrightarrow> length s = n \<Longrightarrow>
   lookup_name tbl (s @ xs) =
     (case map_of tbl (map c_tolower s) of None \<Rightarrow> CMD_UNKNOWN | Some t \<Rightarrow> t)"
  by (induction tbl) (auto simp: name_table_def stricmp_lower list_all_iff)

lemma lookup_name_other:
  "name_table (Suc n) tbl \<Longrightarrow> length s = n \<Longrightarrow> lookup_name tbl (s @ CR # xs) = CMD_UNKNOWN"
proof (induction tbl)
  case (Cons e tbl)
  obtain u t where e: "e = (u, t)" by (cases e)
  have u: "\<forall>c \<in> set u. is_lower c" "length u = Suc n"
    using Cons.prems e by (auto simp: name_table_def list_all_iff)
  have "map c_tolower s @ [CR] \<noteq> u"
    using u(1) by (auto simp: is_lower_def ord_def)
  then have "\<not> stricmp (s @ CR # xs) u"
    using u Cons.prems(2) by (simp add: stricmp_lower c_tolower_def ord_def)
  with Cons e show ?case by (simp add: name_table_def)
qed simp

lemma lookup_name_append:
  "lookup_name b m = CMD_UNKNOWN \<Longrightarrow> lookup_name (a @ b) m = lookup_name a m"
  by (induction a m rule: lookup_name.induct) auto

lemma map_of_other_length:
  "name_table n tbl \<Longrightarrow> length x \<noteq> n \<Longrightarrow> map_of tbl x = None"
  by (induction tbl) (auto simp: name_table_def)

lemma command_names_by_length:
  "map_of command_names x = map_of (req_names (length x)) x"
proof -
  have "length x \<noteq> n \<Longrightarrow> name_table n tbl \<Longrightarrow> map_of tbl x = None" for n tbl
    by (rule map_of_other_length)
  note o = this [OF _ name_tables(1)] this [OF _ name_tables(2)] this [OF _ name_tables(3)]
    this [OF _ name_tables(4)] this [OF _ name_tables(5)] this [OF _ name_tables(6)]
    this [OF _ name_tables(7)] this [OF _ name_tables(8)] this [OF _ name_tables(9)]
    this [OF _ name_tables(10)] this [OF _ name_tables(11)] this [OF _ name_tables(12)]
    this [OF _ name_tables(13)] this [OF _ name_tables(14)]
  have i: "(case y of None \<Rightarrow> None | Some v \<Rightarrow> Some v) = y" for y :: "cmd_type option"
    by (cases y) simp_all
  consider "length x = 3" | "length x = 4" | "length x = 5" | "length x = 6" | "length x = 7"
    | "length x = 8" | "length x = 9" | "length x = 10" | "length x = 11" | "length x = 12"
    | "length x = 13" | "length x = 14" | "length x = 15" | "length x = 16"
    | "length x \<notin> {3, 4, 5, 6, 7, 8, 9, 10, 11, 12, 13, 14, 15, 16}"
    by blast
  then show ?thesis
    by cases (simp_all add: command_names_def req_names_def map_add_def o i cong: option.case_cong)
qed

lemma lookup_command_type:
  "lookup_name (req_names (length s)) (s @ CR # xs) = command_type s"
proof -
  have t: "command_type s = (case map_of (req_names (length s)) (map c_tolower s) of
      None \<Rightarrow> CMD_UNKNOWN | Some t \<Rightarrow> t)"
    by (simp add: command_type_def command_names_by_length)
  show ?thesis
  proof (cases "length s = 10")
    case True
    have "map_of req_names11 (map c_tolower s) = None"
      using map_of_other_length [OF name_tables(9)] True by simp
    moreover have "lookup_name req_names11 (s @ CR # xs) = CMD_UNKNOWN"
      using lookup_name_other [of 10] name_tables(9) True by simp
    ultimately show ?thesis
      unfolding t using True lookup_name_table [OF name_tables(8) True, of "CR # xs"]
      by (auto simp: req_names_def lookup_name_append map_add_def split: option.splits)
  next
    case False
    then show ?thesis
      unfolding t by (auto simp: req_names_def intro: lookup_name_table name_tables)
  qed
qed

text \<open>C12 Command names are recognised without regard to case and by nothing but their
  letters: scanning a name of any length followed by a carriage return selects the type that
  the list of the 104 known names gives to its lower-case form.  In particular the fall-through
  from names of length 10 to those of length 11 never matches.\<close>

theorem req_type_case_insensitive:
  "lookup_name (req_names (length s)) (s @ CR # xs) =
     (case map_of command_names (map c_tolower s) of None \<Rightarrow> CMD_UNKNOWN | Some t \<Rightarrow> t)"
  using lookup_command_type [of s xs] by (simp add: command_type_def)

end
