(* ===== verification/CommandFormat.thy ===== *)
theory CommandFormat
  imports CommandSafety CmdNames Protocol
begin

text \<open>
  Functional correctness of the request parser on well-formed requests: which commands with
  which numbers of arguments are accepted, and that the recorded keys are exactly the key
  arguments of the command.
\<close>

section \<open>Running over known text\<close>

definition at :: "cmd \<Rightarrow> nat \<Rightarrow> string \<Rightarrow> bool" where
  "at r p xs \<longleftrightarrow> clen r = length (cmd_buf r) \<and> p \<le> clen r \<and> drop p (cmd_buf r) = xs"

lemma at_cong: "cmd_buf r' = cmd_buf r \<Longrightarrow> clen r' = clen r \<Longrightarrow> at r' p xs = at r p xs"
  by (simp add: at_def)

lemma at_Cons:
  assumes "at r p (c # xs)"
  shows "p < clen r" "rd r p = Some c" "at r (Suc p) xs"
proof -
  have "p < length (cmd_buf r)"
    using assms by (metis at_def drop_all leI list.distinct(1))
  moreover from this have "cmd_buf r ! p = c" "drop (Suc p) (cmd_buf r) = xs"
    using assms by (auto simp: at_def Cons_nth_drop_Suc [symmetric])
  ultimately show "p < clen r" "rd r p = Some c" "at r (Suc p) xs"
    using assms by (auto simp: at_def rd_def)
qed

lemma at_append:
  assumes "at r p (xs @ ys)"
  shows "at r (p + length xs) ys" "take (length xs) (drop p (cmd_buf r)) = xs" "p + length xs \<le> clen r"
proof -
  have a: "clen r = length (cmd_buf r)" "p \<le> clen r" "drop p (cmd_buf r) = xs @ ys"
    using assms by (simp_all add: at_def)
  have "length (cmd_buf r) - p = length xs + length ys"
    using arg_cong [OF a(3), of length] by simp
  with a(1,2) show "p + length xs \<le> clen r" by linarith
  show "take (length xs) (drop p (cmd_buf r)) = xs" using assms by (simp add: at_def)
  have "drop (length xs) (drop p (cmd_buf r)) = ys" using assms by (simp add: at_def)
  then show "at r (p + length xs) ys"
    using \<open>p + length xs \<le> clen r\<close> assms by (simp add: at_def add.commute)
qed

text \<open>\<open>runs\<close> relates two loop states with the same final result; it keeps the invariant.\<close>

definition runs :: "(nat \<Rightarrow> bool) \<Rightarrow> cmd \<Rightarrow> pst \<Rightarrow> cmd \<Rightarrow> pst \<Rightarrow> bool" where
  "runs mal r st r' st' \<longleftrightarrow> parse_loop mal r st = parse_loop mal r' st' \<and>
     (parse_inv r st \<longrightarrow> parse_inv r' st')"

lemma runs_refl [simp]: "runs mal r st r st"
  by (simp add: runs_def)

lemma runs_trans [trans]:
  "runs mal r st r1 st1 \<Longrightarrow> runs mal r1 st1 r2 st2 \<Longrightarrow> runs mal r st r2 st2"
  by (simp add: runs_def)

lemma runs_step:
  assumes "at r (ppos st) (c # xs)" "step mal r c st = Cont st' r'"
  shows "runs mal r st r' (st'\<lparr>ppos := ppos st' + 1\<rparr>)"
  using at_Cons [OF assms(1)] assms(2) parse_inv_step [OF _ _ assms(2)]
  by (simp add: runs_def parse_loop.simps [of mal r st])

lemma loop_exit:
  assumes "at r (ppos st) (c # xs)"
  shows "step mal r c st = Done r' \<Longrightarrow> parse_loop mal r st = Some (Done r')"
    and "step mal r c st = Error st' r' \<Longrightarrow> parse_loop mal r st = Some (Error st' r')"
  using at_Cons [OF assms] by (simp_all add: parse_loop.simps [of mal r st])

lemma loop_end: "at r (ppos st) [] \<Longrightarrow> parse_loop mal r st = Some (Cont st r)"
  by (simp add: at_def parse_loop.simps [of mal r st])

section \<open>Length lines\<close>

definition len_line :: "sw \<Rightarrow> (pst \<Rightarrow> bool) \<Rightarrow> sw \<Rightarrow> sw \<Rightarrow> bool" where
  "len_line s bad lf body \<longleftrightarrow>
     (\<forall>mal r ch st. (sw st = s \<longrightarrow> step mal r ch st = step_len bad lf r ch st) \<and>
        (sw st = lf \<longrightarrow> step mal r ch st = expect_LF body r ch st))"

lemma len_lines:
  "len_line SW_REQ_TYPE_LEN (\<lambda>st. rlen st = 0) SW_REQ_TYPE_LEN_LF SW_REQ_TYPE"
  "len_line SW_KEY_LEN (\<lambda>st. False) SW_KEY_LEN_LF SW_KEY"
  "len_line SW_ARG1_LEN no_digits SW_ARG1_LEN_LF SW_ARG1"
  "len_line SW_ARG2_LEN no_digits SW_ARG2_LEN_LF SW_ARG2"
  "len_line SW_ARG3_LEN no_digits SW_ARG3_LEN_LF SW_ARG3"
  "len_line SW_ARGN_LEN no_digits SW_ARGN_LEN_LF SW_ARGN"
  by (simp_all add: len_line_def step.simps step_REQ_TYPE_LEN_def step_REQ_TYPE_LEN_LF_def
      step_KEY_LEN_def step_KEY_LEN_LF_def step_ARG1_LEN_def step_ARG1_LEN_LF_def step_ARG2_LEN_def
      step_ARG2_LEN_LF_def step_ARG3_LEN_def step_ARG3_LEN_LF_def step_ARGN_LEN_def
      step_ARGN_LEN_LF_def)

lemma runs_digits:
  assumes "len_line s bad lf body"
  shows "\<lbrakk>sw st = s; token st = Some t; \<forall>c \<in> set ds. isdigit c; at r (ppos st) (ds @ xs);
    dval (rlen st) ds < 4294967296\<rbrakk> \<Longrightarrow>
    runs mal r st r (st\<lparr>ppos := ppos st + length ds, rlen := dval (rlen st) ds\<rparr>)"
proof (induction ds arbitrary: st)
  case (Cons c ds)
  let ?n = "rlen st * 10 + digit_val c"
  let ?st = "st\<lparr>rlen := ?n, ppos := ppos st + 1\<rparr>"
  have "?n < 4294967296"
    using dval_mono [of ?n ds] Cons.prems(5) by simp
  then have "step mal r c st = Cont (st\<lparr>rlen := ?n\<rparr>) r"
    using assms Cons.prems by (simp add: len_line_def step_len_def u32_id)
  from runs_step [OF _ this, of "ds @ xs"] have "runs mal r st r ?st"
    using Cons.prems by simp
  also have "runs mal r ?st r (?st\<lparr>ppos := ppos ?st + length ds, rlen := dval (rlen ?st) ds\<rparr>)"
    using Cons.prems at_Cons(3) [of r "ppos st" c "ds @ xs"] by (intro Cons.IH) simp_all
  finally show ?case by simp
qed simp

lemma runs_len_digits:
  assumes "len_line s bad lf body" "sw st = s" "token st = None"
    "at r (ppos st) (CHR ''$'' # dec n @ CRLF @ xs)" "n < 4294967296"
  shows "runs mal r st r (st\<lparr>token := Some (ppos st), ppos := ppos st + 1 + length (dec n), rlen := n\<rparr>)"
    and "at r (ppos st + 1 + length (dec n)) (CRLF @ xs)"
proof -
  let ?p = "ppos st"
  let ?a = "st\<lparr>token := Some ?p, rlen := 0, ppos := ?p + 1\<rparr>"
  let ?b = "st\<lparr>token := Some ?p, ppos := ?p + 1 + length (dec n), rlen := n\<rparr>"
  note a1 = at_Cons(3) [OF assms(4)]
  have "step mal r (CHR ''$'') st = Cont (st\<lparr>token := Some ?p, rlen := 0\<rparr>) r"
    using assms by (simp add: len_line_def step_len_def)
  from runs_step [OF assms(4) this] have "runs mal r st r ?a" by simp
  also have "runs mal r ?a r ?b"
    using assms(2,5) a1 dec_digits runs_digits [OF assms(1), of ?a ?p "dec n" r "CRLF @ xs" mal]
    by simp
  finally show "runs mal r st r ?b" .
  show "at r (?p + 1 + length (dec n)) (CRLF @ xs)" using at_append(1) [OF a1] by simp
qed

lemma runs_len_line:
  assumes "len_line s bad lf body" "sw st = s" "token st = None"
    "at r (ppos st) (CHR ''$'' # dec n @ CRLF @ xs)" "n < 4294967296" "0 < rnarg st"
    "\<not> bad (st\<lparr>token := Some (ppos st), ppos := ppos st + 1 + length (dec n), rlen := n\<rparr>)"
  shows "runs mal r st r (st\<lparr>sw := body, ppos := ppos st + 3 + length (dec n), rlen := n,
    rnarg := rnarg st - 1\<rparr>)"
proof -
  let ?p = "ppos st"
  let ?b = "st\<lparr>token := Some ?p, ppos := ?p + 1 + length (dec n), rlen := n\<rparr>"
  let ?c = "?b\<lparr>rnarg := rnarg st - 1, token := None, sw := lf, ppos := ppos ?b + 1\<rparr>"
  note a2 = runs_len_digits(2) [OF assms(1-5)]
  note a3 = at_Cons(3) [OF a2 [unfolded append_Cons]]
  have "runs mal r st r ?b" by (rule runs_len_digits(1) [OF assms(1-5)])
  also have "runs mal r ?b r ?c"
  proof -
    have "step mal r CR ?b = Cont (?b\<lparr>rnarg := rnarg st - 1, token := None, sw := lf\<rparr>) r"
      using assms by (simp add: len_line_def step_len_def)
    from runs_step [OF _ this, of "LF # xs"] show ?thesis using a2 by simp
  qed
  also have "runs mal r ?c r (?c\<lparr>sw := body, ppos := ppos ?c + 1\<rparr>)"
  proof -
    have "step mal r LF ?c = Cont (?c\<lparr>sw := body\<rparr>) r"
      using assms(1) by (simp add: len_line_def expect_LF_def)
    from runs_step [OF _ this, of xs] show ?thesis using a3 by simp
  qed
  also have "?c\<lparr>sw := body, ppos := ppos ?c + 1\<rparr> =
      st\<lparr>sw := body, ppos := ?p + 3 + length (dec n), rlen := n, rnarg := rnarg st - 1\<rparr>"
    using assms(3) by simp
  finally show ?thesis .
qed

section \<open>Bulk arguments and keys\<close>

text \<open>Between tokens the state of the scan is given by four values.\<close>

abbreviation stp :: "sw \<Rightarrow> nat \<Rightarrow> nat \<Rightarrow> nat \<Rightarrow> pst" where
  "stp s p l k \<equiv> \<lparr> sw = s, ppos = p, token = None, rlen = l, rnarg = k \<rparr>"

definition skips :: "sw \<Rightarrow> sw \<Rightarrow> cmd \<Rightarrow> bool" where
  "skips s lf r \<longleftrightarrow> (\<forall>mal ch st. sw st = s \<longrightarrow> step mal r ch st = step_arg lf r ch st)"

lemma skips_states:
  "skips SW_ARG1 SW_ARG1_LF r" "\<not> redis_argeval r \<Longrightarrow> skips SW_ARG2 SW_ARG2_LF r"
  "skips SW_ARG3 SW_ARG3_LF r" "skips SW_ARGN SW_ARGN_LF r"
  by (auto simp: skips_def step.simps step_ARG1_def step_ARG2_def step_ARG3_def step_ARGN_def
      step_arg_def Let_def split: option.splits)

lemma runs_stp_len:
  assumes "len_line s bad lf body" "at r p (CHR ''$'' # dec n @ CRLF @ xs)" "n < 4294967296" "0 < k"
    "\<not> bad \<lparr> sw = s, ppos = p + 1 + length (dec n), token = Some p, rlen = n, rnarg = k \<rparr>"
  shows "runs mal r (stp s p l k) r (stp body (p + 3 + length (dec n)) n (k - 1))"
  using runs_len_line [OF assms(1), of "stp s p l k" r n xs mal] assms(2-) by simp

lemma at_body:
  assumes "at r p (a @ CRLF @ xs)"
  shows "p + length a < clen r" "rd r (p + length a) = Some CR" "at r (Suc (p + length a)) (LF # xs)"
  using at_Cons [of r "p + length a" CR "LF # xs"] at_append(1) [OF assms] by simp_all

lemma body_first:
  obtains c ys where "a @ CRLF @ xs = c # ys"
  by (cases a) auto

lemma runs_skip:
  assumes "skips s lf r" "at r p (a @ CRLF @ xs)"
  shows "runs mal r (stp s p (length a) k) r (stp lf (p + length a + 1) 0 k)"
proof -
  obtain c ys where c: "a @ CRLF @ xs = c # ys" by (rule body_first)
  have "step mal r c (stp s p (length a) k) = Cont (stp lf (p + length a) 0 k) r"
    using assms(1) at_body [OF assms(2)] by (simp add: skips_def step_arg_def)
  from runs_step [OF _ this, of ys] show ?thesis using assms(2) c by simp
qed

lemma dec_pos: "0 < length (dec n)"
  by simp

lemma runs_bulk_arg:
  assumes "len_line s no_digits lenlf body" "skips body lf r" "at r p (bulk a @ xs)"
    "length a < 4294967296" "0 < k"
  shows "runs mal r (stp s p l k) r (stp lf (p + 4 + length (dec (length a)) + length a) 0 (k - 1))"
    and "at r (p + 4 + length (dec (length a)) + length a) (LF # xs)"
proof -
  let ?q = "p + 3 + length (dec (length a))"
  have t: "at r p (CHR ''$'' # dec (length a) @ CRLF @ a @ CRLF @ xs)"
    using assms(3) by (simp add: bulk_def)
  have q: "at r ?q (a @ CRLF @ xs)"
    using at_append(1) [of r p "CHR ''$'' # dec (length a) @ CRLF" "a @ CRLF @ xs"] t
    by (simp add: numeral_3_eq_3)
  have "runs mal r (stp s p l k) r (stp body ?q (length a) (k - 1))"
    using assms dec_pos by (intro runs_stp_len [OF assms(1) t]) (simp_all add: no_digits_def)
  also have "runs mal r (stp body ?q (length a) (k - 1)) r (stp lf (?q + length a + 1) 0 (k - 1))"
    by (rule runs_skip [OF assms(2) q])
  finally show "runs mal r (stp s p l k) r (stp lf (p + 4 + length (dec (length a)) + length a) 0 (k - 1))"
    by (simp add: add.commute add.left_commute)
  show "at r (p + 4 + length (dec (length a)) + length a) (LF # xs)"
    using at_body(3) [OF q] by (simp add: add.commute add.left_commute)
qed

definition key_texts :: "cmd \<Rightarrow> string list" where
  "key_texts r =
     map (\<lambda>k. take (kend k - kstart k) (drop (kstart k) (cmd_buf r))) (hiarray_list (keys r))"

lemma key_texts_add:
  "hiarray_list ks = hiarray_list (keys r) @ [k] \<Longrightarrow>
   key_texts (r\<lparr>keys := ks\<rparr>) =
     key_texts r @ [take (kend k - kstart k) (drop (kstart k) (cmd_buf r))]"
  by (simp add: key_texts_def)

text \<open>What follows each key in the request.\<close>

definition key_tails :: "cmd \<Rightarrow> string list" where
  "key_tails r = map (\<lambda>k. drop (kend k) (cmd_buf r)) (hiarray_list (keys r))"

lemma no_Enomem: "\<forall>n. mal n \<Longrightarrow> step_KEY mal r ch st \<noteq> Enomem r'"
  by (auto simp: step_KEY_def push_store_def hiarray_push_def Let_def split: option.splits)

lemma runs_key_body:
  assumes "parse_inv r (stp SW_KEY p (length a) k)" "\<forall>n. mal n" "at r p (a @ CRLF @ xs)"
  shows "\<exists>ks. runs mal r (stp SW_KEY p (length a) k) (r\<lparr>keys := ks\<rparr>) (stp SW_KEY_LF (p + length a + 1) 0 k) \<and>
    key_texts (r\<lparr>keys := ks\<rparr>) = key_texts r @ [a] \<and>
    key_tails (r\<lparr>keys := ks\<rparr>) = key_tails r @ [CRLF @ xs]"
proof -
  let ?st = "stp SW_KEY p (length a) k"
  obtain c ys where c: "a @ CRLF @ xs = c # ys" by (rule body_first)
  have at: "at r (ppos ?st) (c # ys)" using assms(3) c by simp
  have k: "keys_ok r (ppos ?st)" "token ?st = None" "ppos ?st < clen r" "clen r \<le> length (cmd_buf r)"
    "clen r < 2147483648"
    using assms(1) at_Cons(1) [OF at] by (simp_all add: parse_inv_def)
  have step: "step mal r c ?st = step_KEY mal r c ?st" by (simp add: step.simps)
  from k show ?thesis
  proof (cases rule: step_KEY_cases [where mal = mal and ch = c])
    case (err st')
    then show ?thesis
      using at_body [OF assms(3)]
      by (auto simp: step_KEY_def Let_def split: option.splits if_splits)
  next
    case mem
    then show ?thesis using no_Enomem [of mal r c ?st] assms(2) by blast
  next
    case (key ks m)
    have "runs mal r ?st (r\<lparr>keys := ks\<rparr>) (stp SW_KEY_LF (p + length a + 1) 0 k)"
      using runs_step [OF at step [unfolded key(4)]] key(1) by simp
    moreover have "key_texts (r\<lparr>keys := ks\<rparr>) = key_texts r @ [a]"
      using key_texts_add [OF key(7)] key(1) at_append(2) [OF assms(3)] by simp
    moreover have "key_tails (r\<lparr>keys := ks\<rparr>) = key_tails r @ [CRLF @ xs]"
      using key(1,7) at_append(1) [OF assms(3)] by (simp add: key_tails_def at_def)
    ultimately show ?thesis by blast
  qed
qed

lemma runs_bulk_key_tail:
  assumes "parse_inv r (stp SW_KEY_LEN p l k)" "\<forall>n. mal n" "at r p (bulk a @ xs)" "0 < k"
  shows "\<exists>ks. runs mal r (stp SW_KEY_LEN p l k) (r\<lparr>keys := ks\<rparr>)
      (stp SW_KEY_LF (p + 4 + length (dec (length a)) + length a) 0 (k - 1)) \<and>
    key_texts (r\<lparr>keys := ks\<rparr>) = key_texts r @ [a] \<and>
    key_tails (r\<lparr>keys := ks\<rparr>) = key_tails r @ [CRLF @ xs]"
    and "at r (p + 4 + length (dec (length a)) + length a) (LF # xs)"
proof -
  let ?q = "p + 3 + length (dec (length a))"
  have t: "at r p (CHR ''$'' # dec (length a) @ CRLF @ a @ CRLF @ xs)"
    using assms(3) by (simp add: bulk_def)
  have q: "at r ?q (a @ CRLF @ xs)"
    using at_append(1) [of r p "CHR ''$'' # dec (length a) @ CRLF" "a @ CRLF @ xs"] t
    by (simp add: numeral_3_eq_3)
  have len: "length a < 4294967296"
    using at_body(1) [OF q] assms(1) by (simp add: parse_inv_def)
  have r1: "runs mal r (stp SW_KEY_LEN p l k) r (stp SW_KEY ?q (length a) (k - 1))"
    using assms(4) by (intro runs_stp_len [OF len_lines(2) t len]) simp_all
  then have "parse_inv r (stp SW_KEY ?q (length a) (k - 1))"
    using assms(1) by (simp add: runs_def)
  from runs_key_body [OF this assms(2) q] obtain ks where
    ks: "runs mal r (stp SW_KEY ?q (length a) (k - 1)) (r\<lparr>keys := ks\<rparr>)
      (stp SW_KEY_LF (?q + length a + 1) 0 (k - 1))" "key_texts (r\<lparr>keys := ks\<rparr>) = key_texts r @ [a]"
      "key_tails (r\<lparr>keys := ks\<rparr>) = key_tails r @ [CRLF @ xs]"
    by blast
  from runs_trans [OF r1 ks(1)] ks(2,3)
  show "\<exists>ks. runs mal r (stp SW_KEY_LEN p l k) (r\<lparr>keys := ks\<rparr>)
      (stp SW_KEY_LF (p + 4 + length (dec (length a)) + length a) 0 (k - 1)) \<and>
    key_texts (r\<lparr>keys := ks\<rparr>) = key_texts r @ [a] \<and>
    key_tails (r\<lparr>keys := ks\<rparr>) = key_tails r @ [CRLF @ xs]"
    by (intro exI [of _ ks]) (simp add: add.commute add.left_commute)
  show "at r (p + 4 + length (dec (length a)) + length a) (LF # xs)"
    using at_body(3) [OF q] by (simp add: add.commute add.left_commute)
qed

lemma runs_bulk_key:
  assumes "parse_inv r (stp SW_KEY_LEN p l k)" "\<forall>n. mal n" "at r p (bulk a @ xs)" "0 < k"
  shows "\<exists>ks. runs mal r (stp SW_KEY_LEN p l k) (r\<lparr>keys := ks\<rparr>)
      (stp SW_KEY_LF (p + 4 + length (dec (length a)) + length a) 0 (k - 1)) \<and>
    key_texts (r\<lparr>keys := ks\<rparr>) = key_texts r @ [a]"
    and "at r (p + 4 + length (dec (length a)) + length a) (LF # xs)"
  using runs_bulk_key_tail [OF assms] by blast+

section \<open>Argument lists\<close>

text \<open>One line feed: the step of a state that ends a bulk string.\<close>

lemma runs_LF:
  assumes "at r q (LF # xs)" "step mal r LF (stp s q 0 k) = Cont (stp s' q 0 k) r"
  shows "runs mal r (stp s q 0 k) r (stp s' (Suc q) 0 k)" "at r (Suc q) xs"
  using runs_step [OF _ assms(2), of xs] at_Cons(3) [OF assms(1)] assms(1) by simp_all

lemma runs_arg_LF:
  assumes "len_line s no_digits lenlf body" "skips body lf r" "at r p (bulk a @ xs)"
    "length a < 4294967296" "0 < k"
    "\<And>q. step mal r LF (stp lf q 0 (k - 1)) = Cont (stp s' q 0 (k - 1)) r"
  shows "\<exists>q. runs mal r (stp s p l k) r (stp s' q 0 (k - 1)) \<and> at r q xs"
proof -
  note b = runs_bulk_arg [OF assms(1-5)]
  show ?thesis
    using runs_trans [OF b(1) runs_LF(1) [OF b(2) assms(6)]] runs_LF(2) [OF b(2) assms(6)] by blast
qed

lemma loop_arg_Done:
  assumes "len_line s no_digits lenlf body" "skips body lf r" "at r p (bulk a @ xs)"
    "length a < 4294967296" "0 < k" "\<And>q. step mal r LF (stp lf q 0 (k - 1)) = Done r"
  shows "parse_loop mal r (stp s p l k) = Some (Done r)"
  using runs_bulk_arg [OF assms(1-5)] assms(6) loop_exit(1) by (simp add: runs_def)

lemma loop_arg_Error:
  assumes "len_line s no_digits lenlf body" "skips body lf r" "at r p (bulk a @ xs)"
    "length a < 4294967296" "0 < k" "\<And>q. \<exists>st. step mal r LF (stp lf q 0 (k - 1)) = Error st r"
  shows "\<exists>st. parse_loop mal r (stp s p l k) = Some (Error st r)"
proof -
  note b = runs_bulk_arg [OF assms(1-5)]
  obtain st where "step mal r LF (stp lf (p + 4 + length (dec (length a)) + length a) 0 (k - 1)) = Error st r"
    using assms(6) by blast
  with loop_exit(2) [OF _ this] b show ?thesis by (auto simp: runs_def)
qed

lemma step_ARGN_LF_cont:
  "redis_argn r \<or> redis_argeval r \<Longrightarrow> 0 < k \<Longrightarrow>
   step mal r LF (stp SW_ARGN_LF q 0 k) = Cont (stp SW_ARGN_LEN q 0 k) r"
  by (simp add: step.simps step_ARGN_LF_def)

lemma loop_argn:
  assumes "redis_argn r \<or> redis_argeval r"
  shows "args \<noteq> [] \<Longrightarrow> at r p (concat (map bulk args)) \<Longrightarrow> \<forall>a \<in> set args. length a < 4294967296 \<Longrightarrow>
    parse_loop mal r (stp SW_ARGN_LEN p l (length args)) = Some (Done r)"
proof (induction args arbitrary: p l)
  case (Cons a args)
  show ?case
  proof (cases "args = []")
    case True
    then show ?thesis
      using Cons.prems assms
      by (intro loop_arg_Done [OF len_lines(6) skips_states(4), of r p a "[]"])
        (simp_all add: step.simps step_ARGN_LF_def)
  next
    case False
    then obtain q where q: "runs mal r (stp SW_ARGN_LEN p l (length (a # args))) r
        (stp SW_ARGN_LEN q 0 (length args))" "at r q (concat (map bulk args))"
      using Cons.prems
        runs_arg_LF [OF len_lines(6) skips_states(4), of r p a "concat (map bulk args)"
          "length (a # args)" mal SW_ARGN_LEN l] step_ARGN_LF_cont [OF assms, of "length args" mal]
      by auto
    then show ?thesis
      using Cons.IH [OF False q(2)] Cons.prems by (simp add: runs_def)
  qed
qed simp

lemma loop_argx:
  assumes "\<forall>n. mal n"
  shows "args \<noteq> [] \<Longrightarrow> redis_argx r \<Longrightarrow> at r p (concat (map bulk args)) \<Longrightarrow>
    parse_inv r (stp SW_KEY_LEN p l (length args)) \<Longrightarrow>
    \<exists>ks. parse_loop mal r (stp SW_KEY_LEN p l (length args)) = Some (Done (r\<lparr>keys := ks\<rparr>)) \<and>
      key_texts (r\<lparr>keys := ks\<rparr>) = key_texts r @ args"
proof (induction args arbitrary: r p l)
  case (Cons a args)
  let ?q = "p + 4 + length (dec (length a)) + length a" and ?xs = "concat (map bulk args)"
  have at: "at r p (bulk a @ ?xs)" using Cons.prems by simp
  note b = runs_bulk_key [OF Cons.prems(4) assms at, simplified]
  obtain ks where ks: "runs mal r (stp SW_KEY_LEN p l (length (a # args))) (r\<lparr>keys := ks\<rparr>)
      (stp SW_KEY_LF ?q 0 (length args))" "key_texts (r\<lparr>keys := ks\<rparr>) = key_texts r @ [a]"
    using b(1) by auto
  let ?r = "r\<lparr>keys := ks\<rparr>"
  have x: "redis_argx ?r" using Cons.prems(2) by simp
  have at': "at ?r ?q (LF # ?xs)" using b(2) at_cong [of ?r r] by simp
  show ?case
  proof (cases "args = []")
    case True
    then have "step mal ?r LF (stp SW_KEY_LF ?q 0 (length args)) = Done ?r"
      using class_disjoint(7) [OF x] x by (simp add: step.simps step_KEY_LF_def)
    with loop_exit(1) [OF _ this] at' ks True show ?thesis by (auto simp: runs_def)
  next
    case False
    then have "step mal ?r LF (stp SW_KEY_LF ?q 0 (length args)) = Cont (stp SW_KEY_LEN ?q 0 (length args)) ?r"
      using class_disjoint(7) [OF x] x by (simp add: step.simps step_KEY_LF_def)
    note l = runs_LF [OF at' this]
    have "runs mal r (stp SW_KEY_LEN p l (length (a # args))) ?r (stp SW_KEY_LEN (Suc ?q) 0 (length args))"
      by (rule runs_trans [OF ks(1) l(1)])
    with Cons.prems(4) Cons.IH [OF False x l(2)] ks(2) show ?thesis
      by (auto simp: runs_def)
  qed
qed simp

fun evens :: "'a list \<Rightarrow> 'a list" where
  "evens [] = []"
| "evens [a] = [a]"
| "evens (a # b # xs) = a # evens xs"

text \<open>What follows the keys of a list of key-value pairs.\<close>

fun kv_tails :: "string list \<Rightarrow> string list" where
  "kv_tails (a # b # xs) = (CRLF @ concat (map bulk (b # xs))) # kv_tails xs"
| "kv_tails xs = []"

lemma loop_argkvx_tail:
  assumes "\<forall>n. mal n"
  shows "args \<noteq> [] \<Longrightarrow> even (length args) \<Longrightarrow> redis_argkvx r \<Longrightarrow> odd (narg r) \<Longrightarrow>
    at r p (concat (map bulk args)) \<Longrightarrow> \<forall>a \<in> set args. length a < 4294967296 \<Longrightarrow>
    parse_inv r (stp SW_KEY_LEN p l (length args)) \<Longrightarrow>
    \<exists>ks. parse_loop mal r (stp SW_KEY_LEN p l (length args)) = Some (Done (r\<lparr>keys := ks\<rparr>)) \<and>
      key_texts (r\<lparr>keys := ks\<rparr>) = key_texts r @ evens args \<and>
      key_tails (r\<lparr>keys := ks\<rparr>) = key_tails r @ kv_tails args"
proof (induction args arbitrary: r p l rule: evens.induct)
  case (3 a b args)
  let ?n = "Suc (length args)"
  let ?q = "p + 4 + length (dec (length a)) + length a" and ?xs = "concat (map bulk (b # args))"
  have at: "at r p (bulk a @ ?xs)" using "3.prems" by simp
  note k = runs_bulk_key_tail [OF "3.prems"(7) assms at, simplified]
  obtain ks where ks: "runs mal r (stp SW_KEY_LEN p l (Suc ?n)) (r\<lparr>keys := ks\<rparr>)
      (stp SW_KEY_LF ?q 0 ?n)" "key_texts (r\<lparr>keys := ks\<rparr>) = key_texts r @ [a]"
      "key_tails (r\<lparr>keys := ks\<rparr>) = key_tails r @ [CRLF @ ?xs]"
    using k(1) by auto
  let ?r = "r\<lparr>keys := ks\<rparr>"
  have x: "redis_argkvx ?r" using "3.prems"(3) by simp
  note c = class_disjoint(8) [OF x] x
  have at': "at ?r ?q (LF # ?xs)" using k(2) at_cong [of ?r r] by simp
  have "step mal ?r LF (stp SW_KEY_LF ?q 0 ?n) = Cont (stp SW_ARG1_LEN ?q 0 ?n) ?r"
    using c "3.prems"(4) by (simp add: step.simps step_KEY_LF_def odd_iff_mod_2_eq_one)
  note l = runs_LF [OF at' this]
  note r1 = runs_trans [OF ks(1) l(1)]
  have at2: "at ?r (Suc ?q) (bulk b @ concat (map bulk args))" using l(2) by simp
  show ?case
  proof (cases "args = []")
    case True
    have "parse_loop mal ?r (stp SW_ARG1_LEN (Suc ?q) 0 ?n) = Some (Done ?r)"
      using True c "3.prems"(6)
      by (intro loop_arg_Done [OF len_lines(3) skips_states(1) at2])
        (simp_all add: step.simps step_ARG1_LF_def)
    with r1 ks(2,3) True show ?thesis by (auto simp: runs_def)
  next
    case False
    then obtain q where q: "runs mal ?r (stp SW_ARG1_LEN (Suc ?q) 0 ?n) ?r
        (stp SW_KEY_LEN q 0 (length args))" "at ?r q (concat (map bulk args))"
      using runs_arg_LF [OF len_lines(3) skips_states(1) at2, of ?n mal SW_KEY_LEN 0] c "3.prems"(6)
      by (auto simp: step.simps step_ARG1_LF_def)
    note r2 = runs_trans [OF r1 q(1)]
    have "\<exists>ks'. parse_loop mal ?r (stp SW_KEY_LEN q 0 (length args)) = Some (Done (?r\<lparr>keys := ks'\<rparr>)) \<and>
        key_texts (?r\<lparr>keys := ks'\<rparr>) = key_texts ?r @ evens args \<and>
        key_tails (?r\<lparr>keys := ks'\<rparr>) = key_tails ?r @ kv_tails args"
      using "3.prems" False x q(2) r2 by (intro "3.IH") (simp_all add: runs_def)
    with r2 ks(2,3) show ?thesis by (auto simp: runs_def)
  qed
qed auto

lemma loop_argkvx:
  assumes "\<forall>n. mal n" "args \<noteq> []" "even (length args)" "redis_argkvx r" "odd (narg r)"
    "at r p (concat (map bulk args))" "\<forall>a \<in> set args. length a < 4294967296"
    "parse_inv r (stp SW_KEY_LEN p l (length args))"
  shows "\<exists>ks. parse_loop mal r (stp SW_KEY_LEN p l (length args)) = Some (Done (r\<lparr>keys := ks\<rparr>)) \<and>
      key_texts (r\<lparr>keys := ks\<rparr>) = key_texts r @ evens args"
  using loop_argkvx_tail [OF assms] by blast

text \<open>After the only key of a command that is not a vector command: the number of remaining
  arguments decides.\<close>

definition tail_ok :: "cmd \<Rightarrow> nat \<Rightarrow> bool" where
  "tail_ok r n \<longleftrightarrow> redis_arg0 r \<and> n = 0 \<or> redis_arg1 r \<and> n = 1 \<or> redis_arg2 r \<and> n = 2 \<or>
     redis_arg3 r \<and> n = 3 \<or> redis_argn r"

lemma loop_tail_count:
  assumes "redis_arg0 r \<or> redis_arg1 r \<or> redis_arg2 r \<or> redis_arg3 r" "\<not> tail_ok r (length rest)"
    "at r q (LF # xs)"
  shows "\<exists>st. parse_loop mal r (stp SW_KEY_LF q 0 (length rest)) = Some (Error st r)"
proof -
  have "step mal r LF (stp SW_KEY_LF q 0 (length rest)) = Error (stp SW_KEY_LF q 0 (length rest)) r"
    using assms(1,2) by (auto simp: step.simps step_KEY_LF_def tail_ok_def dest: class_disjoint)
  with loop_exit(2) [OF _ this] assms(3) show ?thesis by auto
qed

lemma runs_KEY_LF:
  assumes "at r q (LF # xs)" "step mal r LF (stp SW_KEY_LF q 0 k) = Cont (stp SW_ARG1_LEN q 0 k) r"
    "parse_loop mal r (stp SW_ARG1_LEN (Suc q) 0 k) = out"
  shows "parse_loop mal r (stp SW_KEY_LF q 0 k) = out"
  using runs_LF(1) [OF assms(1,2)] assms(3) by (simp add: runs_def)

lemma loop_tail_arg1:
  assumes "redis_arg1 r" "at r q (LF # bulk a)" "length a < 4294967296"
  shows "parse_loop mal r (stp SW_KEY_LF q 0 1) = Some (Done r)"
proof (rule runs_KEY_LF [OF assms(2)])
  note c = class_disjoint(3) [OF assms(1)] assms(1)
  show "step mal r LF (stp SW_KEY_LF q 0 1) = Cont (stp SW_ARG1_LEN q 0 1) r"
    using c by (simp add: step.simps step_KEY_LF_def)
  show "parse_loop mal r (stp SW_ARG1_LEN (Suc q) 0 1) = Some (Done r)"
    using at_Cons(3) [OF assms(2)] assms(3) c
    by (intro loop_arg_Done [OF len_lines(3) skips_states(1), of r "Suc q" a "[]"])
      (simp_all add: step.simps step_ARG1_LF_def)
qed

lemma runs_ARG1_ARG2:
  assumes "at r p (bulk a @ xs)" "length a < 4294967296" "redis_arg2 r \<and> k = 2 \<or> redis_arg3 r \<and> k = 3"
  shows "\<exists>q. runs mal r (stp SW_ARG1_LEN p 0 k) r (stp SW_ARG2_LEN q 0 (k - 1)) \<and> at r q xs"
  using assms class_disjoint(4,5) [of r]
  by (intro runs_arg_LF [OF len_lines(3) skips_states(1)])
    (auto simp: step.simps step_ARG1_LF_def)

lemma loop_tail_arg2:
  assumes "redis_arg2 r" "at r q (LF # bulk a @ bulk b)" "length a < 4294967296" "length b < 4294967296"
  shows "parse_loop mal r (stp SW_KEY_LF q 0 2) = Some (Done r)"
proof (rule runs_KEY_LF [OF assms(2)])
  note c = class_disjoint(4) [OF assms(1)] assms(1)
  show "step mal r LF (stp SW_KEY_LF q 0 2) = Cont (stp SW_ARG1_LEN q 0 2) r"
    using c by (simp add: step.simps step_KEY_LF_def)
  obtain p where p: "runs mal r (stp SW_ARG1_LEN (Suc q) 0 2) r (stp SW_ARG2_LEN p 0 1)" "at r p (bulk b)"
    using runs_ARG1_ARG2 [of r "Suc q" a "bulk b" 2 mal] at_Cons(3) [OF assms(2)] assms by auto
  have "parse_loop mal r (stp SW_ARG2_LEN p 0 1) = Some (Done r)"
    using p(2) assms(4) c
    by (intro loop_arg_Done [OF len_lines(4) skips_states(2), of r p b "[]"])
      (simp_all add: step.simps step_ARG2_LF_def)
  with p(1) show "parse_loop mal r (stp SW_ARG1_LEN (Suc q) 0 2) = Some (Done r)"
    by (simp add: runs_def)
qed

lemma loop_tail_arg3:
  assumes "redis_arg3 r" "at r q (LF # bulk a @ bulk b @ bulk d)"
    "length a < 4294967296" "length b < 4294967296" "length d < 4294967296"
  shows "parse_loop mal r (stp SW_KEY_LF q 0 3) = Some (Done r)"
proof (rule runs_KEY_LF [OF assms(2)])
  note c = class_disjoint(5) [OF assms(1)] assms(1)
  show "step mal r LF (stp SW_KEY_LF q 0 3) = Cont (stp SW_ARG1_LEN q 0 3) r"
    using c by (simp add: step.simps step_KEY_LF_def)
  obtain p where p: "runs mal r (stp SW_ARG1_LEN (Suc q) 0 3) r (stp SW_ARG2_LEN p 0 2)"
    "at r p (bulk b @ bulk d)"
    using runs_ARG1_ARG2 [of r "Suc q" a "bulk b @ bulk d" 3 mal] at_Cons(3) [OF assms(2)] assms by auto
  obtain p' where p': "runs mal r (stp SW_ARG2_LEN p 0 2) r (stp SW_ARG3_LEN p' 0 1)" "at r p' (bulk d)"
    using runs_arg_LF [OF len_lines(4) skips_states(2) p(2), of 2 mal SW_ARG3_LEN 0] c assms(4)
    by (auto simp: step.simps step_ARG2_LF_def)
  have "parse_loop mal r (stp SW_ARG3_LEN p' 0 1) = Some (Done r)"
    using p'(2) assms(5) c
    by (intro loop_arg_Done [OF len_lines(5) skips_states(3), of r p' d "[]"])
      (simp_all add: step.simps step_ARG3_LF_def)
  with p(1) p'(1) show "parse_loop mal r (stp SW_ARG1_LEN (Suc q) 0 3) = Some (Done r)"
    by (simp add: runs_def)
qed

lemma loop_tail_argn:
  assumes "redis_argn r" "at r q (LF # concat (map bulk rest))" "\<forall>a \<in> set rest. length a < 4294967296"
  shows "parse_loop mal r (stp SW_KEY_LF q 0 (length rest)) = Some (Done r)"
proof (cases rest)
  case Nil
  have "step mal r LF (stp SW_KEY_LF q 0 0) = Done r"
    using class_disjoint(6) [OF assms(1)] assms(1) by (simp add: step.simps step_KEY_LF_def)
  with loop_exit(1) [OF _ this] assms(2) Nil show ?thesis by simp
next
  case (Cons a as)
  note c = class_disjoint(6) [OF assms(1)] assms(1)
  have at: "at r (Suc q) (bulk a @ concat (map bulk as))"
    using at_Cons(3) [OF assms(2)] Cons by simp
  show ?thesis
  proof (rule runs_KEY_LF [OF assms(2)])
    show "step mal r LF (stp SW_KEY_LF q 0 (length rest)) = Cont (stp SW_ARG1_LEN q 0 (length rest)) r"
      using c Cons by (simp add: step.simps step_KEY_LF_def)
    show "parse_loop mal r (stp SW_ARG1_LEN (Suc q) 0 (length rest)) = Some (Done r)"
    proof (cases "as = []")
      case True
      then show ?thesis
        using c Cons assms(3)
        by (intro loop_arg_Done [OF len_lines(3) skips_states(1) at])
          (simp_all add: step.simps step_ARG1_LF_def)
    next
      case False
      then obtain p where p: "runs mal r (stp SW_ARG1_LEN (Suc q) 0 (length rest)) r
          (stp SW_ARGN_LEN p 0 (length as))" "at r p (concat (map bulk as))"
        using runs_arg_LF [OF len_lines(3) skips_states(1) at, of "length rest" mal SW_ARGN_LEN 0]
          c assms(3) Cons
        by (auto simp: step.simps step_ARG1_LF_def)
      with loop_argn [of r as p mal 0] False assms Cons show ?thesis by (simp add: runs_def)
    qed
  qed
qed

lemma loop_tail:
  assumes "redis_arg0 r \<or> redis_arg1 r \<or> redis_arg2 r \<or> redis_arg3 r \<or> redis_argn r"
    "at r q (LF # concat (map bulk rest))" "\<forall>a \<in> set rest. length a < 4294967296"
  shows "\<exists>st. parse_loop mal r (stp SW_KEY_LF q 0 (length rest)) =
    Some (if tail_ok r (length rest) then Done r else Error st r)"
proof (cases "tail_ok r (length rest)")
  case False
  then have "\<not> redis_argn r" by (simp add: tail_ok_def)
  with False loop_tail_count [OF _ False assms(2)] assms(1) show ?thesis by auto
next
  case True
  have "parse_loop mal r (stp SW_KEY_LF q 0 (length rest)) = Some (Done r)"
    using True unfolding tail_ok_def
  proof (elim disjE conjE)
    assume "redis_arg0 r" "length rest = 0"
    moreover have "step mal r LF (stp SW_KEY_LF q 0 0) = Done r"
      using \<open>redis_arg0 r\<close> by (simp add: step.simps step_KEY_LF_def)
    ultimately show ?thesis using loop_exit(1) [of r "stp SW_KEY_LF q 0 0"] assms(2) by simp
  next
    assume "redis_arg1 r" "length rest = 1"
    with assms(2,3) show ?thesis
      using loop_tail_arg1 by (auto simp: length_Suc_conv)
  next
    assume "redis_arg2 r" "length rest = 2"
    with assms(2,3) show ?thesis
      using loop_tail_arg2 by (auto simp: numeral_2_eq_2 length_Suc_conv)
  next
    assume "redis_arg3 r" "length rest = 3"
    with assms(2,3) show ?thesis
      using loop_tail_arg3 by (auto simp: numeral_3_eq_3 length_Suc_conv)
  qed (use loop_tail_argn assms in blast)
  with True show ?thesis by simp
qed

section \<open>Script calls\<close>

definition nkey_ok :: "string \<Rightarrow> bool" where
  "nkey_ok a \<longleftrightarrow> a \<noteq> [] \<and> (case nkey_loop a 0 of None \<Rightarrow> False | Some n \<Rightarrow> n \<noteq> 0)"

definition eval_ok :: "string list \<Rightarrow> bool" where
  "eval_ok args \<longleftrightarrow> 3 \<le> length args \<and> nkey_ok (args ! 1)"

lemma step_nkey:
  assumes "redis_argeval r" "at r p (a @ CRLF @ xs)"
  shows "\<exists>st. step mal r c (stp SW_ARG2 p (length a) k) =
    (if nkey_ok a then Cont (stp SW_ARG2_LF (p + length a) 0 k) r else Error st r)"
  using assms(1) at_body [OF assms(2)] at_append(2) [OF assms(2)]
  by (auto simp: step.simps step_ARG2_def Let_def nkey_ok_def split: option.splits)

lemma bulk_split:
  assumes "at r p (bulk a @ xs)"
  shows "at r p (CHR ''$'' # dec (length a) @ CRLF @ a @ CRLF @ xs)"
    and "at r (p + 3 + length (dec (length a))) (a @ CRLF @ xs)"
proof -
  show t: "at r p (CHR ''$'' # dec (length a) @ CRLF @ a @ CRLF @ xs)"
    using assms by (simp add: bulk_def)
  show "at r (p + 3 + length (dec (length a))) (a @ CRLF @ xs)"
    using at_append(1) [of r p "CHR ''$'' # dec (length a) @ CRLF" "a @ CRLF @ xs"] t
    by (simp add: numeral_3_eq_3)
qed

lemma loop_nkey:
  assumes "redis_argeval r" "at r p (bulk a @ xs)" "length a < 4294967296" "1 < k"
  shows "if nkey_ok a then \<exists>q. runs mal r (stp SW_ARG2_LEN p l k) r (stp SW_KEY_LEN q 0 (k - 1)) \<and> at r q xs
    else \<exists>st. parse_loop mal r (stp SW_ARG2_LEN p l k) = Some (Error st r)"
proof -
  let ?q = "p + 3 + length (dec (length a))"
  let ?st = "stp SW_ARG2 ?q (length a) (k - 1)"
  note b = bulk_split [OF assms(2)]
  have r1: "runs mal r (stp SW_ARG2_LEN p l k) r ?st"
    using assms(3,4) dec_pos by (intro runs_stp_len [OF len_lines(4) b(1)]) (simp_all add: no_digits_def)
  obtain c ys where c: "a @ CRLF @ xs = c # ys" by (rule body_first)
  have at: "at r (ppos ?st) (c # ys)" using b(2) c by simp
  obtain st where step: "step mal r c ?st =
      (if nkey_ok a then Cont (stp SW_ARG2_LF (?q + length a) 0 (k - 1)) r else Error st r)"
    using step_nkey [OF assms(1) b(2)] by blast
  show ?thesis
  proof (cases "nkey_ok a")
    case False
    with r1 step loop_exit(2) [OF at] show ?thesis by (auto simp: runs_def)
  next
    case True
    then have step': "step mal r c ?st = Cont (stp SW_ARG2_LF (?q + length a) 0 (k - 1)) r"
      using step by simp
    have r2: "runs mal r ?st r (stp SW_ARG2_LF (Suc (?q + length a)) 0 (k - 1))"
      using runs_step [OF at step'] by simp
    have "step mal r LF (stp SW_ARG2_LF (Suc (?q + length a)) 0 (k - 1)) =
        Cont (stp SW_KEY_LEN (Suc (?q + length a)) 0 (k - 1)) r"
      using class_disjoint(9) [OF assms(1)] assms(1,4) by (simp add: step.simps step_ARG2_LF_def)
    note l = runs_LF [OF at_body(3) [OF b(2)] this]
    from runs_trans [OF runs_trans [OF r1 r2] l(1)] l(2) True show ?thesis by auto
  qed
qed

lemma loop_eval:
  assumes "\<forall>n. mal n" "redis_argeval r" "args \<noteq> []" "at r p (concat (map bulk args))"
    "\<forall>a \<in> set args. length a < 4294967296" "parse_inv r (stp SW_ARG1_LEN p l (length args))"
  shows "\<exists>out. parse_loop mal r (stp SW_ARG1_LEN p l (length args)) = Some out \<and>
    (if eval_ok args then \<exists>ks. out = Done (r\<lparr>keys := ks\<rparr>) \<and> key_texts (r\<lparr>keys := ks\<rparr>) = key_texts r @ [args ! 2]
     else \<exists>st. out = Error st r)"
proof -
  note c = class_disjoint(9) [OF assms(2)] assms(2)
  obtain a as where args: "args = a # as" using assms(3) by (cases args) auto
  have at: "at r p (bulk a @ concat (map bulk as))" using assms(4) args by simp
  show ?thesis
  proof (cases "length as < 2")
    case True
    then have "\<exists>st. parse_loop mal r (stp SW_ARG1_LEN p l (length args)) = Some (Error st r)"
      using c assms(5) args
      by (intro loop_arg_Error [OF len_lines(3) skips_states(1) at])
        (simp_all add: step.simps step_ARG1_LF_def)
    with True args show ?thesis by (auto simp: eval_ok_def)
  next
    case False
    then obtain b d es where as: "as = b # d # es"
      by (cases as; cases "tl as") auto
    obtain q where q: "runs mal r (stp SW_ARG1_LEN p l (length args)) r
        (stp SW_ARG2_LEN q 0 (length as))" "at r q (bulk b @ concat (map bulk (d # es)))"
      using runs_arg_LF [OF len_lines(3) skips_states(1) at, of "length args" mal SW_ARG2_LEN l]
        c assms(5) args as
      by (auto simp: step.simps step_ARG1_LF_def)
    have b: "length b < 4294967296" "1 < length as" using assms(5) args as by auto
    note nk = loop_nkey [OF assms(2) q(2) b, of mal 0]
    show ?thesis
    proof (cases "nkey_ok b")
      case False
      with nk q(1) args as show ?thesis by (auto simp: runs_def eval_ok_def)
    next
      case True
      then obtain q2 where q2: "runs mal r (stp SW_ARG2_LEN q 0 (length as)) r
          (stp SW_KEY_LEN q2 0 (Suc (length es)))" "at r q2 (bulk d @ concat (map bulk es))"
        using nk as by auto
      have i: "parse_inv r (stp SW_KEY_LEN q2 0 (Suc (length es)))"
        using q(1) q2(1) assms(6) by (simp add: runs_def)
      note k = runs_bulk_key [OF i assms(1) q2(2), simplified]
      obtain ks where ks: "runs mal r (stp SW_KEY_LEN q2 0 (Suc (length es))) (r\<lparr>keys := ks\<rparr>)
          (stp SW_KEY_LF (q2 + 4 + length (dec (length d)) + length d) 0 (length es))"
        "key_texts (r\<lparr>keys := ks\<rparr>) = key_texts r @ [d]"
        using k(1) by auto
      let ?r = "r\<lparr>keys := ks\<rparr>" and ?q3 = "q2 + 4 + length (dec (length d)) + length d"
      have at3: "at ?r ?q3 (LF # concat (map bulk es))" using k(2) at_cong [of ?r r] by simp
      have "parse_loop mal ?r (stp SW_KEY_LF ?q3 0 (length es)) = Some (Done ?r)"
      proof (cases "es = []")
        case True
        then have "step mal ?r LF (stp SW_KEY_LF ?q3 0 (length es)) = Done ?r"
          using c by (simp add: step.simps step_KEY_LF_def)
        with loop_exit(1) [OF _ this] at3 show ?thesis by simp
      next
        case False
        then have "step mal ?r LF (stp SW_KEY_LF ?q3 0 (length es)) = Cont (stp SW_ARGN_LEN ?q3 0 (length es)) ?r"
          using c by (simp add: step.simps step_KEY_LF_def)
        note l = runs_LF [OF at3 this]
        have "parse_loop mal ?r (stp SW_ARGN_LEN (Suc ?q3) 0 (length es)) = Some (Done ?r)"
          using l(2) False assms(5) args as c by (intro loop_argn) simp_all
        with l(1) show ?thesis by (simp add: runs_def)
      qed
      with q(1) q2(1) ks True args as show ?thesis
        by (auto simp: runs_def eval_ok_def)
    qed
  qed
qed

section \<open>Acceptance by arity\<close>

text \<open>The argument lists a command accepts, and which arguments are its keys.  A vector
  command of key-value pairs also accepts a lone key.\<close>

definition accepts :: "cmd \<Rightarrow> string list \<Rightarrow> bool" where
  "accepts r args \<longleftrightarrow>
     redis_argz r \<or> redis_argeval r \<and> eval_ok args \<or> redis_argx r \<and> args \<noteq> [] \<or>
     redis_argkvx r \<and> (length args = 1 \<or> args \<noteq> [] \<and> even (length args)) \<or>
     args \<noteq> [] \<and> tail_ok r (length args - 1)"

definition key_args :: "cmd \<Rightarrow> string list \<Rightarrow> string list" where
  "key_args r args =
     (if redis_argz r \<or> args = [] then []
      else if redis_argeval r then [args ! 2]
      else if redis_argx r then args
      else if redis_argkvx r then evens args
      else [hd args])"

definition has_class :: "cmd \<Rightarrow> bool" where
  "has_class r \<longleftrightarrow> redis_argz r \<or> redis_arg0 r \<or> redis_arg1 r \<or> redis_arg2 r \<or> redis_arg3 r \<or>
     redis_argn r \<or> redis_argx r \<or> redis_argkvx r \<or> redis_argeval r"

definition outcome_ok :: "cmd \<Rightarrow> string list \<Rightarrow> outcome \<Rightarrow> bool" where
  "outcome_ok r args out \<longleftrightarrow>
     (if args = [] \<and> \<not> redis_argz r then \<exists>st. out = Cont st r
      else if accepts r args then
        \<exists>ks. out = Done (r\<lparr>keys := ks\<rparr>) \<and> key_texts (r\<lparr>keys := ks\<rparr>) = key_args r args
      else \<exists>st ks. out = Error st (r\<lparr>keys := ks\<rparr>))"

lemma keys_id [simp]: "r\<lparr>keys := keys r\<rparr> = r"
  by simp

lemma loop_first_key:
  assumes "\<forall>n. mal n" "at r p (concat (map bulk (a # rest)))"
    "parse_inv r (stp SW_KEY_LEN p l (Suc (length rest)))"
  shows "\<exists>ks q. runs mal r (stp SW_KEY_LEN p l (Suc (length rest))) (r\<lparr>keys := ks\<rparr>)
      (stp SW_KEY_LF q 0 (length rest)) \<and> key_texts (r\<lparr>keys := ks\<rparr>) = key_texts r @ [a] \<and>
    at (r\<lparr>keys := ks\<rparr>) q (LF # concat (map bulk rest))"
proof -
  have "at r p (bulk a @ concat (map bulk rest))" using assms(2) by simp
  note k = runs_bulk_key [OF assms(3,1) this, simplified]
  then show ?thesis using at_cong by (metis cmd.select_convs(5,6) cmd.surjective cmd.update_convs(7))
qed

lemma single_class:
  "redis_arg0 r \<or> redis_arg1 r \<or> redis_arg2 r \<or> redis_arg3 r \<or> redis_argn r \<Longrightarrow>
   \<not> redis_argz r \<and> \<not> redis_argx r \<and> \<not> redis_argkvx r \<and> \<not> redis_argeval r"
  using class_disjoint(2-6) [of r] by blast

lemma loop_single_key:
  assumes "\<forall>n. mal n" "redis_arg0 r \<or> redis_arg1 r \<or> redis_arg2 r \<or> redis_arg3 r \<or> redis_argn r"
    "args \<noteq> []" "at r p (concat (map bulk args))" "\<forall>a \<in> set args. length a < 4294967296"
    "parse_inv r (stp SW_KEY_LEN p l (length args))" "key_texts r = []"
  shows "\<exists>out. parse_loop mal r (stp SW_KEY_LEN p l (length args)) = Some out \<and> outcome_ok r args out"
proof -
  obtain a rest where args: "args = a # rest" using assms(3) by (cases args) auto
  obtain ks q where k: "runs mal r (stp SW_KEY_LEN p l (Suc (length rest))) (r\<lparr>keys := ks\<rparr>)
      (stp SW_KEY_LF q 0 (length rest))" "key_texts (r\<lparr>keys := ks\<rparr>) = key_texts r @ [a]"
    "at (r\<lparr>keys := ks\<rparr>) q (LF # concat (map bulk rest))"
    using loop_first_key [OF assms(1), of r p a rest l] assms(4,6) args by auto
  have c: "\<not> redis_argz r \<and> \<not> redis_argx r \<and> \<not> redis_argkvx r \<and> \<not> redis_argeval r"
    by (rule single_class [OF assms(2)])
  have t: "tail_ok (r\<lparr>keys := ks\<rparr>) = tail_ok r" by (simp add: tail_ok_def fun_eq_iff)
  obtain st where "parse_loop mal (r\<lparr>keys := ks\<rparr>) (stp SW_KEY_LF q 0 (length rest)) =
      Some (if tail_ok r (length rest) then Done (r\<lparr>keys := ks\<rparr>) else Error st (r\<lparr>keys := ks\<rparr>))"
    using loop_tail [of "r\<lparr>keys := ks\<rparr>" q rest mal] assms(2,5) k(3) args t by auto
  with k c assms(7) args show ?thesis
    by (auto simp: runs_def outcome_ok_def accepts_def key_args_def)
qed

lemma loop_kvx_class:
  assumes "\<forall>n. mal n" "redis_argkvx r" "narg r = Suc (length args)"
    "args \<noteq> []" "at r p (concat (map bulk args))" "\<forall>a \<in> set args. length a < 4294967296"
    "parse_inv r (stp SW_KEY_LEN p l (length args))" "key_texts r = []"
  shows "\<exists>out. parse_loop mal r (stp SW_KEY_LEN p l (length args)) = Some out \<and> outcome_ok r args out"
proof -
  note c = class_disjoint(8) [OF assms(2)] assms(2)
  show ?thesis
  proof (cases "even (length args)")
    case True
    with loop_argkvx [OF assms(1) assms(4) True assms(2) _ assms(5-7)] assms(3,8) c assms(4)
    show ?thesis by (auto simp: outcome_ok_def accepts_def key_args_def)
  next
    case False
    obtain a rest where args: "args = a # rest" using assms(4) by (cases args) auto
    obtain ks q where k: "runs mal r (stp SW_KEY_LEN p l (Suc (length rest))) (r\<lparr>keys := ks\<rparr>)
        (stp SW_KEY_LF q 0 (length rest))" "key_texts (r\<lparr>keys := ks\<rparr>) = key_texts r @ [a]"
      "at (r\<lparr>keys := ks\<rparr>) q (LF # concat (map bulk rest))"
      using loop_first_key [OF assms(1), of r p a rest l] assms(5,7) args by auto
    let ?r = "r\<lparr>keys := ks\<rparr>" and ?st = "stp SW_KEY_LF q 0 (length rest)"
    have step: "step mal ?r LF ?st = (if rest = [] then Done ?r else Error ?st ?r)"
      using c False assms(3) args by (simp add: step.simps step_KEY_LF_def)
    have "parse_loop mal ?r ?st = Some (if rest = [] then Done ?r else Error ?st ?r)"
      using loop_exit [of ?r ?st LF "concat (map bulk rest)" mal] step k(3) by (cases "rest = []") simp_all
    with k c False args assms(8) tail_ok_def [of r] show ?thesis
      by (cases "rest = []") (auto simp: runs_def outcome_ok_def accepts_def key_args_def)
  qed
qed

lemma loop_args:
  assumes "\<forall>n. mal n" "has_class r" "narg r = Suc (length args)"
    "at r q (LF # concat (map bulk args))" "\<forall>a \<in> set args. length a < 4294967296"
    "parse_inv r (stp SW_REQ_TYPE_LF q 0 (length args))" "key_texts r = []"
  shows "\<exists>out. parse_loop mal r (stp SW_REQ_TYPE_LF q 0 (length args)) = Some out \<and> outcome_ok r args out"
proof (cases "redis_argz r")
  case True
  then have "step mal r LF (stp SW_REQ_TYPE_LF q 0 (length args)) = Done r"
    by (simp add: step.simps step_REQ_TYPE_LF_def)
  with loop_exit(1) [OF _ this] assms(4,7) True show ?thesis
    by (auto simp: outcome_ok_def accepts_def key_args_def intro!: exI [of _ "keys r"])
next
  case nz: False
  define s where "s = (if redis_argeval r then SW_ARG1_LEN else SW_KEY_LEN)"
  have "step mal r LF (stp SW_REQ_TYPE_LF q 0 (length args)) = Cont (stp s q 0 (length args)) r"
    using nz by (simp add: step.simps step_REQ_TYPE_LF_def s_def)
  note l = runs_LF [OF assms(4) this]
  have i: "parse_inv r (stp s (Suc q) 0 (length args))" using l(1) assms(6) by (simp add: runs_def)
  have "\<exists>out. parse_loop mal r (stp s (Suc q) 0 (length args)) = Some out \<and> outcome_ok r args out"
  proof (cases "args = []")
    case True
    then show ?thesis using nz loop_end [of r "stp s (Suc q) 0 0"] l(2) by (auto simp: outcome_ok_def)
  next
    case False
    consider "redis_argeval r" | "redis_argx r" | "redis_argkvx r"
      | "redis_arg0 r \<or> redis_arg1 r \<or> redis_arg2 r \<or> redis_arg3 r \<or> redis_argn r"
      using assms(2) nz by (auto simp: has_class_def)
    then show ?thesis
    proof cases
      case 1
      have s: "s = SW_ARG1_LEN" using 1 by (simp add: s_def)
      obtain out where out: "parse_loop mal r (stp s (Suc q) 0 (length args)) = Some out"
        "if eval_ok args then \<exists>ks. out = Done (r\<lparr>keys := ks\<rparr>) \<and> key_texts (r\<lparr>keys := ks\<rparr>) = key_texts r @ [args ! 2]
         else \<exists>st. out = Error st r"
        using loop_eval [OF assms(1) 1 False l(2) assms(5) i [unfolded s]] unfolding s by blast
      have "accepts r args = eval_ok args"
        using 1 class_disjoint(9) [OF 1] by (auto simp: accepts_def tail_ok_def)
      then have "outcome_ok r args out"
        using out(2) False nz 1 assms(7)
        by (cases "eval_ok args") (auto simp: outcome_ok_def key_args_def intro!: exI [of _ "keys r"])
      with out(1) show ?thesis by blast
    next
      case 2
      note c = class_disjoint(7) [OF 2]
      have s: "s = SW_KEY_LEN" using c by (simp add: s_def)
      show ?thesis
        using loop_argx [OF assms(1) False 2 l(2) i [unfolded s]] 2 c False assms(7) unfolding s
        by (auto simp: outcome_ok_def accepts_def key_args_def)
    next
      case 3
      have s: "s = SW_KEY_LEN" using class_disjoint(8) [OF 3] by (simp add: s_def)
      show ?thesis
        using loop_kvx_class [OF assms(1) 3 assms(3) False l(2) assms(5) i [unfolded s] assms(7)]
        unfolding s .
    next
      case 4
      have s: "s = SW_KEY_LEN" using single_class [OF 4] by (simp add: s_def)
      show ?thesis
        using loop_single_key [OF assms(1) 4 False l(2) assms(5) i [unfolded s] assms(7)] unfolding s .
    qed
  qed
  with l(1) show ?thesis by (simp add: runs_def)
qed

section \<open>The head of a request\<close>

lemma runs_narg:
  "\<lbrakk>sw st = SW_NARG; token st = Some t; \<forall>c \<in> set ds. isdigit c; at r (ppos st) (ds @ xs);
    dval (rnarg st) ds < 4294967296\<rbrakk> \<Longrightarrow>
    runs mal r st r (st\<lparr>ppos := ppos st + length ds, rnarg := dval (rnarg st) ds\<rparr>)"
proof (induction ds arbitrary: st)
  case (Cons c ds)
  let ?n = "rnarg st * 10 + digit_val c"
  let ?st = "st\<lparr>rnarg := ?n, ppos := ppos st + 1\<rparr>"
  have "?n < 4294967296"
    using dval_mono [of ?n ds] Cons.prems(5) by simp
  then have "step mal r c st = Cont (st\<lparr>rnarg := ?n\<rparr>) r"
    using Cons.prems by (simp add: step.simps step_NARG_def u32_id)
  from runs_step [OF _ this, of "ds @ xs"] have "runs mal r st r ?st"
    using Cons.prems by simp
  also have "runs mal r ?st r (?st\<lparr>ppos := ppos ?st + length ds, rnarg := dval (rnarg ?st) ds\<rparr>)"
    using Cons.prems at_Cons(3) [of r "ppos st" c "ds @ xs"] by (intro Cons.IH) simp_all
  finally show ?case by simp
qed simp

definition with_narg :: "cmd \<Rightarrow> nat \<Rightarrow> cmd" where
  "with_narg r n = r\<lparr>narg_start := Some 0, narg := n, narg_end := Some (1 + length (dec n))\<rparr>"

lemma with_narg_fields [simp]:
  "cmd_buf (with_narg r n) = cmd_buf r" "clen (with_narg r n) = clen r" "keys (with_narg r n) = keys r"
  "result (with_narg r n) = result r" "narg (with_narg r n) = n" "cerrstr (with_narg r n) = cerrstr r"
  by (simp_all add: with_narg_def)

lemma runs_head:
  assumes "at r 0 (CHR ''*'' # dec n @ CRLF @ xs)" "0 < n" "n < 4294967296"
  shows "runs mal r start_pst (with_narg r n) (stp SW_REQ_TYPE_LEN (3 + length (dec n)) 0 n)"
proof -
  let ?r = "r\<lparr>narg_start := Some 0\<rparr>"
  let ?a = "\<lparr> sw = SW_NARG, ppos = 1, token = Some 0, rlen = 0, rnarg = 0 \<rparr>"
  let ?b = "\<lparr> sw = SW_NARG, ppos = 1 + length (dec n), token = Some 0, rlen = 0, rnarg = n \<rparr>"
  note a1 = at_Cons(3) [OF assms(1)]
  note a2 = at_append(1) [OF a1]
  note a3 = at_Cons(3) [OF a2 [unfolded append_Cons]]
  have "step mal r (CHR ''*'') start_pst = Cont (\<lparr> sw = SW_NARG, ppos = 0, token = Some 0, rlen = 0, rnarg = 0 \<rparr>) ?r"
    by (simp add: step.simps step_NARG_def start_pst_def)
  from runs_step [OF _ this, of "dec n @ CRLF @ xs"] have "runs mal r start_pst ?r ?a"
    using assms(1) by (simp add: start_pst_def)
  also have "runs mal ?r ?a ?r ?b"
    using runs_narg [of ?a 0 "dec n" ?r "CRLF @ xs" mal] a1 assms(3) dec_digits at_cong [of ?r r] by simp
  also have "runs mal ?r ?b (with_narg r n) (stp SW_NARG_LF (2 + length (dec n)) 0 n)"
  proof -
    have "step mal ?r CR ?b = Cont (stp SW_NARG_LF (1 + length (dec n)) 0 n) (with_narg r n)"
      using assms(2) by (simp add: step.simps step_NARG_def with_narg_def)
    from runs_step [OF _ this, of "LF # xs"] show ?thesis
      using a2 at_cong [of ?r r] by simp
  qed
  also have "runs mal (with_narg r n) (stp SW_NARG_LF (2 + length (dec n)) 0 n) (with_narg r n)
      (stp SW_REQ_TYPE_LEN (Suc (2 + length (dec n))) 0 n)"
    using a3 at_cong [of "with_narg r n" r]
    by (intro runs_LF(1) [of _ _ xs]) (simp_all add: step.simps step_NARG_LF_def expect_LF_def)
  finally show ?thesis by (simp add: numeral_3_eq_3)
qed

lemma runs_name:
  assumes "at r p (bulk name @ xs)" "command_type name \<noteq> CMD_UNKNOWN" "0 < n" "length name < 4294967296"
  shows "runs mal r (stp SW_REQ_TYPE_LEN p 0 n) (set_type (command_type name) r)
      (stp SW_REQ_TYPE_LF (p + 4 + length (dec (length name)) + length name) 0 (n - 1))"
    and "at (set_type (command_type name) r) (p + 4 + length (dec (length name)) + length name) (LF # xs)"
proof -
  let ?q = "p + 3 + length (dec (length name))"
  let ?st = "stp SW_REQ_TYPE ?q (length name) (n - 1)" and ?r = "set_type (command_type name) r"
  note b = bulk_split [OF assms(1)]
  have "length name \<noteq> 0"
    using assms(2) lookup_command_type [of "[]"] by (auto simp: req_names_def)
  then have r1: "runs mal r (stp SW_REQ_TYPE_LEN p 0 n) r ?st"
    using assms(3,4) by (intro runs_stp_len [OF len_lines(1) b(1)]) simp_all
  obtain c ys where c: "name @ CRLF @ xs = c # ys" by (rule body_first)
  have at: "at r (ppos ?st) (c # ys)" using b(2) c by simp
  have "drop ?q (cmd_buf r) = name @ CR # LF # xs" using b(2) by (simp add: at_def)
  then have "lookup_name (req_names (length name)) (drop ?q (cmd_buf r)) = command_type name"
    by (simp add: lookup_command_type)
  then have "step mal r c ?st = Cont (stp SW_REQ_TYPE_LF (?q + length name) 0 (n - 1)) ?r"
    using at_body [OF b(2)] assms(2) by (simp add: step.simps step_REQ_TYPE_def Let_def)
  from runs_trans [OF r1 runs_step [OF at this]]
  show "runs mal r (stp SW_REQ_TYPE_LEN p 0 n) ?r
      (stp SW_REQ_TYPE_LF (p + 4 + length (dec (length name)) + length name) 0 (n - 1))"
    by (simp add: add.commute add.left_commute)
  show "at ?r (p + 4 + length (dec (length name)) + length name) (LF # xs)"
    using at_body(3) [OF b(2)] at_cong [of ?r r] by (simp add: add.commute add.left_commute)
qed

lemma loop_unknown:
  assumes "at r p (bulk name @ xs)" "command_type name = CMD_UNKNOWN" "0 < n" "length name < 4294967296"
  shows "\<exists>st r'. parse_loop mal r (stp SW_REQ_TYPE_LEN p 0 n) = Some (Error st r')"
proof -
  let ?q = "p + 3 + length (dec (length name))"
  let ?st = "stp SW_REQ_TYPE ?q (length name) (n - 1)"
  note b = bulk_split [OF assms(1)]
  show ?thesis
  proof (cases "name = []")
    case True
    let ?b = "\<lparr> sw = SW_REQ_TYPE_LEN, ppos = p + 1 + length (dec 0), token = Some p, rlen = 0, rnarg = n \<rparr>"
    have d: "runs mal r (stp SW_REQ_TYPE_LEN p 0 n) r ?b" "at r (ppos ?b) (CRLF @ CRLF @ xs)"
      using runs_len_digits [OF len_lines(1), of "stp SW_REQ_TYPE_LEN p 0 n" r 0 "CRLF @ xs"] b(1) True
      by simp_all
    have "step mal r CR ?b = Error ?b r"
      by (simp add: step.simps step_REQ_TYPE_LEN_def step_len_def)
    with loop_exit(2) [OF _ this, of "LF # CRLF @ xs"] d show ?thesis by (auto simp: runs_def)
  next
    case False
    then have r1: "runs mal r (stp SW_REQ_TYPE_LEN p 0 n) r ?st"
      using assms(3,4) by (intro runs_stp_len [OF len_lines(1) b(1)]) simp_all
    obtain c ys where c: "name @ CRLF @ xs = c # ys" by (rule body_first)
    have at: "at r (ppos ?st) (c # ys)" using b(2) c by simp
    have "drop ?q (cmd_buf r) = name @ CR # LF # xs" using b(2) by (simp add: at_def)
    then have "lookup_name (req_names (length name)) (drop ?q (cmd_buf r)) = CMD_UNKNOWN"
      using assms(2) by (simp add: lookup_command_type)
    then have "\<exists>st r'. step mal r c ?st = Error st r'"
      using at_body [OF b(2)] by (simp add: step.simps step_REQ_TYPE_def Let_def)
    with loop_exit(2) [OF at] r1 show ?thesis unfolding runs_def by metis
  qed
qed

definition class_types :: "cmd_type set" where
  "class_types = {
     CMD_REQ_REDIS_PING, CMD_REQ_REDIS_QUIT, CMD_REQ_REDIS_EXISTS, CMD_REQ_REDIS_PERSIST,
     CMD_REQ_REDIS_PTTL, CMD_REQ_REDIS_SORT, CMD_REQ_REDIS_TTL, CMD_REQ_REDIS_TYPE,
     CMD_REQ_REDIS_DUMP, CMD_REQ_REDIS_DECR, CMD_REQ_REDIS_GET, CMD_REQ_REDIS_INCR,
     CMD_REQ_REDIS_STRLEN, CMD_REQ_REDIS_HGETALL, CMD_REQ_REDIS_HKEYS, CMD_REQ_REDIS_HLEN,
     CMD_REQ_REDIS_HVALS, CMD_REQ_REDIS_LLEN, CMD_REQ_REDIS_LPOP, CMD_REQ_REDIS_RPOP,
     CMD_REQ_REDIS_SCARD, CMD_REQ_REDIS_SMEMBERS, CMD_REQ_REDIS_SPOP, CMD_REQ_REDIS_ZCARD,
     CMD_REQ_REDIS_PFCOUNT, CMD_REQ_REDIS_AUTH, CMD_REQ_REDIS_EXPIRE, CMD_REQ_REDIS_EXPIREAT,
     CMD_REQ_REDIS_PEXPIRE, CMD_REQ_REDIS_PEXPIREAT, CMD_REQ_REDIS_APPEND, CMD_REQ_REDIS_DECRBY,
     CMD_REQ_REDIS_GETBIT, CMD_REQ_REDIS_GETSET, CMD_REQ_REDIS_INCRBY,
     CMD_REQ_REDIS_INCRBYFLOAT, CMD_REQ_REDIS_SETNX, CMD_REQ_REDIS_HEXISTS, CMD_REQ_REDIS_HGET,
     CMD_REQ_REDIS_LINDEX, CMD_REQ_REDIS_LPUSHX, CMD_REQ_REDIS_RPOPLPUSH, CMD_REQ_REDIS_RPUSHX,
     CMD_REQ_REDIS_SISMEMBER, CMD_REQ_REDIS_ZRANK, CMD_REQ_REDIS_ZREVRANK, CMD_REQ_REDIS_ZSCORE,
     CMD_REQ_REDIS_GETRANGE, CMD_REQ_REDIS_PSETEX, CMD_REQ_REDIS_SETBIT, CMD_REQ_REDIS_SETEX,
     CMD_REQ_REDIS_SETRANGE, CMD_REQ_REDIS_HINCRBY, CMD_REQ_REDIS_HINCRBYFLOAT,
     CMD_REQ_REDIS_HSET, CMD_REQ_REDIS_HSETNX, CMD_REQ_REDIS_LRANGE, CMD_REQ_REDIS_LREM,
     CMD_REQ_REDIS_LSET, CMD_REQ_REDIS_LTRIM, CMD_REQ_REDIS_SMOVE, CMD_REQ_REDIS_ZCOUNT,
     CMD_REQ_REDIS_ZLEXCOUNT, CMD_REQ_REDIS_ZINCRBY, CMD_REQ_REDIS_ZREMRANGEBYLEX,
     CMD_REQ_REDIS_ZREMRANGEBYRANK, CMD_REQ_REDIS_ZREMRANGEBYSCORE, CMD_REQ_REDIS_RESTORE,
     CMD_REQ_REDIS_LINSERT, CMD_REQ_REDIS_BITCOUNT, CMD_REQ_REDIS_SET, CMD_REQ_REDIS_HDEL,
     CMD_REQ_REDIS_HMGET, CMD_REQ_REDIS_HMSET, CMD_REQ_REDIS_HSCAN, CMD_REQ_REDIS_LPUSH,
     CMD_REQ_REDIS_RPUSH, CMD_REQ_REDIS_SADD, CMD_REQ_REDIS_SDIFF, CMD_REQ_REDIS_SDIFFSTORE,
     CMD_REQ_REDIS_SINTER, CMD_REQ_REDIS_SINTERSTORE, CMD_REQ_REDIS_SREM, CMD_REQ_REDIS_SUNION,
     CMD_REQ_REDIS_SUNIONSTORE, CMD_REQ_REDIS_SRANDMEMBER, CMD_REQ_REDIS_SSCAN,
     CMD_REQ_REDIS_PFADD, CMD_REQ_REDIS_PFMERGE, CMD_REQ_REDIS_ZADD, CMD_REQ_REDIS_ZINTERSTORE,
     CMD_REQ_REDIS_ZRANGE, CMD_REQ_REDIS_ZRANGEBYSCORE, CMD_REQ_REDIS_ZREM,
     CMD_REQ_REDIS_ZREVRANGE, CMD_REQ_REDIS_ZRANGEBYLEX, CMD_REQ_REDIS_ZREVRANGEBYSCORE,
     CMD_REQ_REDIS_ZUNIONSTORE, CMD_REQ_REDIS_ZSCAN, CMD_REQ_REDIS_MGET, CMD_REQ_REDIS_DEL,
     CMD_REQ_REDIS_MSET, CMD_REQ_REDIS_EVAL, CMD_REQ_REDIS_EVALSHA}"

lemma known_has_class: "command_type s \<noteq> CMD_UNKNOWN \<Longrightarrow> ctype r = command_type s \<Longrightarrow> has_class r"
proof -
  assume "command_type s \<noteq> CMD_UNKNOWN" "ctype r = command_type s"
  then have "(map c_tolower s, ctype r) \<in> set command_names"
    by (auto simp: command_type_def split: option.splits dest: map_of_SomeD)
  moreover have "list_all (\<lambda>(s, t). t \<in> class_types) command_names"
    unfolding command_names_def req_names_defs class_types_def
    by (simp only: list_all_append list.pred_inject prod.case insert_iff simp_thms cmd_type.distinct)
  ultimately have "ctype r \<in> class_types" by (auto simp: list_all_iff)
  then show ?thesis unfolding has_class_def redis_arg_defs class_types_def by blast
qed

lemma accepts_cong:
  assumes "ctype x = ctype y"
  shows "accepts x args = accepts y args" "key_args x args = key_args y args"
  unfolding accepts_def key_args_def tail_ok_def redis_arg_cong [OF assms] by (rule refl)+

lemma outcome_result:
  assumes "parse_loop mal r0 start_pst = Some out" "outcome_ok r args out" "mal 100"
    "result r = CMD_PARSE_OK" "key_texts r = []" "has_class r"
  shows "\<exists>r'. redis_parse_cmd mal r0 = Some r' \<and> ctype r' = ctype r \<and> narg r' = narg r \<and>
    result r' = (if args = [] \<or> accepts r args then CMD_PARSE_OK else CMD_PARSE_ERROR) \<and>
    (result r' = CMD_PARSE_OK \<longrightarrow> key_texts r' = key_args r args)"
proof -
  consider (stop) st where "args = []" "\<not> redis_argz r" "out = Cont st r"
    | (ok) ks where "accepts r args" "out = Done (r\<lparr>keys := ks\<rparr>)"
        "key_texts (r\<lparr>keys := ks\<rparr>) = key_args r args"
    | (err) st ks where "args \<noteq> []" "\<not> accepts r args" "out = Error st (r\<lparr>keys := ks\<rparr>)"
    using assms(2) unfolding outcome_ok_def by (auto split: if_splits simp: accepts_def)
  then show ?thesis
  proof cases
    case stop
    then show ?thesis using assms by (simp add: redis_parse_cmd_def key_args_def)
  next
    case ok
    then show ?thesis using assms(1) by (simp add: redis_parse_cmd_def key_texts_def)
  next
    case err
    then show ?thesis using assms(1,3) by (simp add: redis_parse_cmd_def)
  qed
qed

text \<open>The head of a request for a known command leads to the state after the command name.\<close>

lemma parse_head:
  assumes "fresh_cmd r" "\<forall>n. mal n" "length (multibulk (name # args)) < 2147483648"
    "command_type name \<noteq> CMD_UNKNOWN"
  obtains r2 q where
    "runs mal (request r (multibulk (name # args))) start_pst r2 (stp SW_REQ_TYPE_LF q 0 (length args))"
    "at r2 q (LF # concat (map bulk args))" "\<forall>a \<in> set args. length a < 4294967296"
    "parse_inv r2 (stp SW_REQ_TYPE_LF q 0 (length args))" "key_texts r2 = []" "key_tails r2 = []" "has_class r2"
    "ctype r2 = command_type name" "narg r2 = Suc (length args)" "result r2 = CMD_PARSE_OK"
proof -
  let ?text = "multibulk (name # args)" and ?n = "Suc (length args)"
  let ?r0 = "request r ?text" and ?p = "3 + length (dec (Suc (length args)))"
  have len: "?n \<le> length ?text" "\<forall>a \<in> set (name # args). length a \<le> length ?text"
    using count_le_bulks [of "name # args"] length_le_bulks [of _ "name # args"]
    by (fastforce simp: multibulk_def)+
  have at0: "at ?r0 0 (CHR ''*'' # dec ?n @ CRLF @ bulk name @ concat (map bulk args))"
    by (simp add: at_def request_def multibulk_def)
  define r2 where "r2 = set_type (command_type name) (with_narg ?r0 ?n)"
  define q where "q = ?p + 4 + length (dec (length name)) + length name"
  have h: "runs mal ?r0 start_pst (with_narg ?r0 ?n) (stp SW_REQ_TYPE_LEN ?p 0 ?n)"
    using len(1) assms(3) by (intro runs_head [OF at0]) simp_all
  have "at (with_narg ?r0 ?n) ?p (bulk name @ concat (map bulk args))"
    using at_append(1) [of ?r0 0 "CHR ''*'' # dec ?n @ CRLF" "bulk name @ concat (map bulk args)"] at0
      at_cong [of "with_narg ?r0 ?n" ?r0]
    by (simp add: numeral_3_eq_3)
  note n1 = runs_name(1) [OF this assms(4), where n = ?n and mal = mal, folded r2_def q_def]
    and n2 = runs_name(2) [OF this assms(4), where n = ?n, folded r2_def q_def]
  have m: "length name < 4294967296" "\<forall>a \<in> set args. length a < 4294967296"
    using len(2) assms(3) by auto
  have all: "runs mal ?r0 start_pst r2 (stp SW_REQ_TYPE_LF q 0 (length args))"
    using runs_trans [OF h n1] m(1) by simp
  have i: "parse_inv r2 (stp SW_REQ_TYPE_LF q 0 (length args))"
    using all parse_inv_start [OF assms(1,3)] by (simp add: runs_def)
  have k0: "key_texts r2 = []" "key_tails r2 = []"
    using assms(1)
    by (simp_all add: r2_def key_texts_def key_tails_def fresh_cmd_def nkeys_def request_def)
  have c: "has_class r2"
    using known_has_class [OF assms(4)] by (simp add: r2_def)
  have f: "ctype r2 = command_type name" "narg r2 = ?n" "result r2 = CMD_PARSE_OK"
    using assms(1) by (simp_all add: r2_def fresh_cmd_def request_def)
  have "at r2 q (LF # concat (map bulk args))" using n2 m(1) by simp
  then show thesis using all i k0 c f m(2) by (intro that)
qed

lemma parse_wellformed:
  assumes "fresh_cmd r" "\<forall>n. mal n" "length (multibulk (name # args)) < 2147483648"
    "command_type name \<noteq> CMD_UNKNOWN"
  shows "\<exists>r'. redis_parse_cmd mal (request r (multibulk (name # args))) = Some r' \<and>
    ctype r' = command_type name \<and> narg r' = Suc (length args) \<and>
    result r' = (if args = [] \<or> accepts r' args then CMD_PARSE_OK else CMD_PARSE_ERROR) \<and>
    (result r' = CMD_PARSE_OK \<longrightarrow> key_texts r' = key_args r' args)"
proof -
  let ?r0 = "request r (multibulk (name # args))"
  from assms obtain r2 q where
    all: "runs mal ?r0 start_pst r2 (stp SW_REQ_TYPE_LF q 0 (length args))"
    and n2: "at r2 q (LF # concat (map bulk args))" and m: "\<forall>a \<in> set args. length a < 4294967296"
    and i: "parse_inv r2 (stp SW_REQ_TYPE_LF q 0 (length args))" and k0: "key_texts r2 = []" "key_tails r2 = []"
    and c: "has_class r2" and f: "ctype r2 = command_type name" "narg r2 = Suc (length args)" "result r2 = CMD_PARSE_OK"
    by (rule parse_head)
  obtain out where out: "parse_loop mal ?r0 start_pst = Some out" "outcome_ok r2 args out"
    using loop_args [OF assms(2) c f(2) n2 m i k0(1)] all by (auto simp: runs_def)
  obtain r' where r': "redis_parse_cmd mal ?r0 = Some r'" "ctype r' = ctype r2" "narg r' = narg r2"
    "result r' = (if args = [] \<or> accepts r2 args then CMD_PARSE_OK else CMD_PARSE_ERROR)"
    "result r' = CMD_PARSE_OK \<longrightarrow> key_texts r' = key_args r2 args"
    using outcome_result [OF out _ f(3) k0(1) c] assms(2) by blast
  show ?thesis
    using r' f accepts_cong [OF r'(2), of args] by (intro exI [of _ r']) simp
qed

lemma parse_mset:
  assumes "fresh_cmd r" "\<forall>n. mal n" "length (multibulk (name # args)) < 2147483648"
    "command_type name = CMD_REQ_REDIS_MSET" "args \<noteq> []" "even (length args)"
  shows "\<exists>r'. redis_parse_cmd mal (request r (multibulk (name # args))) = Some r' \<and>
    ctype r' = CMD_REQ_REDIS_MSET \<and> result r' = CMD_PARSE_OK \<and>
    key_texts r' = evens args \<and> key_tails r' = kv_tails args"
proof -
  let ?r0 = "request r (multibulk (name # args))"
  have "command_type name \<noteq> CMD_UNKNOWN" using assms(4) by simp
  with assms(1-3) obtain r2 q where
    all: "runs mal ?r0 start_pst r2 (stp SW_REQ_TYPE_LF q 0 (length args))"
    and n2: "at r2 q (LF # concat (map bulk args))" and m: "\<forall>a \<in> set args. length a < 4294967296"
    and i: "parse_inv r2 (stp SW_REQ_TYPE_LF q 0 (length args))" and k0: "key_texts r2 = []" "key_tails r2 = []"
    and c: "has_class r2" and f: "ctype r2 = command_type name" "narg r2 = Suc (length args)" "result r2 = CMD_PARSE_OK"
    by (rule parse_head)
  have x: "redis_argkvx r2" using f(1) assms(4) by (simp add: redis_argkvx_def)
  note d = class_disjoint(8) [OF x]
  have "step mal r2 LF (stp SW_REQ_TYPE_LF q 0 (length args)) = Cont (stp SW_KEY_LEN q 0 (length args)) r2"
    using d by (simp add: step.simps step_REQ_TYPE_LF_def)
  note l = runs_LF [OF n2 this]
  note l' = runs_trans [OF all l(1)]
  have j: "parse_inv r2 (stp SW_KEY_LEN (Suc q) 0 (length args))" using l(1) i by (simp add: runs_def)
  have o: "odd (narg r2)" using f(2) assms(6) by simp
  from loop_argkvx_tail [OF assms(2,5,6) x o l(2) m j] obtain ks where
    "parse_loop mal r2 (stp SW_KEY_LEN (Suc q) 0 (length args)) = Some (Done (r2\<lparr>keys := ks\<rparr>))"
    "key_texts (r2\<lparr>keys := ks\<rparr>) = evens args" "key_tails (r2\<lparr>keys := ks\<rparr>) = kv_tails args"
    using k0 by auto
  with l' f assms(4) show ?thesis
    by (auto simp: runs_def redis_parse_cmd_def key_texts_def key_tails_def)
qed


lemma MSET_type: "command_type ''mSeT'' = CMD_REQ_REDIS_MSET"
  using lookup_command_type [of "''mSeT''" "[]"]
  by (simp add: req_names_def req_names4_def flip_case_def ord_def char_of_def bit_0)


lemma mset_example:
  "\<exists>r'. redis_parse_cmd (\<lambda>n. True) (request a_cmd (multibulk [''mSeT'', ''a'', ''1'', ''b'', ''2''])) = Some r' \<and>
    result r' = CMD_PARSE_OK \<and> key_texts r' = [''a'', ''b'']"
proof -
  let ?args = "[''a'', ''1'', ''b'', ''2'']"
  have "length (multibulk (''mSeT'' # ?args)) < 2147483648"
    by (simp add: multibulk_def bulk_def dec.simps)
  with parse_wellformed [OF fresh_a_cmd, of "\<lambda>n. True" "''mSeT''" ?args]
  obtain r' where r': "redis_parse_cmd (\<lambda>n. True) (request a_cmd (multibulk (''mSeT'' # ?args))) = Some r'"
    "ctype r' = CMD_REQ_REDIS_MSET"
    "result r' = (if ?args = [] \<or> accepts r' ?args then CMD_PARSE_OK else CMD_PARSE_ERROR)"
    "result r' = CMD_PARSE_OK \<longrightarrow> key_texts r' = key_args r' ?args"
    by (auto simp: MSET_type)
  then have c: "redis_argkvx r'" by (simp add: redis_argkvx_def)
  then have "accepts r' ?args" "key_args r' ?args = [''a'', ''b'']"
    using class_disjoint(8) [OF c] by (simp_all add: accepts_def key_args_def)
  with r' show ?thesis by simp
qed

lemma step_Done_type: "step mal r ch st = Done r' \<Longrightarrow> ctype r' = ctype r"
  by (cases "sw st"; auto simp: step.simps step_defs Let_def split: if_splits option.splits)

text \<open>C11 Only the vector commands can come out of the parser with more than one key: an
  accepted request with two or more keys is \<^verbatim>\<open>MGET\<close>, \<^verbatim>\<open>DEL\<close> or \<^verbatim>\<open>MSET\<close>.  The fragmenting
  code of the cluster client relies on this and treats every other type as unreachable.\<close>

theorem parse_cmd_multi_key:
  assumes "fresh_cmd r" "length text < 2147483648" "mal 100"
    and "redis_parse_cmd mal (request r text) = Some r'" "result r' = CMD_PARSE_OK" "2 \<le> nkeys r'"
  shows "ctype r' \<in> {CMD_REQ_REDIS_MGET, CMD_REQ_REDIS_DEL, CMD_REQ_REDIS_MSET}"
  using assms(1-3)
proof (cases rule: fresh_parse_cases)
  case (stop st r1)
  then show ?thesis
    using assms(4,6) by (auto simp: parse_inv_def multi_ok_def redis_argx_def redis_argkvx_def)
next
  case (exit st r1 r')
  then show ?thesis using assms(4,5) by simp
next
  case (ok st ch r1 r2)
  then have "ctype r2 = ctype r1"
    using step_Done_type by blast
  then show ?thesis
    using ok assms(4,6)
    by (auto simp: parse_inv_def multi_ok_def nkeys_def redis_argx_def redis_argkvx_def)
qed

theorem parse_cmd_multi_key_witness:
  "\<exists>r'. redis_parse_cmd (\<lambda>n. True) (request a_cmd (multibulk [''mSeT'', ''a'', ''1'', ''b'', ''2''])) = Some r' \<and>
    2 \<le> nkeys r' \<and> ctype r' \<in> {CMD_REQ_REDIS_MGET, CMD_REQ_REDIS_DEL, CMD_REQ_REDIS_MSET}"
proof -
  let ?text = "multibulk [''mSeT'', ''a'', ''1'', ''b'', ''2'']"
  have len: "length ?text < 2147483648"
    by (simp add: multibulk_def bulk_def dec.simps)
  obtain r' where r': "redis_parse_cmd (\<lambda>n. True) (request a_cmd ?text) = Some r'"
    "result r' = CMD_PARSE_OK" "key_texts r' = [''a'', ''b'']"
    using mset_example by blast
  have "nkeys r' = 2"
    using arg_cong [OF r'(3), of length] by (simp add: key_texts_def nkeys_def)
  with parse_cmd_multi_key [OF fresh_a_cmd len _ r'(1,2)] r'(1) show ?thesis
    by (intro exI [of _ r']) simp
qed

text \<open>C13 A request whose command name is not in the table is rejected, whatever its arguments.\<close>

theorem parse_cmd_unknown:
  assumes "mal 100" "length (multibulk (name # args)) < 2147483648"
    "command_type name = CMD_UNKNOWN"
  shows "\<exists>r'. redis_parse_cmd mal (request r (multibulk (name # args))) = Some r' \<and>
    result r' = CMD_PARSE_ERROR"
proof -
  let ?text = "multibulk (name # args)" and ?n = "Suc (length args)"
  let ?r0 = "request r ?text" and ?p = "3 + length (dec (Suc (length args)))"
  let ?r1 = "with_narg ?r0 ?n"
  have len: "?n < 4294967296" "length name < 4294967296"
    using count_le_bulks [of "name # args"] length_le_bulks [of name "name # args"] assms(2)
    by (simp_all add: multibulk_def)
  have at0: "at ?r0 0 (CHR ''*'' # dec ?n @ CRLF @ bulk name @ concat (map bulk args))"
    by (simp add: at_def request_def multibulk_def)
  have h: "runs mal ?r0 start_pst ?r1 (stp SW_REQ_TYPE_LEN ?p 0 ?n)"
    using len by (intro runs_head [OF at0]) simp_all
  have "at ?r1 ?p (bulk name @ concat (map bulk args))"
    using at_append(1) [of ?r0 0 "CHR ''*'' # dec ?n @ CRLF" "bulk name @ concat (map bulk args)"] at0
      at_cong [of ?r1 ?r0]
    by (simp add: numeral_3_eq_3)
  from loop_unknown [OF this assms(3) _ len(2), of ?n mal] h assms(1)
  show ?thesis by (auto simp: runs_def redis_parse_cmd_def)
qed

theorem parse_cmd_unknown_witness:
  "\<exists>r'. redis_parse_cmd (\<lambda>n. True) (request a_cmd (multibulk [''frob'', ''x''])) = Some r' \<and>
    result r' = CMD_PARSE_ERROR"
proof (rule parse_cmd_unknown)
  show "command_type ''frob'' = CMD_UNKNOWN"
    using lookup_command_type [of "''frob''" "[]"]
    by (simp add: req_names_def req_names4_def flip_case_def ord_def char_of_def bit_0)
qed (simp_all add: multibulk_def bulk_def dec.simps)

end
