(* ===== verification/ClusterFragment.thy ===== *)
theory ClusterFragment
  imports Crc16 HiUtil CommandFormat Connection "HOL-Library.Monad_Syntax"
begin

text \<open>
  Model of the part of \<^verbatim>\<open>hircluster.c\<close> that splits a request with several keys by hash slot:
  \<^verbatim>\<open>command_pre_fragment\<close> and \<^verbatim>\<open>command_format_by_slot\<close>.  The sub-commands live in a store indexed by slot, because the
  array of the splitting loop, the fragment sequence of the command and the list of
  sub-commands all point to them; a pointer to a sub-command is its slot.  The list of
  sub-commands is a list of such pointers, in the sense in which the linked lists represent
  lists.  A step is \<^term>\<open>Stuck\<close> when it accesses memory outside its blocks.
\<close>

section \<open>Errors\<close>

text \<open>The error fields of \<^verbatim>\<open>redisClusterContext\<close>; the operations below only touch these.\<close>

record cluster_error =
  cc_err :: int
  cc_errstr :: string

definition redisClusterSetError :: "int \<Rightarrow> string \<Rightarrow> 'c cluster_error_scheme \<Rightarrow> 'c cluster_error_scheme" where
  "redisClusterSetError ty s cc = cc\<lparr>cc_err := ty, cc_errstr := take 127 (cstr s)\<rparr>"

abbreviation (input) "cc_oom \<equiv> redisClusterSetError REDIS_ERR_OOM ''Out of memory''"

abbreviation (input) "REDIS_CLUSTER_SLOTS \<equiv> 16384 :: nat"

section \<open>Splitting\<close>

record 'c frag =
  f_cc :: 'c
  f_id :: nat
  f_cmd :: cmd
  f_subs :: "nat \<rightharpoonup> cmd"
  f_list :: "nat list"
  f_slot :: int

definition key_bytes :: "cmd \<Rightarrow> keypos \<Rightarrow> string" where
  "key_bytes r kp = take (kend kp - kstart kp) (drop (kstart kp) (cmd_buf r))"

text \<open>The two scans for the length of the value that follows a key of \<^verbatim>\<open>MSET\<close>, over the bytes
  from position \<open>p\<close> on; the code runs the first one twice, from the same position.\<close>

fun skip_to_digit :: "string \<Rightarrow> nat \<Rightarrow> (string \<times> nat) option" where
  "skip_to_digit [] p = None"
| "skip_to_digit (c # s) p = (if isdigit c then Some (c # s, p) else skip_to_digit s (p + 1))"

fun read_len :: "string \<Rightarrow> nat \<Rightarrow> nat \<Rightarrow> (nat \<times> nat) option" where
  "read_len [] p len = None"
| "read_len (c # s) p len =
     (if isdigit c then read_len s (p + 1) (u32 (len * 10 + digit_val c)) else Some (len, p))"

definition value_len :: "string \<Rightarrow> nat \<Rightarrow> nat option" where
  "value_len b e =
     do { (s, p) \<leftarrow> skip_to_digit (drop (e + 1) b) (e + 1);
          (len, p) \<leftarrow> read_len s p 0;
          Some (u32 (len + 4 + (p - e))) }"

text \<open>Only a key of \<^verbatim>\<open>MSET\<close> has a remaining length.\<close>

definition key_rest :: "cmd \<Rightarrow> keypos \<Rightarrow> nat option option" where
  "key_rest r kp =
     (if ctype r = CMD_REQ_REDIS_MSET then map_option Some (value_len (cmd_buf r) (kend kp)) else Some None)"

text \<open>One key: find or make the sub-command of its slot and record the key there.\<close>

definition frag_key :: "(nat \<Rightarrow> bool) \<Rightarrow> keypos \<Rightarrow> 'c cluster_error_scheme frag \<Rightarrow> 'c cluster_error_scheme frag run" where
  "frag_key mal kp st =
     (let r = f_cmd st; slot = keyHashSlot (key_bytes r kp); st = st\<lparr>f_slot := int slot\<rparr> in
      if slot \<ge> REDIS_CLUSTER_SLOTS then
        Ret False (st\<lparr>f_cc := redisClusterSetError REDIS_ERR_OTHER ''keyHashSlot return error'' (f_cc st)\<rparr>)
      else
        (case (case f_subs st slot of Some c \<Rightarrow> (Some c, f_id st) | None \<Rightarrow> command_get mal (f_id st)) of
           (None, n) \<Rightarrow> Ret False (st\<lparr>f_id := n, f_cc := cc_oom (f_cc st), f_slot := - 1\<rparr>)
         | (Some c, n) \<Rightarrow>
             (let c = c\<lparr>narg := u32 (narg c + 1)\<rparr>;
                  st = st\<lparr>f_id := n, f_cmd := r\<lparr>frag_seq := map_option (\<lambda>q. q @ [slot]) (frag_seq r)\<rparr>,
                          f_subs := (f_subs st)(slot \<mapsto> c)\<rparr> in
              case hiarray_push mal (keys c) of
                None \<Rightarrow> Ret False (st\<lparr>f_cc := cc_oom (f_cc st), f_slot := - 1\<rparr>)
              | Some (ks, p) \<Rightarrow>
                  (let key_len = u32 (kend kp - kstart kp) in
                   case key_rest r kp of
                     None \<Rightarrow> Stuck
                   | Some len \<Rightarrow>
                       (case hiarray_store ks p \<lparr>kstart = kstart kp, kend = kend kp, remain_len = len\<rparr> of
                          None \<Rightarrow> Stuck
                        | Some ks \<Rightarrow>
                            Ret True (st\<lparr>f_subs := (f_subs st)(slot \<mapsto>
                              c\<lparr>keys := ks,
                                clen := u32 (clen c + key_len + uint_len key_len +
                                          (case len of None \<Rightarrow> 0 | Some n \<Rightarrow> n)),
                                slot_num := int slot\<rparr>)\<rparr>))))))"

fun frag_keys :: "(nat \<Rightarrow> bool) \<Rightarrow> nat list \<Rightarrow> 'c cluster_error_scheme frag \<Rightarrow> 'c cluster_error_scheme frag run" where
  "frag_keys mal [] st = Ret True st"
| "frag_keys mal (i # is) st =
     (case hiarray_deref (keys (f_cmd st)) (hiarray_get (keys (f_cmd st)) i) of
        None \<Rightarrow> Stuck
      | Some kp \<Rightarrow>
          (case frag_key mal kp st of
             Ret True st \<Rightarrow> frag_keys mal is st
           | x \<Rightarrow> x))"

section \<open>Building the sub-commands\<close>

text \<open>The output is a block and the number of bytes written to it.\<close>

definition emit :: "string \<Rightarrow> string \<times> nat \<Rightarrow> (string \<times> nat) option" where
  "emit xs out = map_option (\<lambda>b. (b, snd out + length xs)) (poke (fst out) (snd out) xs)"

text \<open>The digits that \<^verbatim>\<open>hi_itoa\<close> leaves in \<^verbatim>\<open>num_str\<close>, up to the first zero byte.\<close>

definition num_text :: "string \<Rightarrow> nat \<Rightarrow> (string \<times> string) option" where
  "num_text num n =
     do { num \<leftarrow> hi_itoa num (c_int (int n));
          if NUL \<in> set num then Some (cstr num, num) else None }"

text \<open>The three branches for \<^verbatim>\<open>MGET\<close>, \<^verbatim>\<open>DEL\<close> and \<^verbatim>\<open>MSET\<close> differ in the bytes they add per key, the
  head of the request, the number of arguments, and what they copy after a key.\<close>

definition frag_shape :: "cmd_type \<Rightarrow> (nat \<times> nat \<times> string) option" where
  "frag_shape ty =
     (if ty = CMD_REQ_REDIS_MGET then Some (5, 13, CRLF @ ''$4'' @ CRLF @ ''mget'' @ CRLF)
      else if ty = CMD_REQ_REDIS_DEL then Some (5, 12, CRLF @ ''$3'' @ CRLF @ ''del'' @ CRLF)
      else if ty = CMD_REQ_REDIS_MSET then Some (3, 13, CRLF @ ''$4'' @ CRLF @ ''mset'' @ CRLF)
      else None)"

definition put_key :: "cmd \<Rightarrow> keypos \<Rightarrow> string \<times> string \<times> nat \<Rightarrow> (string \<times> string \<times> nat) option" where
  "put_key r kp = (\<lambda>(num, out).
     let key_len = u32 (kend kp - kstart kp); mset = (ctype r = CMD_REQ_REDIS_MSET) in
     do { (t, num) \<leftarrow> num_text num key_len;
          out \<leftarrow> emit ''$'' out;
          out \<leftarrow> emit t out;
          out \<leftarrow> emit CRLF out;
          n \<leftarrow> (if mset then remain_len kp else Some 0);
          bytes \<leftarrow> cut (cmd_buf r) (kstart kp) (u32 (key_len + n));
          out \<leftarrow> emit bytes out;
          out \<leftarrow> (if mset then Some out else emit CRLF out);
          Some (num, out) })"

fun put_keys :: "cmd \<Rightarrow> keypos hiarray \<Rightarrow> nat list \<Rightarrow> string \<times> string \<times> nat \<Rightarrow> (string \<times> string \<times> nat) option" where
  "put_keys r ks [] out = Some out"
| "put_keys r ks (j # js) out =
     do { kp \<leftarrow> hiarray_deref ks (hiarray_get ks j);
          out \<leftarrow> put_key r kp out;
          put_keys r ks js out }"

text \<open>The result is the finished sub-command and the number buffer, or the counts so far when
  the block could not be allocated.\<close>

definition build_sub :: "(nat \<Rightarrow> bool) \<Rightarrow> cmd \<Rightarrow> string \<Rightarrow> cmd \<Rightarrow> (cmd \<times> string) run" where
  "build_sub mal r num c =
     (case do { (per, hlen, htext) \<leftarrow> frag_shape (ctype r);
                let n = (if ctype r = CMD_REQ_REDIS_MSET then u32 (u32 (narg c * 2) + 1) else u32 (narg c + 1));
                (t, num) \<leftarrow> num_text num n;
                Some (c\<lparr>narg := n, clen := u32 (u32 (clen c + per * narg c) + hlen + length t)\<rparr>, t, num, htext) } of
        None \<Rightarrow> Stuck
      | Some (c, t, num, htext) \<Rightarrow>
          if \<not> mal (clen c) then Ret False (c, num)
          else
            (case do { out \<leftarrow> emit ''*'' (replicate (clen c) NUL, 0);
                       out \<leftarrow> emit t out;
                       out \<leftarrow> emit htext out;
                       put_keys r (keys c) [0..<hiarray_n (keys c)] (num, out) } of
               None \<Rightarrow> Stuck
             | Some (num, b, n) \<Rightarrow> Ret True (c\<lparr>cmd_buf := b, ctype := ctype r\<rparr>, num)))"

fun build_subs :: "(nat \<Rightarrow> bool) \<Rightarrow> nat list \<Rightarrow> string \<Rightarrow> 'c cluster_error_scheme frag \<Rightarrow> 'c cluster_error_scheme frag run" where
  "build_subs mal [] num st = Ret True st"
| "build_subs mal (i # is) num st =
     (case f_subs st i of
        None \<Rightarrow> build_subs mal is num st
      | Some c \<Rightarrow>
          (case build_sub mal (f_cmd st) num c of
             Stuck \<Rightarrow> Stuck
           | Ret False (c, num) \<Rightarrow>
               Ret False (st\<lparr>f_subs := (f_subs st)(i \<mapsto> c), f_cc := cc_oom (f_cc st), f_slot := - 1\<rparr>)
           | Ret True (c, num) \<Rightarrow>
               build_subs mal is num
                 (st\<lparr>f_subs := (f_subs st)(i \<mapsto> c), f_list := (if mal 24 then f_list st @ [i] else f_list st)\<rparr>)))"

text \<open>A single sub-command is dropped: the command itself goes to its slot.\<close>

definition frag_done :: "'c cluster_error_scheme frag \<Rightarrow> 'c cluster_error_scheme frag" where
  "frag_done st =
     (if f_slot st \<ge> 0 \<and> length (f_list st) = 1 then
        st\<lparr>f_list := [], f_subs := (f_subs st)(hd (f_list st) := None),
           f_cmd := (f_cmd st)\<lparr>frag_seq := None, slot_num := f_slot st\<rparr>\<rparr>
      else st)"

text \<open>The argument \<open>num\<close> is the uninitialised buffer of twelve bytes for numbers.\<close>

definition command_pre_fragment :: "(nat \<Rightarrow> bool) \<Rightarrow> string \<Rightarrow> 'c cluster_error_scheme frag \<Rightarrow> 'c cluster_error_scheme frag run" where
  "command_pre_fragment mal num st =
     (let st = st\<lparr>f_slot := - 1, f_subs := Map.empty\<rparr>; key_count = hiarray_n (keys (f_cmd st)) in
      if \<not> mal (REDIS_CLUSTER_SLOTS * 8) then Ret True (frag_done (st\<lparr>f_cc := cc_oom (f_cc st)\<rparr>))
      else if \<not> mal (block_bytes key_count 8) then Ret True (frag_done (st\<lparr>f_cc := cc_oom (f_cc st)\<rparr>))
      else
        (case frag_keys mal [0..<key_count] (st\<lparr>f_cmd := (f_cmd st)\<lparr>frag_seq := Some []\<rparr>\<rparr>) of
           Stuck \<Rightarrow> Stuck
         | Ret False st \<Rightarrow> Ret True (frag_done st)
         | Ret True st \<Rightarrow>
             (case build_subs mal [0..<REDIS_CLUSTER_SLOTS] num st of
                Stuck \<Rightarrow> Stuck
              | Ret ok st \<Rightarrow> Ret True (frag_done st))))"

definition command_format_by_slot :: "(nat \<Rightarrow> bool) \<Rightarrow> string \<Rightarrow> 'c cluster_error_scheme frag \<Rightarrow> 'c cluster_error_scheme frag run" where
  "command_format_by_slot mal num st =
     (let st = st\<lparr>f_slot := - 1\<rparr> in
      if clen (f_cmd st) = 0 then Ret True st
      else
        (case redis_parse_cmd mal (f_cmd st) of
           None \<Rightarrow> Stuck
         | Some r \<Rightarrow>
             (let st = st\<lparr>f_cmd := r\<rparr> in
              if result r = CMD_PARSE_ENOMEM then
                Ret True (st\<lparr>f_cc := redisClusterSetError REDIS_ERR_PROTOCOL ''Parse command error: out of memory'' (f_cc st)\<rparr>)
              else if result r \<noteq> CMD_PARSE_OK then
                (case cerrstr r of
                   None \<Rightarrow> Stuck
                 | Some s \<Rightarrow> Ret True (st\<lparr>f_cc := redisClusterSetError REDIS_ERR_PROTOCOL s (f_cc st)\<rparr>))
              else if c_int (int (hiarray_n (keys r))) \<le> 0 then
                Ret True (st\<lparr>f_cc := redisClusterSetError REDIS_ERR_OTHER
                  ''No keys in command(must have keys for redis cluster mode)'' (f_cc st)\<rparr>)
              else if c_int (int (hiarray_n (keys r))) = 1 then
                (case hiarray_deref (keys r) (hiarray_get (keys r) 0) of
                   None \<Rightarrow> Stuck
                 | Some kp \<Rightarrow>
                     (let slot = int (keyHashSlot (key_bytes r kp)) in
                      Ret True (st\<lparr>f_slot := slot, f_cmd := r\<lparr>slot_num := slot\<rparr>\<rparr>)))
              else command_pre_fragment mal num st)))"

end
