(* ===== verification/ClusterFragmentLaws.thy ===== *)
theory ClusterFragmentLaws
  imports ClusterFragment
begin

text \<open>
  Splitting a request by hash slot is correct: the sub-commands are the requests for the arguments
  of each slot, in order.
\<close>

section \<open>Numbers and output\<close>

lemma keyHashSlot_less: "keyHashSlot k < 16384"
  by (simp add: keyHashSlot_def Let_def unat_and_0x3FFF)

lemma uint_len_dec: "uint_len n = length (dec n)"
  by (simp add: uint_len_def uint_len_loop_dec dec.simps [of 0])

lemma dec_no_NUL: "NUL \<notin> set (dec n)"
  using dec_digits isdigit_chars by blast

lemma num_text_dec:
  assumes "0 < n" "n < 2147483648" "length num = 12"
  shows "\<exists>num'. num_text num n = Some (dec n, num') \<and> length num' = 12"
proof -
  have l: "length (dec n) \<le> 10" using length_dec_bound [of n 10] assms(2) by simp
  have "c_int (int n) = int n" using assms(2) by (simp add: c_int_id)
  moreover obtain s' where s: "hi_itoa num (int n) = Some s'" "length s' = 12"
    "take (Suc (length (dec n))) s' = dec n @ [NUL]"
    using hi_itoa_shape [of n False num] assms l by (auto simp: dec_int_def Let_def)
  moreover have d: "s' = dec n @ NUL # drop (Suc (length (dec n))) s'"
    using append_take_drop_id [of "Suc (length (dec n))" s'] unfolding s(3) by simp
  moreover have "NUL \<in> set s'" by (subst d) simp
  moreover have "cstr s' = dec n"
    unfolding cstr_def using dec_no_NUL [of n]
    by (subst d) (simp add: takeWhile_append takeWhile_eq_all_conv [THEN iffD2] del: takeWhile_eq_all_conv)
  ultimately show ?thesis by (simp add: num_text_def)
qed

lemma emit_ok:
  assumes "n + length xs \<le> length b"
  shows "\<exists>b'. emit xs (b, n) = Some (b', n + length xs) \<and> length b' = length b \<and>
    take (n + length xs) b' = take n b @ xs"
  using assms by (simp add: emit_def poke_def)

section \<open>Keys of a parsed request\<close>

definition good_key :: "cmd \<Rightarrow> keypos \<Rightarrow> string list \<Rightarrow> bool" where
  "good_key r kp g \<longleftrightarrow> kstart kp \<le> kend kp \<and> kend kp \<le> length (cmd_buf r) \<and>
     (if ctype r = CMD_REQ_REDIS_MSET
      then \<exists>v xs. g = [key_bytes r kp, v] \<and> drop (kend kp) (cmd_buf r) = CRLF @ bulk v @ xs
      else g = [key_bytes r kp])"

definition with_rest :: "cmd \<Rightarrow> keypos \<Rightarrow> keypos" where
  "with_rest r kp = \<lparr>kstart = kstart kp, kend = kend kp,
     remain_len = (if ctype r = CMD_REQ_REDIS_MSET then value_len (cmd_buf r) (kend kp) else None)\<rparr>"

lemma read_len_digits:
  "\<forall>c \<in> set ds. isdigit c \<Longrightarrow> \<not> isdigit c \<Longrightarrow> dval l ds < 4294967296 \<Longrightarrow>
   read_len (ds @ c # s) p l = Some (dval l ds, p + length ds)"
proof (induction ds arbitrary: p l)
  case (Cons d ds)
  have "l * 10 + digit_val d < 4294967296"
    using dval_mono [of "l * 10 + digit_val d" ds] Cons.prems(3) by simp
  then show ?case using Cons by (simp add: u32_id)
qed simp

lemma value_len_bulk:
  assumes "drop e b = CRLF @ bulk v @ xs" "length b < 2147483648"
  shows "value_len b e = Some (2 + length (bulk v))"
proof -
  obtain d ds where d: "dec (length v) = d # ds" using dec_nonempty [of "length v"] by (cases "dec (length v)") auto
  have e: "length b = e + (2 + length (bulk v) + length xs)" "e \<le> length b"
    using arg_cong [OF assms(1), of length] by (cases "e \<le> length b"; simp)+
  have b: "drop (Suc e) b = LF # CHR ''$'' # dec (length v) @ CR # LF # v @ CRLF @ xs"
    using arg_cong [OF assms(1), of tl] by (simp add: bulk_def drop_Suc tl_drop)
  have "isdigit d" using dec_digits [of d "length v"] d by simp
  then have s: "skip_to_digit (drop (Suc e) b) (Suc e) = Some (dec (length v) @ CR # LF # v @ CRLF @ xs, e + 3)"
    unfolding b d by (simp add: isdigit_chars)
  have "length v < 4294967296" using e(1) assms(2) by (simp add: bulk_def)
  then have "read_len (dec (length v) @ CR # LF # v @ CRLF @ xs) (e + 3) 0 =
      Some (length v, e + 3 + length (dec (length v)))"
    using dec_digits by (subst read_len_digits) auto
  then show ?thesis
    using s e(1) assms(2) by (simp add: value_len_def bulk_def u32_id)
qed

definition piece :: "string list \<Rightarrow> string" where
  "piece g = concat (map bulk g)"

lemma good_key_facts:
  assumes "good_key r kp g" "length (cmd_buf r) < 2147483648"
  shows "u32 (kend kp - kstart kp) = length (key_bytes r kp)" "hd g = key_bytes r kp"
    "length (key_bytes r kp) < 2147483648"
    "ctype r = CMD_REQ_REDIS_MSET \<Longrightarrow> \<exists>n. value_len (cmd_buf r) (kend kp) = Some n \<and>
       length (piece g) = length (bulk (key_bytes r kp)) + n - 2 \<and> 2 \<le> n"
  using assms value_len_bulk [of "kend kp" "cmd_buf r"]
  by (auto simp: good_key_def key_bytes_def u32_id piece_def split: if_splits)

text \<open>Writing one key writes the argument group it belongs to.\<close>

lemma put_key_ok:
  assumes "good_key r kp g" "length (cmd_buf r) < 2147483648" "length num = 12" "n + length (piece g) \<le> length b"
    "key_bytes r kp \<noteq> []"
  shows "\<exists>num' b'. put_key r (with_rest r kp) (num, b, n) = Some (num', b', n + length (piece g)) \<and>
    length num' = 12 \<and> length b' = length b \<and> take (n + length (piece g)) b' = take n b @ piece g"
proof -
  let ?k = "key_bytes r kp" and ?t = "dec (length (key_bytes r kp))"
  note f = good_key_facts [OF assms(1,2)]
  have k: "?k \<noteq> []" "kstart kp \<le> kend kp" "kend kp \<le> length (cmd_buf r)"
    using assms(1,5) by (simp_all add: good_key_def)
  obtain num' where num: "num_text num (length ?k) = Some (?t, num')" "length num' = 12"
    using num_text_dec [of "length ?k" num] k(1) f(3) assms(3) by auto
  define rest where "rest = (if ctype r = CMD_REQ_REDIS_MSET then the (value_len (cmd_buf r) (kend kp)) else 0)"
  define bytes where "bytes = take (length ?k + rest) (drop (kstart kp) (cmd_buf r))"
  define tail where "tail = (if ctype r = CMD_REQ_REDIS_MSET then [] else CRLF)"
  have p: "piece g = CHR ''$'' # ?t @ CRLF @ bytes @ tail" and
    c: "cut (cmd_buf r) (kstart kp) (u32 (length ?k + rest)) = Some bytes"
  proof -
    have d: "drop (kstart kp) (cmd_buf r) = ?k @ drop (kend kp) (cmd_buf r)"
      unfolding key_bytes_def using k(2) by (metis append_take_drop_id drop_drop le_add_diff_inverse2)
    have lk: "length ?k = kend kp - kstart kp" using k by (simp add: key_bytes_def)
    show "piece g = CHR ''$'' # ?t @ CRLF @ bytes @ tail"
    proof (cases "ctype r = CMD_REQ_REDIS_MSET")
      case True
      then obtain v xs where v: "g = [?k, v]" "drop (kend kp) (cmd_buf r) = CRLF @ bulk v @ xs"
        using assms(1) by (auto simp: good_key_def)
      have "rest = 2 + length (bulk v)" using True value_len_bulk [OF v(2) assms(2)] by (simp add: rest_def)
      then have "bytes = ?k @ CRLF @ bulk v" unfolding bytes_def d v(2) by simp
      then show ?thesis using v(1) True by (simp add: piece_def bulk_def tail_def)
    next
      case False
      then have "g = [?k]" using assms(1) by (simp add: good_key_def)
      then show ?thesis using False unfolding bytes_def d by (simp add: piece_def bulk_def tail_def rest_def)
    qed
    have "kstart kp + (length ?k + rest) \<le> length (cmd_buf r)"
    proof (cases "ctype r = CMD_REQ_REDIS_MSET")
      case True
      then obtain v xs where v: "g = [?k, v]" "drop (kend kp) (cmd_buf r) = CRLF @ bulk v @ xs"
        using assms(1) by (auto simp: good_key_def)
      have "rest = 2 + length (bulk v)" using True value_len_bulk [OF v(2) assms(2)] by (simp add: rest_def)
      then show ?thesis using arg_cong [OF v(2), of length] lk k by simp
    qed (use lk k in \<open>simp add: rest_def\<close>)
    then show "cut (cmd_buf r) (kstart kp) (u32 (length ?k + rest)) = Some bytes"
      using assms(2) by (simp add: cut_def bytes_def u32_id)
  qed
  have room: "n + (1 + length ?t + 2 + length bytes + length tail) \<le> length b"
    using assms(4) unfolding p by simp
  obtain b1 where b1: "emit ''$'' (b, n) = Some (b1, n + 1)" "length b1 = length b" "take (n + 1) b1 = take n b @ ''$''"
    using emit_ok [of n "''$''" b] room by auto
  obtain b2 where b2: "emit ?t (b1, n + 1) = Some (b2, n + 1 + length ?t)" "length b2 = length b"
    "take (n + 1 + length ?t) b2 = take (n + 1) b1 @ ?t"
    using emit_ok [of "n + 1" ?t b1] room b1(2) by auto
  obtain b3 where b3: "emit CRLF (b2, n + 1 + length ?t) = Some (b3, n + 3 + length ?t)" "length b3 = length b"
    "take (n + 3 + length ?t) b3 = take (n + 1 + length ?t) b2 @ CRLF"
    using emit_ok [of "n + 1 + length ?t" CRLF b2] room b2(2) by (auto simp: numeral_3_eq_3)
  obtain b4 where b4: "emit bytes (b3, n + 3 + length ?t) = Some (b4, n + 3 + length ?t + length bytes)" "length b4 = length b"
    "take (n + 3 + length ?t + length bytes) b4 = take (n + 3 + length ?t) b3 @ bytes"
    using emit_ok [of "n + 3 + length ?t" bytes b3] room b3(2) by auto
  define m where "m = n + 3 + length ?t + length bytes"
  have m: "m + length tail = n + length (piece g)" unfolding p by (simp add: m_def)
  obtain b5 where "emit tail (b4, m) = Some (b5, m + length tail)" and b5: "length b5 = length b"
    "take (n + length (piece g)) b5 = take m b4 @ tail"
    using emit_ok [of m tail b4] room b4(2) unfolding m [symmetric] by (auto simp: m_def)
  moreover have "emit [] (b4, m) = Some (b4, m)"
    using room b4(2) by (simp add: emit_def poke_def m_def)
  ultimately have e5: "(if ctype r = CMD_REQ_REDIS_MSET then Some (b4, m) else emit CRLF (b4, m)) = Some (b5, n + length (piece g))"
    unfolding m by (simp add: tail_def split: if_splits)
  have r: "(if ctype r = CMD_REQ_REDIS_MSET then remain_len (with_rest r kp) else Some 0) = Some rest"
    using f(4) by (auto simp: with_rest_def rest_def)
  have "put_key r (with_rest r kp) (num, b, n) = Some (num', b5, n + length (piece g))"
    using num b1 b2 b3 b4 [folded m_def] e5 r c f(1) unfolding put_key_def Let_def
    by (simp add: with_rest_def)
  moreover have "take (n + length (piece g)) b5 = take n b @ piece g"
    using b1(3) b2(3) b3(3) b4(3) b5(2) unfolding p m_def by simp
  ultimately show ?thesis using num(2) b5(1) by blast
qed

section \<open>Distributing the keys\<close>

abbreviation slot_of :: "cmd \<Rightarrow> keypos \<Rightarrow> nat" where
  "slot_of r kp \<equiv> keyHashSlot (key_bytes r kp)"

definition key_share :: "cmd \<Rightarrow> keypos \<Rightarrow> nat" where
  "key_share r kp = length (key_bytes r kp) + length (dec (length (key_bytes r kp))) +
     (if ctype r = CMD_REQ_REDIS_MSET then the (value_len (cmd_buf r) (kend kp)) else 0)"

text \<open>The sub-command of slot \<open>s\<close> after the keys \<open>ks\<close> were recorded in it.\<close>

definition sub_ok :: "cmd \<Rightarrow> keypos list \<Rightarrow> nat \<Rightarrow> cmd \<Rightarrow> bool" where
  "sub_ok r ks s c \<longleftrightarrow> hiarray_inv (keys c) \<and> esize (keys c) = 24 \<and>
     hiarray_list (keys c) = map (with_rest r) ks \<and> narg c = length ks \<and>
     clen c = sum_list (map (key_share r) ks) \<and> (ks \<noteq> [] \<longrightarrow> slot_num c = int s)"

definition subs_ok :: "cmd \<Rightarrow> keypos list \<Rightarrow> (nat \<rightharpoonup> cmd) \<Rightarrow> bool" where
  "subs_ok r kps m \<longleftrightarrow> (\<forall>s. let ks = filter (\<lambda>kp. slot_of r kp = s) kps in
     if ks = [] then m s = None else \<exists>c. m s = Some c \<and> sub_ok r ks s c)"

lemma key_bytes_frag [simp]: "key_bytes (r\<lparr>frag_seq := q\<rparr>) = key_bytes r"
  by (simp add: key_bytes_def fun_eq_iff)

lemma sub_ok_new:
  assumes "command_get mal n = (Some c, n')"
  shows "sub_ok r [] s c"
  using assms command_get_fresh [OF assms]
  by (auto simp: sub_ok_def fresh_cmd_def nkeys_def command_get_def split: option.splits if_splits)

lemma command_get_ok: "\<forall>n. mal n \<Longrightarrow> \<exists>c n'. command_get mal n = (Some c, n')"
  by (simp add: command_get_def hiarray_create_def)

lemma key_array_room:
  assumes "hiarray_inv a" "esize a = 24" "length (hiarray_list a) < 2147483648"
  shows "hiarray_room a"
  using assms length_hiarray_list [OF assms(1)] by (auto simp: hiarray_room_def hiarray_inv_def)

text \<open>The state the loop goes to after the key \<open>kp\<close>.\<close>

lemma frag_key_ok:
  assumes m: "\<forall>n. mal n" and g: "good_key r kp g" "length (cmd_buf r) < 2147483648"
    and f: "f_cmd st = r\<lparr>frag_seq := Some q\<rparr>"
    and s: "subs_ok r kps (f_subs st)" "length kps < 2147483647"
    and tot: "sum_list (map (key_share r) (kps @ [kp])) < 4294967296"
  shows "\<exists>st'. frag_key mal kp st = Ret True st' \<and> f_cmd st' = r\<lparr>frag_seq := Some (q @ [slot_of r kp])\<rparr> \<and>
    subs_ok r (kps @ [kp]) (f_subs st') \<and> f_slot st' = int (slot_of r kp) \<and> f_list st' = f_list st \<and> f_cc st' = f_cc st"
proof -
  let ?s = "slot_of r kp"
  let ?ks = "filter (\<lambda>x. slot_of r x = ?s) kps"
  note gf = good_key_facts [OF g]
  obtain c n where c: "(case f_subs st ?s of Some c \<Rightarrow> (Some c, f_id st) | None \<Rightarrow> command_get mal (f_id st)) = (Some c, n)"
    and ok: "sub_ok r ?ks ?s c"
  proof (cases "?ks = []")
    case True
    then have "f_subs st ?s = None" using s(1) by (simp add: subs_ok_def Let_def)
    moreover obtain c n where "command_get mal (f_id st) = (Some c, n)" using command_get_ok [OF m] by blast
    ultimately show thesis using sub_ok_new that True by (metis option.simps(4))
  next
    case False
    then obtain c where "f_subs st ?s = Some c" "sub_ok r ?ks ?s c"
      using s(1) unfolding subs_ok_def Let_def by meson
    then show thesis using that by simp
  qed
  have lks: "length ?ks < 2147483647"
    using s(2) length_filter_le [of "\<lambda>x. slot_of r x = ?s" kps] by linarith
  have inv: "hiarray_inv (keys c)" "esize (keys c) = 24" "hiarray_list (keys c) = map (with_rest r) ?ks"
    "narg c = length ?ks" "clen c = sum_list (map (key_share r) ?ks)"
    using ok by (simp_all add: sub_ok_def)
  have room: "hiarray_room (keys c)"
    using key_array_room [OF inv(1,2)] inv(3) lks by simp
  have ne: "push_store mal (keys c) (with_rest r kp) \<noteq> None"
    using m by (simp add: push_store_def hiarray_push_def Let_def)
  then obtain ks' where ks': "push_store mal (keys c) (with_rest r kp) = Some (Some ks')" "hiarray_inv ks'"
    "hiarray_list ks' = hiarray_list (keys c) @ [with_rest r kp]"
    using ha.add_cases [OF inv(1) room, of mal "with_rest r kp"] by metis
  then obtain a p where p: "hiarray_push mal (keys c) = Some (a, p)" "hiarray_store a p (with_rest r kp) = Some ks'"
    by (auto simp: push_store_def split: option.splits)
  have e: "esize ks' = 24" using push_store_esize [OF ks'(1)] inv(2) by simp
  have share: "sum_list (map (key_share r) ?ks) + key_share r kp < 4294967296"
  proof -
    have "sum_list (map (key_share r) ?ks) \<le> sum_list (map (key_share r) kps)"
      by (induction kps) auto
    then show ?thesis using tot by simp
  qed
  define len where "len = (if ctype r = CMD_REQ_REDIS_MSET then value_len (cmd_buf r) (kend kp) else None)"
  have rest: "key_rest (r\<lparr>frag_seq := Some q\<rparr>) kp = Some len"
    using gf(4) by (auto simp: len_def key_rest_def)
  have w: "\<lparr>kstart = kstart kp, kend = kend kp, remain_len = len\<rparr> = with_rest r kp"
    by (simp add: with_rest_def len_def)
  have ln: "(case len of None \<Rightarrow> 0 | Some n \<Rightarrow> n) = key_share r kp - (length (key_bytes r kp) + length (dec (length (key_bytes r kp))))"
    using gf(4) by (auto simp: len_def key_share_def)
  have ge: "length (key_bytes r kp) + length (dec (length (key_bytes r kp))) \<le> key_share r kp"
    by (simp add: key_share_def)
  let ?c = "c\<lparr>narg := Suc (length ?ks), keys := ks', clen := sum_list (map (key_share r) ?ks) + key_share r kp, slot_num := int ?s\<rparr>"
  let ?st = "st\<lparr>f_slot := int ?s, f_id := n, f_cmd := r\<lparr>frag_seq := Some (q @ [?s])\<rparr>, f_subs := (f_subs st)(?s \<mapsto> ?c)\<rparr>"
  have u: "u32 (Suc (narg c)) = Suc (length ?ks)" using inv(4) lks by (simp add: u32_id)
  have v: "u32 (clen c + u32 (kend kp - kstart kp) + uint_len (u32 (kend kp - kstart kp)) + (case len of None \<Rightarrow> 0 | Some n \<Rightarrow> n))
      = sum_list (map (key_share r) ?ks) + key_share r kp"
    unfolding gf(1) uint_len_dec ln using inv(5) ge share by (simp add: u32_id)
  have "\<not> 16384 \<le> ?s" using keyHashSlot_less [of "key_bytes r kp"] by simp
  then have "frag_key mal kp st = Ret True ?st"
    unfolding frag_key_def Let_def f key_bytes_frag
    by (simp add: c p u v rest w cong: option.case_cong)
  moreover have "sub_ok r (?ks @ [kp]) ?s ?c"
    using ks' e inv by (simp add: sub_ok_def)
  then have "subs_ok r (kps @ [kp]) ((f_subs st)(?s \<mapsto> ?c))"
    using s(1) by (auto simp: subs_ok_def Let_def)
  ultimately show ?thesis by (intro exI [of _ ?st]) simp
qed

lemma frag_keys_ok:
  assumes m: "\<forall>n. mal n" and b: "length (cmd_buf r) < 2147483648" "hiarray_inv (keys r)"
    "length (hiarray_list (keys r)) < 2147483648"
    and g: "\<forall>kp \<in> set (hiarray_list (keys r)). \<exists>g. good_key r kp g"
    and tot: "sum_list (map (key_share r) (hiarray_list (keys r))) < 4294967296"
  shows "f_cmd st = r\<lparr>frag_seq := Some (map (slot_of r) (take i (hiarray_list (keys r))))\<rparr> \<Longrightarrow>
    subs_ok r (take i (hiarray_list (keys r))) (f_subs st) \<Longrightarrow> i \<le> length (hiarray_list (keys r)) \<Longrightarrow>
    (0 < i \<Longrightarrow> f_slot st = int (slot_of r (hiarray_list (keys r) ! (i - 1)))) \<Longrightarrow>
    \<exists>st'. frag_keys mal [i..<length (hiarray_list (keys r))] st = Ret True st' \<and>
      f_cmd st' = r\<lparr>frag_seq := Some (map (slot_of r) (hiarray_list (keys r)))\<rparr> \<and>
      subs_ok r (hiarray_list (keys r)) (f_subs st') \<and> f_list st' = f_list st \<and> f_cc st' = f_cc st \<and>
      (hiarray_list (keys r) \<noteq> [] \<longrightarrow> f_slot st' = int (slot_of r (last (hiarray_list (keys r)))))"
proof (induction "length (hiarray_list (keys r)) - i" arbitrary: i st)
  case 0
  then show ?case by (auto simp: last_conv_nth)
next
  case (Suc k)
  let ?l = "hiarray_list (keys r)"
  have i: "i < length ?l" using Suc(2) by simp
  then have up: "[i..<length ?l] = i # [Suc i..<length ?l]" by (simp add: upt_conv_Cons)
  have t: "take (Suc i) ?l = take i ?l @ [?l ! i]" using i by (simp add: take_Suc_conv_app_nth)
  have d: "hiarray_deref (keys r) (hiarray_get (keys r) i) = Some (?l ! i)"
    using ha.read_contents [OF b(2) i] .
  obtain gr where gr: "good_key r (?l ! i) gr" using g i by (meson nth_mem)
  have "sum_list (map (key_share r) (take (Suc i) ?l)) \<le> sum_list (map (key_share r) ?l)"
    by (metis append_take_drop_id le_add1 map_append sum_list_append)
  then have tt: "sum_list (map (key_share r) (take i ?l @ [?l ! i])) < 4294967296"
    unfolding t using tot by simp
  have len: "length (take i ?l) < 2147483647" using i b(3) by simp
  from frag_key_ok [OF m gr b(1) Suc.prems(1,2) len tt] obtain st' where
    st': "frag_key mal (?l ! i) st = Ret True st'" "f_cmd st' = r\<lparr>frag_seq := Some (map (slot_of r) (take (Suc i) ?l))\<rparr>"
      "subs_ok r (take (Suc i) ?l) (f_subs st')" "f_slot st' = int (slot_of r (?l ! i))" "f_list st' = f_list st" "f_cc st' = f_cc st"
    unfolding t by auto
  have k: "k = length ?l - Suc i" using Suc(2) by simp
  have i': "Suc i \<le> length ?l" using i by simp
  have sl: "f_slot st' = int (slot_of r (?l ! (Suc i - 1)))" using st'(4) by simp
  from Suc.hyps(1) [OF k st'(2,3) i' sl] st' d show ?case
    unfolding up by (simp add: Suc.prems(1))
qed

section \<open>Building the requests\<close>

lemma put_keys_ok:
  assumes a: "hiarray_inv a" "hiarray_list a = map (with_rest r) kps" and g: "list_all2 (good_key r) kps gs"
    and k: "\<forall>kp \<in> set kps. key_bytes r kp \<noteq> []" and b: "length (cmd_buf r) < 2147483648"
  shows "i \<le> length kps \<Longrightarrow> length num = 12 \<Longrightarrow> n + length (concat (map piece (drop i gs))) \<le> length buf \<Longrightarrow>
    \<exists>num' buf'. put_keys r a [i..<length kps] (num, buf, n) = Some (num', buf', n + length (concat (map piece (drop i gs)))) \<and>
      length num' = 12 \<and> length buf' = length buf \<and>
      take (n + length (concat (map piece (drop i gs)))) buf' = take n buf @ concat (map piece (drop i gs))"
proof (induction "length kps - i" arbitrary: i num n buf)
  case 0
  then show ?case using list_all2_lengthD [OF g] by simp
next
  case (Suc d)
  have i: "i < length kps" "i < length gs" using Suc(2) list_all2_lengthD [OF g] by simp_all
  then have dr: "drop i gs = gs ! i # drop (Suc i) gs" by (simp add: Cons_nth_drop_Suc)
  have up: "[i..<length kps] = i # [Suc i..<length kps]" using i by (simp add: upt_conv_Cons)
  have "hiarray_deref a (hiarray_get a i) = Some (hiarray_list a ! i)"
    using ha.read_contents [OF a(1)] a(2) i by simp
  then have rd: "hiarray_deref a (hiarray_get a i) = Some (with_rest r (kps ! i))" using a(2) i by simp
  have gi: "good_key r (kps ! i) (gs ! i)" "key_bytes r (kps ! i) \<noteq> []"
    using list_all2_nthD [OF g i(1)] k i by simp_all
  obtain num1 b1 where p1: "put_key r (with_rest r (kps ! i)) (num, buf, n) = Some (num1, b1, n + length (piece (gs ! i)))"
    "length num1 = 12" "length b1 = length buf" "take (n + length (piece (gs ! i))) b1 = take n buf @ piece (gs ! i)"
    using put_key_ok [OF gi(1) b Suc.prems(2) _ gi(2), of n buf] Suc.prems(3) unfolding dr by auto
  have h: "d = length kps - Suc i" "Suc i \<le> length kps"
    "n + length (piece (gs ! i)) + length (concat (map piece (drop (Suc i) gs))) \<le> length b1"
    using Suc(2) i Suc.prems(3) p1(3) unfolding dr by simp_all
  from Suc.hyps(1) [OF h(1,2) p1(2) h(3)] p1 rd show ?case
    unfolding up dr by (auto simp: add.assoc)
qed

definition frag_name :: "cmd_type \<Rightarrow> string" where
  "frag_name ty = (if ty = CMD_REQ_REDIS_MGET then ''mget'' else if ty = CMD_REQ_REDIS_DEL then ''del'' else ''mset'')"

definition vector_type :: "cmd_type \<Rightarrow> bool" where
  "vector_type ty \<longleftrightarrow> ty \<in> {CMD_REQ_REDIS_MGET, CMD_REQ_REDIS_DEL, CMD_REQ_REDIS_MSET}"

lemma frag_shape_name:
  assumes "vector_type ty"
  shows "\<exists>h. frag_shape ty = Some (if ty = CMD_REQ_REDIS_MSET then 3 else 5, Suc (length h), h) \<and>
    (\<forall>args. multibulk (frag_name ty # args) = CHR ''*'' # dec (Suc (length args)) @ h @ concat (map bulk args))"
proof -
  have d: "dec 4 = ''4''" "dec 3 = ''3''" by (simp_all add: dec.simps ascii)
  show ?thesis
    using assms d
    by (auto simp: vector_type_def frag_shape_def frag_name_def multibulk_def bulk_def
        simp flip: numeral_3_eq_3)
qed

lemma concat_piece: "concat (map piece gs) = concat (map bulk (concat gs))"
  by (induction gs) (simp_all add: piece_def)

lemma good_key_share:
  assumes "good_key r kp g" "length (cmd_buf r) < 2147483648"
  shows "key_share r kp + (if ctype r = CMD_REQ_REDIS_MSET then 3 else 5) = length (piece g)"
    "length g = (if ctype r = CMD_REQ_REDIS_MSET then 2 else 1)"
  using good_key_facts(4) [OF assms] assms(1)
  by (auto simp: key_share_def length_bulk good_key_def piece_def split: if_splits)

lemma shares_pieces:
  assumes "list_all2 (good_key r) ks gs" "length (cmd_buf r) < 2147483648"
  shows "sum_list (map (key_share r) ks) + (if ctype r = CMD_REQ_REDIS_MSET then 3 else 5) * length ks =
      length (concat (map piece gs))"
    "length (concat gs) = (if ctype r = CMD_REQ_REDIS_MSET then 2 else 1) * length ks"
  using assms(1)
proof (induction rule: list_all2_induct)
  case (Cons x xs y ys)
  note g = good_key_share [OF Cons(1) assms(2)]
  { case 1 then show ?case using Cons g by (auto simp: algebra_simps) }
  { case 2 then show ?case using Cons g by auto }
qed simp_all

lemma build_sub_ok:
  assumes m: "\<forall>n. mal n" and c: "sub_ok r ks s c" "ks \<noteq> []" and g: "list_all2 (good_key r) ks gs"
    and k: "\<forall>kp \<in> set ks. key_bytes r kp \<noteq> []" and b: "length (cmd_buf r) < 2147483648"
    and tot: "length (concat (map piece gs)) < 2147483647" and ty: "vector_type (ctype r)" and num: "length num = 12"
  shows "\<exists>c' num'. build_sub mal r num c = Ret True (c', num') \<and> length num' = 12 \<and>
    cmd_buf c' = multibulk (frag_name (ctype r) # concat gs) \<and> clen c' = length (cmd_buf c') \<and>
    slot_num c' = int s \<and> ctype c' = ctype r"
proof -
  obtain h where h: "frag_shape (ctype r) = Some (if ctype r = CMD_REQ_REDIS_MSET then 3 else 5, Suc (length h), h)"
    "multibulk (frag_name (ctype r) # concat gs) = CHR ''*'' # dec (Suc (length (concat gs))) @ h @ concat (map bulk (concat gs))"
    "length h < 20"
    using frag_shape_name [OF ty] by (auto simp: frag_shape_def split: if_splits)
  let ?n = "Suc (length (concat gs))" and ?p = "concat (map piece gs)"
  let ?t = "dec (Suc (length (concat gs)))"
  note sh = shares_pieces [OF g b]
  have ci: "hiarray_inv (keys c)" "hiarray_list (keys c) = map (with_rest r) ks" "narg c = length ks"
    "clen c = sum_list (map (key_share r) ks)" "slot_num c = int s"
    using c by (simp_all add: sub_ok_def)
  have nk: "hiarray_n (keys c) = length ks"
    using length_hiarray_list [OF ci(1)] ci(2) by (simp add: hiarray_n_def)
  have "length (concat gs) \<le> length ?p" unfolding concat_piece by (rule count_le_bulks)
  then have n: "?n < 2147483648" using tot by simp
  then have nn: "(if ctype r = CMD_REQ_REDIS_MSET then u32 (u32 (narg c * 2) + 1) else u32 (narg c + 1)) = ?n"
    using sh(2) ci(3) by (auto simp: u32_id mult.commute)
  obtain num1 where num1: "num_text num ?n = Some (?t, num1)" "length num1 = 12"
    using num_text_dec [OF _ n num] by auto
  have lt: "length ?t \<le> 10" using length_dec_bound [of ?n 10] n by simp
  define L where "L = Suc (length ?t) + length h + length ?p"
  have cl: "u32 (u32 (clen c + (if ctype r = CMD_REQ_REDIS_MSET then 3 else 5) * narg c) + Suc (length h) + length ?t) = L"
  proof -
    have "clen c + (if ctype r = CMD_REQ_REDIS_MSET then 3 else 5) * narg c = length ?p"
      using sh(1) ci(3,4) by simp
    then show ?thesis using tot h(3) lt by (simp add: u32_id L_def)
  qed
  let ?b0 = "replicate L NUL"
  obtain b1 where b1: "emit ''*'' (?b0, 0) = Some (b1, 1)" "length b1 = L" "take 1 b1 = ''*''"
    using emit_ok [of 0 "''*''" ?b0] by (auto simp: L_def)
  obtain b2 where b2: "emit ?t (b1, 1) = Some (b2, 1 + length ?t)" "length b2 = L" "take (1 + length ?t) b2 = ''*'' @ ?t"
    using emit_ok [of 1 ?t b1] b1 by (auto simp: L_def)
  obtain b3 where b3: "emit h (b2, 1 + length ?t) = Some (b3, 1 + length ?t + length h)" "length b3 = L"
    "take (1 + length ?t + length h) b3 = ''*'' @ ?t @ h"
    using emit_ok [of "1 + length ?t" h b2] b2 by (auto simp: L_def)
  obtain num2 b4 where b4: "put_keys r (keys c) [0..<length ks] (num1, b3, 1 + length ?t + length h) = Some (num2, b4, L)"
    "length num2 = 12" "length b4 = L" "take L b4 = ''*'' @ ?t @ h @ ?p"
    using put_keys_ok [OF ci(1,2) g k b, of 0 num1 "1 + length ?t + length h" b3] num1(2) b3 by (auto simp: L_def)
  have "b4 = multibulk (frag_name (ctype r) # concat gs)"
    using b4(3,4) unfolding h(2) concat_piece by simp
  moreover have "length b4 = L" by (rule b4(3))
  moreover have "build_sub mal r num c = Ret True (c\<lparr>narg := ?n, clen := L, cmd_buf := b4, ctype := ctype r\<rparr>, num2)"
    unfolding build_sub_def Let_def
    using h(1) num1(1) b1(1) b2(1) b3(1) b4(1) m nk cl
    by (simp add: nn)
  ultimately show ?thesis using b4(2) ci(5) by simp
qed

lemma frag_seq_frame [simp]:
  "good_key (r\<lparr>frag_seq := q\<rparr>) = good_key r" "sub_ok (r\<lparr>frag_seq := q\<rparr>) = sub_ok r"
  "with_rest (r\<lparr>frag_seq := q\<rparr>) = with_rest r" "key_share (r\<lparr>frag_seq := q\<rparr>) = key_share r"
proof -
  show 1: "with_rest (r\<lparr>frag_seq := q\<rparr>) = with_rest r" "key_share (r\<lparr>frag_seq := q\<rparr>) = key_share r"
    by (simp_all add: with_rest_def key_share_def fun_eq_iff)
  show "good_key (r\<lparr>frag_seq := q\<rparr>) = good_key r" "sub_ok (r\<lparr>frag_seq := q\<rparr>) = sub_ok r"
    by (simp_all add: good_key_def sub_ok_def fun_eq_iff 1)
qed

text \<open>The arguments that belong to a slot, and the finished sub-command for it.\<close>

definition slot_groups :: "string list list \<Rightarrow> nat \<Rightarrow> string list list" where
  "slot_groups gs s = filter (\<lambda>g. keyHashSlot (hd g) = s) gs"

definition built :: "cmd_type \<Rightarrow> string list list \<Rightarrow> nat \<Rightarrow> cmd \<Rightarrow> bool" where
  "built ty gs s c \<longleftrightarrow> cmd_buf c = multibulk (frag_name ty # concat (slot_groups gs s)) \<and>
     clen c = length (cmd_buf c) \<and> slot_num c = int s \<and> ctype c = ty"

lemma good_keys_slot:
  assumes "list_all2 (good_key r) kps gs" "length (cmd_buf r) < 2147483648"
  shows "list_all2 (good_key r) (filter (\<lambda>kp. slot_of r kp = s) kps) (slot_groups gs s)"
    and "map (slot_of r) kps = map (\<lambda>g. keyHashSlot (hd g)) gs"
  using assms(1)
proof (induction rule: list_all2_induct)
  case (Cons x xs y ys)
  note f = good_key_facts(2) [OF Cons(1) assms(2)]
  { case 1 then show ?case using Cons f by (auto simp: slot_groups_def) }
  { case 2 then show ?case using Cons f by auto }
qed (simp_all add: slot_groups_def)

lemma length_slot_pieces:
  "length (concat (map piece (slot_groups gs s))) \<le> length (concat (map piece gs))"
  by (induction gs) (auto simp: slot_groups_def)

lemma build_subs_ok:
  assumes m: "\<forall>n. mal n" and g: "list_all2 (good_key r) kps gs"
    and k: "\<forall>kp \<in> set kps. key_bytes r kp \<noteq> []" and b: "length (cmd_buf r) < 2147483648"
    and tot: "length (concat (map piece gs)) < 2147483647" and ty: "vector_type (ctype r)"
  shows "\<lbrakk>distinct js; \<forall>s \<in> set js. let ks = filter (\<lambda>kp. slot_of r kp = s) kps in
      if ks = [] then f_subs st s = None else \<exists>c. f_subs st s = Some c \<and> sub_ok r ks s c;
    f_cmd st = r\<lparr>frag_seq := q\<rparr>; length num = 12\<rbrakk> \<Longrightarrow>
    \<exists>st'. build_subs mal js num st = Ret True st' \<and> f_cmd st' = f_cmd st \<and> f_slot st' = f_slot st \<and> f_cc st' = f_cc st \<and>
      f_list st' = f_list st @ filter (\<lambda>s. s \<in> slot_of r ` set kps) js \<and>
      (\<forall>s. s \<notin> set js \<longrightarrow> f_subs st' s = f_subs st s) \<and>
      (\<forall>s \<in> set js \<inter> slot_of r ` set kps. \<exists>c. f_subs st' s = Some c \<and> built (ctype r) gs s c)"
proof (induction js arbitrary: st num)
  case (Cons j js)
  let ?ks = "filter (\<lambda>kp. slot_of r kp = j) kps"
  have j: "j \<notin> set js" "distinct js" using Cons.prems(1) by simp_all
  show ?case
  proof (cases "?ks = []")
    case True
    then have un: "f_subs st j = None" "j \<notin> slot_of r ` set kps"
      using Cons.prems(2) by (auto simp: filter_empty_conv Let_def)
    have p: "\<forall>s \<in> set js. let ks = filter (\<lambda>kp. slot_of r kp = s) kps in
        if ks = [] then f_subs st s = None else \<exists>c. f_subs st s = Some c \<and> sub_ok r ks s c"
      using Cons.prems(2) by simp
    from Cons.IH [OF j(2) p Cons.prems(3,4)] un show ?thesis by auto
  next
    case False
    then obtain c where c: "f_subs st j = Some c" "sub_ok r ?ks j c"
      using Cons.prems(2) unfolding Let_def by auto
    have ne: "j \<in> slot_of r ` set kps" using False by (auto simp: filter_empty_conv)
    have kk: "\<forall>kp \<in> set ?ks. key_bytes r kp \<noteq> []" using k by simp
    have tt: "length (concat (map piece (slot_groups gs j))) < 2147483647"
      using length_slot_pieces [of gs j] tot by (rule le_less_trans)
    have "\<exists>c' num'. build_sub mal (r\<lparr>frag_seq := q\<rparr>) num c = Ret True (c', num') \<and> length num' = 12 \<and>
        cmd_buf c' = multibulk (frag_name (ctype r) # concat (slot_groups gs j)) \<and> clen c' = length (cmd_buf c') \<and>
        slot_num c' = int j \<and> ctype c' = ctype r"
      using build_sub_ok [OF m, of "r\<lparr>frag_seq := q\<rparr>" ?ks j c "slot_groups gs j" num]
        c(2) False good_keys_slot(1) [OF g b, of j] kk b tt ty Cons.prems(4) by simp
    then obtain c' num' where c': "build_sub mal (f_cmd st) num c = Ret True (c', num')" "length num' = 12"
        "built (ctype r) gs j c'"
      unfolding Cons.prems(3) built_def by blast
    let ?st = "st\<lparr>f_subs := (f_subs st)(j \<mapsto> c'), f_list := f_list st @ [j]\<rparr>"
    have p: "\<forall>s \<in> set js. let ks = filter (\<lambda>kp. slot_of r kp = s) kps in
        if ks = [] then f_subs ?st s = None else \<exists>c. f_subs ?st s = Some c \<and> sub_ok r ks s c"
      using Cons.prems(2) j(1) by (auto simp: Let_def)
    have f: "f_cmd ?st = r\<lparr>frag_seq := q\<rparr>" using Cons.prems(3) by simp
    obtain st' where st': "build_subs mal js num' ?st = Ret True st'" "f_cmd st' = f_cmd st" "f_slot st' = f_slot st"
      "f_cc st' = f_cc st" "f_list st' = f_list st @ j # filter (\<lambda>s. s \<in> slot_of r ` set kps) js"
      "\<forall>s. s \<notin> set js \<longrightarrow> f_subs st' s = ((f_subs st)(j \<mapsto> c')) s"
      "\<forall>s \<in> set js \<inter> slot_of r ` set kps. \<exists>c. f_subs st' s = Some c \<and> built (ctype r) gs s c"
      using Cons.IH [OF j(2) p f c'(2)] by auto
    have "build_subs mal (j # js) num st = Ret True st'"
      using c(1) c'(1) m st'(1) by simp
    moreover have "\<forall>s \<in> set (j # js) \<inter> slot_of r ` set kps. \<exists>c. f_subs st' s = Some c \<and> built (ctype r) gs s c"
      using st'(6,7) j(1) c'(3) by auto
    ultimately show ?thesis using st' ne by (intro exI [of _ st']) auto
  qed
qed simp

section \<open>The parsed request\<close>

lemma step_Done_same: "step mal r ch st = Done r' \<Longrightarrow> r' = r"
  by (cases "sw st"; auto simp: step.simps step_defs Let_def split: if_splits option.splits)

lemma step_slot_num:
  "out_cmd (step mal r ch st) = Some r' \<Longrightarrow> slot_num r' = slot_num r"
  by (cases "sw st"; auto simp: step.simps step_defs Let_def out_cmd_def set_type_def split: if_splits option.splits outcome.splits)

lemma parse_loop_slot_num:
  assumes "parse_loop mal r st = Some out"
  shows "\<forall>r'. out_cmd out = Some r' \<longrightarrow> slot_num r' = slot_num r"
  using _ assms
proof (rule parse_loop.raw_induct [where P = "\<lambda>mal r st out. \<forall>r'. out_cmd out = Some r' \<longrightarrow> slot_num r' = slot_num r"])
  fix loop :: "(nat \<Rightarrow> bool) \<Rightarrow> cmd \<Rightarrow> pst \<Rightarrow> outcome option" and mal r st out
  assume ih: "\<And>mal r st out. loop mal r st = Some out \<Longrightarrow> \<forall>r'. out_cmd out = Some r' \<longrightarrow> slot_num r' = slot_num r"
    and l: "(if ppos st < clen r
      then case rd r (ppos st) of None \<Rightarrow> Some outcome.Fault
           | Some ch \<Rightarrow>
               case step mal r ch st of
               Cont st' r' \<Rightarrow> loop mal r' (st'\<lparr>ppos := ppos st' + 1\<rparr>)
               | Done r' \<Rightarrow> Some (Done r') | Enomem r' \<Rightarrow> Some (Enomem r')
               | Error st' r' \<Rightarrow> Some (Error st' r')
               | outcome.Fault \<Rightarrow> Some outcome.Fault
      else Some (Cont st r)) = Some out"
  show "\<forall>r'. out_cmd out = Some r' \<longrightarrow> slot_num r' = slot_num r"
  proof (cases "rd r (ppos st)")
    case None
    then show ?thesis using l by (auto simp: out_cmd_def split: if_splits)
  next
    case (Some ch)
    note s = step_slot_num [of mal r ch st]
    show ?thesis
    proof (cases "step mal r ch st")
      case (Cont st1 r1)
      then show ?thesis
        using l Some s [of r1] ih [of mal r1 "st1\<lparr>ppos := ppos st1 + 1\<rparr>" out]
        by (auto simp: out_cmd_def split: if_splits)
    qed (use l Some s in \<open>auto simp: out_cmd_def split: if_splits outcome.splits\<close>)
  qed
qed

lemma parse_cmd_slot_num:
  assumes "redis_parse_cmd mal r = Some r'"
  shows "slot_num r' = slot_num r"
  using assms parse_loop_slot_num [of mal r start_pst]
  by (auto simp: redis_parse_cmd_def out_cmd_def split: option.splits outcome.splits if_splits)

definition arg_groups :: "cmd_type \<Rightarrow> string list list \<Rightarrow> bool" where
  "arg_groups ty gs \<longleftrightarrow> (\<forall>g \<in> set gs. length g = (if ty = CMD_REQ_REDIS_MSET then 2 else 1))"

lemma evens_pairs: "\<forall>g \<in> set gs. length g = 2 \<Longrightarrow> evens (concat gs) = map hd gs"
proof (induction gs)
  case (Cons g gs)
  then obtain a b where "g = [a, b]" by (auto simp: length_Suc_conv numeral_2_eq_2)
  with Cons show ?case by simp
qed simp

lemma kv_tails_pairs:
  "\<forall>g \<in> set gs. length g = 2 \<Longrightarrow> list_all2 (\<lambda>t g. \<exists>xs. t = CRLF @ bulk (g ! 1) @ xs) (kv_tails (concat gs)) gs"
proof (induction gs)
  case (Cons g gs)
  then obtain a b where "g = [a, b]" by (auto simp: length_Suc_conv numeral_2_eq_2)
  with Cons show ?case by auto
qed simp

lemma key_texts_bytes: "key_texts r = map (key_bytes r) (hiarray_list (keys r))"
  by (simp add: key_texts_def key_bytes_def)

lemma parsed_request:
  assumes r: "fresh_cmd r" "\<forall>n. mal n" "length (multibulk (name # concat gs)) < 2147483648"
    and ty: "vector_type (command_type name)" "arg_groups (command_type name) gs" "2 \<le> length gs"
  obtains r' where "redis_parse_cmd mal (request r (multibulk (name # concat gs))) = Some r'"
    "result r' = CMD_PARSE_OK" "ctype r' = command_type name" "cmd_buf r' = multibulk (name # concat gs)"
    "clen r' = length (cmd_buf r')" "slot_num r' = slot_num r" "hiarray_inv (keys r')"
    "list_all2 (good_key r') (hiarray_list (keys r')) gs"
proof -
  let ?text = "multibulk (name # concat gs)"
  obtain r' where p: "redis_parse_cmd mal (request r ?text) = Some r'" "ctype r' = command_type name"
    "result r' = CMD_PARSE_OK" "map (key_bytes r') (hiarray_list (keys r')) = map hd gs"
    "ctype r' = CMD_REQ_REDIS_MSET \<Longrightarrow> key_tails r' = kv_tails (concat gs)"
  proof (cases "command_type name = CMD_REQ_REDIS_MSET")
    case True
    then have g: "\<forall>g \<in> set gs. length g = 2" using ty(2) by (simp add: arg_groups_def)
    have ll: "length (concat gs) = 2 * length gs" using g by (induction gs) auto
    then have "0 < length (concat gs)" using ty(3) by linarith
    then have "concat gs \<noteq> []" by (rule length_greater_0_conv [THEN iffD1])
    moreover have "even (length (concat gs))" unfolding ll by simp
    ultimately have "concat gs \<noteq> []" "even (length (concat gs))" .
    from parse_mset [OF r True this] show thesis
      using that True evens_pairs [OF g] by (auto simp: key_texts_bytes)
  next
    case False
    then have g: "\<forall>g \<in> set gs. length g = 1" using ty(2) by (simp add: arg_groups_def)
    have h: "concat gs = map hd gs" using g by (induction gs) (auto simp: length_Suc_conv)
    have n: "command_type name \<noteq> CMD_UNKNOWN" using ty(1) by (auto simp: vector_type_def)
    have x: "redis_argx c" if "ctype c = command_type name" for c
      using that ty(1) False by (auto simp: vector_type_def redis_argx_def)
    have ne: "map hd gs \<noteq> []" using ty(3) by auto
    from parse_wellformed [OF r n] obtain r' where r': "redis_parse_cmd mal (request r ?text) = Some r'"
      "ctype r' = command_type name" "result r' = (if map hd gs = [] \<or> accepts r' (map hd gs) then CMD_PARSE_OK else CMD_PARSE_ERROR)"
      "result r' = CMD_PARSE_OK \<longrightarrow> key_texts r' = key_args r' (map hd gs)"
      unfolding h by blast
    have "accepts r' (map hd gs)" "key_args r' (map hd gs) = map hd gs"
      using x [OF r'(2)] class_disjoint(7) [OF x [OF r'(2)]] ne by (simp_all add: accepts_def key_args_def)
    with r' False show thesis
      by (intro that [of r']) (simp_all add: key_texts_bytes)
  qed
  have buf: "cmd_buf r' = ?text \<and> clen r' = length ?text \<and> hiarray_inv (keys r') \<and>
    (\<forall>k \<in> set (hiarray_list (keys r')). kstart k \<le> kend k \<and> kend k < length ?text)"
    using r(1) r(3) r(2) [rule_format, of 100]
  proof (cases rule: fresh_parse_cases)
    case (stop st r1)
    then show ?thesis using p(1) by (auto simp: parse_inv_def keys_ok_def)
  next
    case (exit st r1 r2)
    then show ?thesis using p(1,3) by simp
  next
    case (ok st ch r1 r2)
    then have "r2 = r1" using step_Done_same by blast
    then show ?thesis using ok p(1) by (auto simp: parse_inv_def keys_ok_def)
  qed
  let ?l = "hiarray_list (keys r')"
  have len: "length ?l = length gs" using arg_cong [OF p(4), of length] by simp
  have "good_key r' (?l ! i) (gs ! i)" if i: "i < length ?l" for i
  proof -
    have ki: "key_bytes r' (?l ! i) = hd (gs ! i)" using arg_cong [OF p(4), of "\<lambda>x. x ! i"] i len by simp
    have g: "length (gs ! i) = (if command_type name = CMD_REQ_REDIS_MSET then 2 else 1)"
      using ty(2) i len by (simp add: arg_groups_def)
    have kb: "kstart (?l ! i) \<le> kend (?l ! i)" "kend (?l ! i) \<le> length (cmd_buf r')"
      using buf nth_mem [OF i] by (auto dest: less_imp_le)
    show ?thesis
    proof (cases "command_type name = CMD_REQ_REDIS_MSET")
      case True
      then have "\<forall>g \<in> set gs. length g = 2" using ty(2) by (simp add: arg_groups_def)
      from list_all2_nthD2 [OF kv_tails_pairs [OF this], of i] i len p(5) p(2) True obtain xs where
        "drop (kend (?l ! i)) (cmd_buf r') = CRLF @ bulk (gs ! i ! 1) @ xs"
        by (auto simp: key_tails_def dest: arg_cong [where f = "\<lambda>x. x ! i"])
      moreover obtain a b where "gs ! i = [a, b]" using g True by (auto simp: length_Suc_conv numeral_2_eq_2)
      ultimately show ?thesis using ki kb True p(2) by (auto simp: good_key_def)
    next
      case False
      then obtain a where "gs ! i = [a]" using g by (auto simp: length_Suc_conv)
      then show ?thesis using ki kb False p(2) by (simp add: good_key_def)
    qed
  qed
  then have "list_all2 (good_key r') ?l gs" using len by (simp add: list_all2_conv_all_nth)
  moreover have "slot_num r' = slot_num r" using parse_cmd_slot_num [OF p(1)] by (simp add: request_def)
  ultimately show thesis using p buf by (intro that [of r']) auto
qed

section \<open>Splitting a request\<close>

lemma filter_used_slots: "S \<subseteq> {..<n} \<Longrightarrow> filter (\<lambda>s. s \<in> S) [0..<n] = sorted_list_of_set S"
proof -
  assume S: "S \<subseteq> {..<n}"
  have "set (filter (\<lambda>s. s \<in> S) [0..<n]) = S" using S by auto
  moreover have "sorted (filter (\<lambda>s. s \<in> S) [0..<n])" "distinct (filter (\<lambda>s. s \<in> S) [0..<n])"
    by (simp_all add: sorted_wrt_filter)
  ultimately show ?thesis by (metis sorted_list_of_set.idem_if_sorted_distinct)
qed

lemma group_bounds:
  assumes "length (multibulk (name # concat gs)) < 2147483648"
  shows "length (concat (map piece gs)) < 2147483647"
  using assms by (simp add: multibulk_def concat_piece)

lemma card_one_iff: "x \<in> S \<Longrightarrow> card S = 1 \<longleftrightarrow> (\<forall>s \<in> S. s = x)"
proof -
  assume x: "x \<in> S"
  then have "S = {y} \<longleftrightarrow> y = x \<and> (\<forall>s \<in> S. s = x)" for y by auto
  then show ?thesis by (auto simp: card_1_singleton_iff)
qed

lemma length_le_concat: "\<forall>g \<in> set gs. g \<noteq> [] \<Longrightarrow> length gs \<le> length (concat gs)"
proof (induction gs)
  case (Cons g gs)
  then show ?case by (cases g) auto
qed simp

lemma pre_fragment_ok:
  assumes m: "\<forall>n. mal n" and num: "length num = 12" and b: "length (cmd_buf r) < 2147483648" "hiarray_inv (keys r)"
    and g: "list_all2 (good_key r) (hiarray_list (keys r)) gs" "\<forall>g \<in> set gs. hd g \<noteq> []" "gs \<noteq> []" "length gs < 2147483648"
    and tot: "length (concat (map piece gs)) < 2147483647" and ty: "vector_type (ctype r)"
    and f: "f_cmd st = r" "f_list st = []"
  shows "\<exists>st'. command_pre_fragment mal num st = Ret True (frag_done st') \<and> f_cc st' = f_cc st \<and>
    f_list st' = sorted_list_of_set ((\<lambda>g. keyHashSlot (hd g)) ` set gs) \<and>
    f_cmd st' = r\<lparr>frag_seq := Some (map (\<lambda>g. keyHashSlot (hd g)) gs)\<rparr> \<and>
    f_slot st' = int (keyHashSlot (hd (last gs))) \<and>
    (\<forall>s \<in> (\<lambda>g. keyHashSlot (hd g)) ` set gs. \<exists>c. f_subs st' s = Some c \<and> built (ctype r) gs s c)"
proof -
  let ?l = "hiarray_list (keys r)" and ?h = "\<lambda>g. keyHashSlot (hd g)"
  note sl = good_keys_slot(2) [OF g(1) b(1)]
  have len: "length ?l = length gs" by (rule list_all2_lengthD [OF g(1)])
  have gk: "\<forall>kp \<in> set ?l. \<exists>g. good_key r kp g"
    using g(1) by (metis in_set_conv_nth list_all2_nthD)
  have kn: "\<forall>kp \<in> set ?l. key_bytes r kp \<noteq> []"
  proof
    fix kp assume "kp \<in> set ?l"
    then obtain i where i: "i < length ?l" "kp = ?l ! i" by (auto simp: in_set_conv_nth)
    then have "key_bytes r kp = hd (gs ! i)"
      using good_key_facts(2) [OF list_all2_nthD [OF g(1) i(1)] b(1)] by simp
    then show "key_bytes r kp \<noteq> []" using g(2) i len by simp
  qed
  have share: "sum_list (map (key_share r) ?l) < 4294967296"
    using shares_pieces(1) [OF g(1) b(1)] tot by linarith
  let ?st = "st\<lparr>f_slot := - 1, f_subs := Map.empty, f_cmd := r\<lparr>frag_seq := Some []\<rparr>\<rparr>"
  have b3: "length ?l < 2147483648" using len g(4) by simp
  have l0: "?l \<noteq> []" using len g(3) by auto
  obtain st1 where st1: "frag_keys mal [0..<length ?l] ?st = Ret True st1"
    "f_cmd st1 = r\<lparr>frag_seq := Some (map ?h gs)\<rparr>" "subs_ok r ?l (f_subs st1)" "f_list st1 = []" "f_cc st1 = f_cc st"
    "f_slot st1 = int (slot_of r (last ?l))"
    using frag_keys_ok [OF m b b3 gk share, of ?st 0] f(2) l0 unfolding sl by (auto simp: subs_ok_def)
  have so: "\<forall>s \<in> set [0..<16384]. let ks = filter (\<lambda>kp. slot_of r kp = s) ?l in
      if ks = [] then f_subs st1 s = None else \<exists>c. f_subs st1 s = Some c \<and> sub_ok r ks s c"
    using st1(3) unfolding subs_ok_def by blast
  have im: "slot_of r ` set ?l = ?h ` set gs" using arg_cong [OF sl, of set] by simp
  have la: "slot_of r (last ?l) = ?h (last gs)" using arg_cong [OF sl, of last] l0 g(3) by (simp add: last_map)
  have sub: "?h ` set gs \<subseteq> {..<16384}" using keyHashSlot_less by auto
  have dis: "distinct [0..<16384]" by simp
  obtain st2 where st2: "build_subs mal [0..<16384] num st1 = Ret True st2" "f_cmd st2 = f_cmd st1" "f_slot st2 = f_slot st1"
    "f_cc st2 = f_cc st1" "f_list st2 = filter (\<lambda>s. s \<in> ?h ` set gs) [0..<16384]"
    "\<forall>s \<in> set [0..<16384] \<inter> ?h ` set gs. \<exists>c. f_subs st2 s = Some c \<and> built (ctype r) gs s c"
    using build_subs_ok [OF m g(1) kn b(1) tot ty dis so st1(2) num] st1(4) unfolding im by auto
  have n: "hiarray_n (keys r) = length ?l"
    using length_hiarray_list [OF b(2)] by (simp add: hiarray_n_def)
  have "command_pre_fragment mal num st = Ret True (frag_done st2)"
    using m f(1) n st1(1) st2(1) by (simp add: command_pre_fragment_def Let_def)
  moreover have "\<forall>s \<in> ?h ` set gs. \<exists>c. f_subs st2 s = Some c \<and> built (ctype r) gs s c"
    using st2(6) sub by auto
  ultimately show ?thesis
    using st1 st2 la filter_used_slots [OF sub] by (intro exI [of _ st2]) simp
qed


lemma slot_examples:
  "keyHashSlot ''a'' = 15495" "keyHashSlot ''b'' = 3300" "keyHashSlot ''c'' = 7365"
proof -
  have w: "unat (15495 :: 16 word) = 15495" "unat (3300 :: 16 word) = 3300" "unat (7365 :: 16 word) = 7365" by simp_all
  have s: "scan (CHR ''{'') ''a'' 0 = 1" "scan (CHR ''{'') ''b'' 0 = 1" "scan (CHR ''{'') ''c'' 0 = 1" by code_simp+
  have c: "crc16 ''a'' 1 AND 0x3FFF = 15495" "crc16 ''b'' 1 AND 0x3FFF = 3300" "crc16 ''c'' 1 AND 0x3FFF = 7365" by code_simp+
  have l: "length ''a'' = 1" "length ''b'' = 1" "length ''c'' = 1" by simp_all
  show "keyHashSlot ''a'' = 15495" "keyHashSlot ''b'' = 3300" "keyHashSlot ''c'' = 7365"
    unfolding keyHashSlot_def Let_def l s c w by (simp_all only: if_True refl)
qed


end
