(* ===== verification/ClusterReply.thy ===== *)
theory ClusterReply
  imports ClusterFragment
begin

text \<open>
  Model of the reply side of \<^verbatim>\<open>hircluster.c\<close>: the classification of error replies, and
  \<^verbatim>\<open>command_post_fragment\<close>, which makes one reply of the replies to the sub-commands, on the
  store of reply objects.  A sub-command is named by its slot, as in the splitting code; its
  reply field is the address of its reply object.  \<^term>\<open>None\<close> is an invalid access or a failed
  assertion.  The laws at the end say what the caller gets, also after the sub-commands with
  their replies have been released.
\<close>

section \<open>Error replies\<close>

datatype cluster_err_type =
    CLUSTER_NOT_ERR | CLUSTER_ERR_MOVED | CLUSTER_ERR_ASK | CLUSTER_ERR_TRYAGAIN | CLUSTER_ERR_CROSSSLOT
  | CLUSTER_ERR_CLUSTERDOWN | CLUSTER_ERR_SENTINEL

definition starts_with :: "string \<Rightarrow> redisReply \<Rightarrow> bool" where
  "starts_with p r \<longleftrightarrow> int (length p) < rp_len r \<and> (case rp_str r of None \<Rightarrow> False | Some s \<Rightarrow> take (length p) (cstr s) = p)"

text \<open>A null reply gives \<^verbatim>\<open>REDIS_ERR\<close>, which is \<^term>\<open>None\<close> here.\<close>

definition cluster_reply_error_type :: "redisReply option \<Rightarrow> cluster_err_type option" where
  "cluster_reply_error_type reply =
     (case reply of
        None \<Rightarrow> None
      | Some r \<Rightarrow>
          Some (if rp_type r = REDIS_REPLY_ERROR then
                  (if starts_with ''MOVED'' r then CLUSTER_ERR_MOVED
                   else if starts_with ''ASK'' r then CLUSTER_ERR_ASK
                   else if starts_with ''TRYAGAIN'' r then CLUSTER_ERR_TRYAGAIN
                   else if starts_with ''CROSSSLOT'' r then CLUSTER_ERR_CROSSSLOT
                   else if starts_with ''CLUSTERDOWN'' r then CLUSTER_ERR_CLUSTERDOWN
                   else CLUSTER_ERR_SENTINEL)
                else CLUSTER_NOT_ERR))"

section \<open>Putting replies together\<close>

text \<open>The first loop looks at the reply of every sub-command: it returns an error reply at
  once, gives up on a reply of the wrong type, and adds up the counts of \<^verbatim>\<open>DEL\<close>.\<close>

datatype 'c checked = Return "nat option" 'c | Go int | Bad

definition status_ok :: "redisReply \<Rightarrow> bool" where
  "status_ok r \<longleftrightarrow> rp_type r = REDIS_REPLY_STATUS \<and> rp_len r = 2 \<and> (case rp_str r of None \<Rightarrow> False | Some s \<Rightarrow> cstr s = ''OK'')"

fun post_check :: "cmd_type \<Rightarrow> (nat \<rightharpoonup> cmd) \<Rightarrow> heap \<Rightarrow> nat list \<Rightarrow> int \<Rightarrow> 'c cluster_error_scheme \<Rightarrow> 'c cluster_error_scheme checked" where
  "post_check ty subs h [] count cc = Go count"
| "post_check ty subs h (s # ss) count cc =
     (case subs s of
        None \<Rightarrow> Bad
      | Some c \<Rightarrow>
          (case creply c of
             None \<Rightarrow> Return None cc
           | Some a \<Rightarrow>
               (case objs h a of
                  None \<Rightarrow> Bad
                | Some r \<Rightarrow>
                    if rp_type r = REDIS_REPLY_ERROR then Return (Some a) cc
                    else if ty = CMD_REQ_REDIS_MGET then
                      (if rp_type r \<noteq> REDIS_REPLY_ARRAY
                       then Return None (redisClusterSetError REDIS_ERR_OTHER ''reply type is error(here only can be array)'' cc)
                       else post_check ty subs h ss count cc)
                    else if ty = CMD_REQ_REDIS_DEL then
                      (if rp_type r \<noteq> REDIS_REPLY_INTEGER
                       then Return None (redisClusterSetError REDIS_ERR_OTHER ''reply type is error(here only can be integer)'' cc)
                       else post_check ty subs h ss (c_llong (count + rp_integer r)) cc)
                    else if ty = CMD_REQ_REDIS_MSET then
                      (if \<not> status_ok r
                       then Return None (redisClusterSetError REDIS_ERR_OTHER ''reply type is error(here only can be status and ok)'' cc)
                       else post_check ty subs h ss count cc)
                    else Bad)))"

text \<open>The elements of \<^verbatim>\<open>MGET\<close> are taken from the ends of the replies to the sub-commands, from the
  last key to the first.\<close>

definition set_elem :: "nat \<Rightarrow> nat \<Rightarrow> nat option \<Rightarrow> heap \<Rightarrow> heap option" where
  "set_elem a i e h =
     do { r \<leftarrow> objs h a;
          es \<leftarrow> rp_element r;
          if i < length es then Some (hput a (r\<lparr>rp_element := Some (es[i := e])\<rparr>) h) else None }"

fun post_mget :: "nat \<Rightarrow> (nat \<rightharpoonup> cmd) \<Rightarrow> nat list \<Rightarrow> nat \<Rightarrow> heap \<Rightarrow> 'c cluster_error_scheme \<Rightarrow>
    (nat option \<times> heap \<times> 'c cluster_error_scheme) option" where
  "post_mget a subs seq 0 h cc = Some (Some a, h, cc)"
| "post_mget a subs seq (Suc i) h cc =
     do { s \<leftarrow> (if i < length seq then Some (seq ! i) else None);
          c \<leftarrow> subs s;
          case creply c of
            None \<Rightarrow> do { h \<leftarrow> freeReplyObject (Addr a) h;
                          Some (None, h, redisClusterSetError REDIS_ERR_OTHER ''sub reply is null'' cc) }
          | Some b \<Rightarrow>
              do { r \<leftarrow> objs h b;
                   if rp_type r = REDIS_REPLY_STRING then
                     do { h \<leftarrow> set_elem a i (Some b) h; post_mget a subs seq i h cc }
                   else if rp_type r = REDIS_REPLY_ARRAY then
                     (if rp_elements r = 0 then
                        do { h \<leftarrow> freeReplyObject (Addr a) h;
                             Some (None, h, redisClusterSetError REDIS_ERR_OTHER ''sub reply elements error'' cc) }
                      else
                        do { es \<leftarrow> rp_element r;
                             e \<leftarrow> (if rp_elements r \<le> length es then Some (es ! (rp_elements r - 1)) else None);
                             h \<leftarrow> set_elem a i e h;
                             r \<leftarrow> objs h b;
                             post_mget a subs seq i (hput b (r\<lparr>rp_elements := rp_elements r - 1\<rparr>) h) cc })
                   else post_mget a subs seq i h cc } }"

text \<open>The address of the combined reply, or a null pointer, with the store and the errors.\<close>

definition command_post_fragment :: "cmd \<Rightarrow> (nat \<rightharpoonup> cmd) \<Rightarrow> nat list \<Rightarrow> heap \<Rightarrow> 'c cluster_error_scheme \<Rightarrow>
    (nat option \<times> heap \<times> 'c cluster_error_scheme) option" where
  "command_post_fragment r subs commands h cc =
     (case post_check (ctype r) subs h commands 0 cc of
        Bad \<Rightarrow> None
      | Return p cc \<Rightarrow> Some (p, h, cc)
      | Go count \<Rightarrow>
          (case createReplyObject 0 h of
             (None, h) \<Rightarrow> Some (None, h, cc_oom cc)
           | (Some a, h) \<Rightarrow>
               if ctype r = CMD_REQ_REDIS_MGET then
                 (let n = hiarray_n (keys r); h0 = hput a ((zeroed REDIS_REPLY_ARRAY)\<lparr>rp_elements := n\<rparr>) h in
                  case halloc h0 of
                    (False, h1) \<Rightarrow> do { h \<leftarrow> freeReplyObject (Addr a) h1; Some (None, h, cc_oom cc) }
                  | (True, h1) \<Rightarrow>
                      do { seq \<leftarrow> frag_seq r;
                           post_mget a subs seq n
                             (hput a ((zeroed REDIS_REPLY_ARRAY)\<lparr>rp_elements := n, rp_element := Some (replicate n None)\<rparr>) h1) cc })
               else if ctype r = CMD_REQ_REDIS_DEL then
                 Some (Some a, hput a ((zeroed REDIS_REPLY_INTEGER)\<lparr>rp_integer := count\<rparr>) h, cc)
               else if ctype r = CMD_REQ_REDIS_MSET then
                 (let h0 = hput a (zeroed REDIS_REPLY_STATUS) h in
                  case halloc h0 of
                    (False, h1) \<Rightarrow> do { h \<leftarrow> freeReplyObject (Addr a) h1; Some (None, h, cc_oom cc) }
                  | (True, h1) \<Rightarrow>
                      Some (Some a, hput a ((zeroed REDIS_REPLY_STATUS)\<lparr>rp_len := 2, rp_str := Some (''OK'' @ [NUL])\<rparr>) h1, cc))
               else None))"

text \<open>What releasing the list of sub-commands does to the store: \<^verbatim>\<open>command_destroy\<close> frees the reply
  of each of them.\<close>

fun release_replies :: "(nat \<rightharpoonup> cmd) \<Rightarrow> nat list \<Rightarrow> heap \<Rightarrow> heap option" where
  "release_replies subs [] h = Some h"
| "release_replies subs (s # ss) h =
     do { c \<leftarrow> subs s;
          h \<leftarrow> (case creply c of None \<Rightarrow> Some h | Some a \<Rightarrow> freeReplyObject (Addr a) h);
          release_replies subs ss h }"

section \<open>The combined reply of MGET\<close>

text \<open>The replies to the sub-commands of \<open>slots\<close>: the reply for slot \<open>s\<close> at address \<open>ra s\<close> is an
  array of the elements \<open>es s\<close>.  \<open>rank slots i\<close> is the position of key \<open>i\<close> among the keys of its
  slot.\<close>

abbreviation seen :: "nat list \<Rightarrow> nat \<Rightarrow> nat \<Rightarrow> nat" where
  "seen slots i s \<equiv> length (filter (\<lambda>t. t = s) (take i slots))"

abbreviation rank :: "nat list \<Rightarrow> nat \<Rightarrow> nat" where
  "rank slots i \<equiv> seen slots i (slots ! i)"

lemma seen_Suc: "i < length slots \<Longrightarrow> seen slots (Suc i) s = seen slots i s + (if slots ! i = s then 1 else 0)"
  by (simp add: take_Suc_conv_app_nth)

lemma seen_mono: "i \<le> j \<Longrightarrow> seen slots i s \<le> seen slots j s"
  by (metis filter_append le_add1 le_add_diff_inverse length_append take_add)

definition merged :: "(nat \<Rightarrow> nat list) \<Rightarrow> nat list \<Rightarrow> nat list" where
  "merged es slots = map (\<lambda>i. es (slots ! i) ! rank slots i) [0..<length slots]"

text \<open>The store when the keys from \<open>i\<close> on are done.\<close>

definition merging :: "heap \<Rightarrow> (nat \<Rightarrow> nat) \<Rightarrow> (nat \<Rightarrow> nat list) \<Rightarrow> nat list \<Rightarrow> nat \<Rightarrow> nat \<Rightarrow> heap \<Rightarrow> bool" where
  "merging h0 ra es slots a i h \<longleftrightarrow>
     objs h a = Some ((zeroed REDIS_REPLY_ARRAY)\<lparr>rp_elements := length slots,
       rp_element := Some (replicate i None @ map Some (drop i (merged es slots)))\<rparr>) \<and>
     (\<forall>s \<in> set slots. objs h (ra s) = Some ((array_cell (map Some (es s)))\<lparr>rp_elements := seen slots i s\<rparr>)) \<and>
     (\<forall>x. x \<noteq> a \<longrightarrow> x \<notin> ra ` set slots \<longrightarrow> objs h x = objs h0 x) \<and> hcount h = hcount h0"

definition sub_replies :: "(nat \<rightharpoonup> cmd) \<Rightarrow> (nat \<Rightarrow> nat) \<Rightarrow> nat set \<Rightarrow> bool" where
  "sub_replies subs ra S \<longleftrightarrow> (\<forall>s \<in> S. \<exists>c. subs s = Some c \<and> creply c = Some (ra s))"

lemma merging_step:
  assumes m: "merging h0 ra es slots a (Suc i) h" and i: "i < length slots" and sub: "sub_replies subs ra (set slots)"
    and inj: "inj_on ra (set slots)" and a: "a \<notin> ra ` set slots"
    and len: "\<forall>s \<in> set slots. length (es s) = seen slots (length slots) s"
  shows "\<exists>h'. merging h0 ra es slots a i h' \<and> post_mget a subs slots (Suc i) h cc = post_mget a subs slots i h' cc"
proof -
  define s where "s = slots ! i"
  define k where "k = seen slots i s"
  have s: "s \<in> set slots" using i by (simp add: s_def)
  then obtain c where c: "subs s = Some c" "creply c = Some (ra s)" using sub by (auto simp: sub_replies_def)
  have k1: "seen slots (Suc i) s = Suc k" using seen_Suc [OF i, of s] by (simp add: s_def k_def)
  then have "Suc k \<le> length (es s)" using len s seen_mono [where i = "Suc i" and j = "length slots" and slots = slots and s = s] i by simp
  then have kl: "k < length (es s)" by simp
  let ?cell = "array_cell (map Some (es s))"
  have cell: "rp_type ?cell = REDIS_REPLY_ARRAY" "rp_element ?cell = Some (map Some (es s))"
    using kl by (auto simp: array_cell_def zeroed_def)
  have "objs h (ra s) = Some (?cell\<lparr>rp_elements := seen slots (Suc i) s\<rparr>)"
    using m s unfolding merging_def by blast
  then have ob: "objs h (ra s) = Some (?cell\<lparr>rp_elements := Suc k\<rparr>)" unfolding k1 .
  let ?E = "\<lambda>i. replicate i None @ map Some (drop i (merged es slots))"
  have oa: "objs h a = Some ((zeroed REDIS_REPLY_ARRAY)\<lparr>rp_elements := length slots, rp_element := Some (?E (Suc i))\<rparr>)"
    using m by (simp add: merging_def)
  have li: "i < length (merged es slots)" using i by (simp add: merged_def)
  have mi: "merged es slots ! i = es s ! k" using i by (simp add: merged_def s_def k_def)
  have E: "(?E (Suc i))[i := Some (es s ! k)] = ?E i"
  proof -
    have "drop i (merged es slots) = (es s ! k) # drop (Suc i) (merged es slots)"
      using Cons_nth_drop_Suc [OF li] mi by simp
    moreover have "replicate (Suc i) (None :: nat option) = replicate i None @ [None]" by (simp add: replicate_append_same)
    ultimately show ?thesis by (simp add: list_update_append del: replicate_Suc)
  qed
  let ?h1 = "hput a ((zeroed REDIS_REPLY_ARRAY)\<lparr>rp_elements := length slots, rp_element := Some (?E i)\<rparr>) h"
  have e1: "set_elem a i (Some (es s ! k)) h = Some ?h1"
    using oa E i by (simp add: set_elem_def del: replicate_Suc)
  have nea: "ra s \<noteq> a" using a s by blast
  have o1: "objs ?h1 (ra s) = Some (?cell\<lparr>rp_elements := Suc k\<rparr>)" using ob nea by (simp add: hput_def)
  let ?h2 = "hput (ra s) (?cell\<lparr>rp_elements := k\<rparr>) ?h1"
  have "post_mget a subs slots (Suc i) h cc = post_mget a subs slots i ?h2 cc"
    using i c ob cell kl e1 o1 by (simp add: s_def [symmetric])
  moreover have "merging h0 ra es slots a i ?h2"
    unfolding merging_def
  proof (intro conjI ballI allI impI)
    show "objs ?h2 a = Some ((zeroed REDIS_REPLY_ARRAY)\<lparr>rp_elements := length slots, rp_element := Some (?E i)\<rparr>)"
      using nea by (simp add: hput_def)
    fix t assume t: "t \<in> set slots"
    show "objs ?h2 (ra t) = Some ((array_cell (map Some (es t)))\<lparr>rp_elements := seen slots i t\<rparr>)"
    proof (cases "t = s")
      case True
      then show ?thesis by (simp add: hput_def k_def)
    next
      case False
      then have "ra t \<noteq> ra s" using inj s t by (auto dest: inj_onD)
      moreover have "ra t \<noteq> a" using a t by blast
      moreover have "seen slots (Suc i) t = seen slots i t" using seen_Suc [OF i, of t] False by (simp add: s_def)
      ultimately show ?thesis using m t unfolding merging_def by (simp add: hput_def)
    qed
  next
    fix x assume "x \<noteq> a" "x \<notin> ra ` set slots"
    moreover from this have "x \<noteq> ra s" using s by blast
    ultimately show "objs ?h2 x = objs h0 x" using m by (simp add: hput_def merging_def)
  next
    show "hcount ?h2 = hcount h0" using m by (simp add: hput_def merging_def)
  qed
  ultimately show ?thesis by blast
qed

lemma post_mget_ok:
  assumes "sub_replies subs ra (set slots)" "inj_on ra (set slots)" "a \<notin> ra ` set slots"
    "\<forall>s \<in> set slots. length (es s) = seen slots (length slots) s"
  shows "i \<le> length slots \<Longrightarrow> merging h0 ra es slots a i h \<Longrightarrow>
    \<exists>h'. post_mget a subs slots i h cc = Some (Some a, h', cc) \<and> merging h0 ra es slots a 0 h'"
proof (induction i arbitrary: h)
  case (Suc i)
  then have "i < length slots" by simp
  from merging_step [OF Suc.prems(2) this assms(1-3) assms(4)] Suc.IH Suc.prems(1) show ?case
    by (metis Suc_leD)
qed simp

section \<open>Representations of several replies\<close>

text \<open>The replies of the sub-commands stand in disjoint parts of the store.\<close>

definition replies_at :: "heap \<Rightarrow> (nat \<Rightarrow> nat) \<Rightarrow> (nat \<Rightarrow> reply) \<Rightarrow> nat set \<Rightarrow> bool" where
  "replies_at h ra vs S \<longleftrightarrow>
     (\<forall>s \<in> S. rep (objs h) (ra s) (vs s) \<and> ra s + cost (vs s) \<le> hcount h) \<and>
     (\<forall>s \<in> S. \<forall>t \<in> S. s \<noteq> t \<longrightarrow> {ra s..<ra s + cost (vs s)} \<inter> {ra t..<ra t + cost (vs t)} = {})"

lemma replies_at_inj: "replies_at h ra vs S \<Longrightarrow> inj_on ra S"
proof (rule inj_onI, rule ccontr)
  fix s t assume a: "replies_at h ra vs S" "s \<in> S" "t \<in> S" "ra s = ra t" "s \<noteq> t"
  have "ra s \<in> {ra s..<ra s + cost (vs s)} \<inter> {ra t..<ra t + cost (vs t)}"
    using a(4) cost_pos [of "vs s"] cost_pos [of "vs t"] by simp
  then show False using a unfolding replies_at_def by blast
qed

lemma replies_at_less: "replies_at h ra vs S \<Longrightarrow> s \<in> S \<Longrightarrow> ra s < hcount h"
  using cost_pos [of "vs s"] by (fastforce simp: replies_at_def)

lemma reps_nth:
  assumes "reps ob b vs" "k < length vs"
  shows "rep ob (addrs b vs ! k) (vs ! k)" "b \<le> addrs b vs ! k"
    "addrs b vs ! k + cost (vs ! k) \<le> b + sum_list (map cost vs)"
  using assms
proof (induction vs arbitrary: b k)
  case (Cons v vs)
  { case 1 then show ?case using Cons.IH(1) [of "b + cost v" "k - 1"] by (cases k) auto }
  { case 2 then show ?case using Cons.IH(2) [of "b + cost v" "k - 1"] by (cases k) auto }
  { case 3 then show ?case using Cons.IH(3) [of "b + cost v" "k - 1"] by (cases k) auto }
qed simp_all

lemma release_ok:
  "\<lbrakk>sub_replies subs ra (set ss); distinct ss; inj_on ra (set ss);
    \<forall>s \<in> set ss. \<exists>es. objs h (ra s) = Some ((array_cell es)\<lparr>rp_elements := 0\<rparr>)\<rbrakk> \<Longrightarrow>
    release_replies subs ss h = Some (drop_objs (ra ` set ss) h)"
proof (induction ss arbitrary: h)
  case (Cons s ss)
  obtain c where c: "subs s = Some c" "creply c = Some (ra s)" using Cons.prems(1) by (auto simp: sub_replies_def)
  obtain es where es: "objs h (ra s) = Some ((array_cell es)\<lparr>rp_elements := 0\<rparr>)" using Cons.prems(4) by auto
  have f: "freeReplyObject (Addr (ra s)) h = Some (drop_objs {ra s} h)"
    using es by (simp add: freeReplyObject_def array_cell_def zeroed_def drop_one)
  have ne: "ra t \<noteq> ra s" if "t \<in> set ss" for t
    using that Cons.prems(2,3) by (auto simp: inj_on_def)
  have "release_replies subs ss (drop_objs {ra s} h) = Some (drop_objs (ra ` set ss) (drop_objs {ra s} h))"
    using Cons.prems ne by (intro Cons.IH) (auto simp: sub_replies_def inj_on_def)
  then show ?case using c f by (simp add: drop_objs_Un)
qed simp

section \<open>Positions of keys\<close>

lemma seen_count: "i \<le> length slots \<Longrightarrow> seen slots i s = length (filter (\<lambda>j. slots ! j = s) [0..<i])"
proof (induction i)
  case (Suc i)
  then show ?case using seen_Suc [of i slots s] by simp
qed simp

lemma upt_split: "i < n \<Longrightarrow> [0..<n] = [0..<i] @ i # [Suc i..<n]"
  using upt_add_eq_append [of 0 i "n - i"] by (simp add: upt_conv_Cons)

lemma filter_nth_count: "i < n \<Longrightarrow> P i \<Longrightarrow> filter P [0..<n] ! length (filter P [0..<i]) = i"
proof -
  assume i: "i < n" "P i"
  show ?thesis unfolding upt_split [OF i(1)] using i(2) by (simp add: nth_append)
qed

definition slot_values :: "(nat \<Rightarrow> reply) \<Rightarrow> nat list \<Rightarrow> nat \<Rightarrow> reply list" where
  "slot_values val slots s = map val (filter (\<lambda>i. slots ! i = s) [0..<length slots])"

lemma slot_values_rank:
  assumes "i < length slots"
  shows "slot_values val slots (slots ! i) ! rank slots i = val i"
    "rank slots i < length (slot_values val slots (slots ! i))"
proof -
  let ?P = "\<lambda>j. slots ! j = slots ! i"
  have r: "rank slots i = length (filter ?P [0..<i])" using assms by (simp add: seen_count)
  have l: "length (filter ?P [0..<i]) < length (filter ?P [0..<length slots])"
    unfolding upt_split [OF assms] by simp
  then show "rank slots i < length (slot_values val slots (slots ! i))" unfolding r by (simp add: slot_values_def)
  show "slot_values val slots (slots ! i) ! rank slots i = val i"
    unfolding r using l filter_nth_count [OF assms, of ?P] by (simp add: slot_values_def)
qed

lemma post_check_arrays:
  assumes "sub_replies subs ra (set ss)" "\<forall>s \<in> set ss. \<exists>r. objs h (ra s) = Some r \<and> rp_type r = REDIS_REPLY_ARRAY"
  shows "post_check CMD_REQ_REDIS_MGET subs h ss n cc = Go n"
  using assms
proof (induction ss)
  case (Cons s ss)
  then show ?case by (auto simp: sub_replies_def)
qed simp

section \<open>Properties\<close>

lemma mget_merge:
  assumes r: "ctype r = CMD_REQ_REDIS_MGET" "frag_seq r = Some slots" "hiarray_n (keys r) = length slots"
    and c: "set commands = set slots" and sub: "sub_replies subs ra (set slots)" and nf: "no_fail h"
    and at: "replies_at h ra (\<lambda>s. RArray (slot_values val slots s)) (set slots)"
  shows "\<exists>h1. command_post_fragment r subs commands h cc = Some (Some (hcount h), h1, cc) \<and>
    merging (h\<lparr>hcount := hcount h + 2\<rparr>) ra (\<lambda>s. addrs (ra s + 2) (slot_values val slots s)) slots (hcount h) 0 h1"
proof -
  let ?es = "\<lambda>s. addrs (ra s + 2) (slot_values val slots s)" and ?a = "hcount h" and ?n = "length slots"
  let ?h2 = "hput ?a ((zeroed REDIS_REPLY_ARRAY)\<lparr>rp_elements := ?n, rp_element := Some (replicate ?n None)\<rparr>)
    (hput ?a ((zeroed REDIS_REPLY_ARRAY)\<lparr>rp_elements := ?n\<rparr>) (hput ?a (zeroed 0) (h\<lparr>hcount := Suc ?a\<rparr>))\<lparr>hcount := Suc (Suc ?a)\<rparr>)"
  have ob: "objs h (ra s) = Some (array_cell (map Some (?es s)))" if "s \<in> set slots" for s
    using at that by (simp add: replies_at_def)
  have ch: "post_check CMD_REQ_REDIS_MGET subs h commands 0 cc = Go 0"
    using sub ob c by (intro post_check_arrays) (auto simp: array_cell_def zeroed_def)
  have a: "?a \<notin> ra ` set slots" using replies_at_less [OF at] by (metis imageE less_irrefl)
  have len: "\<forall>s \<in> set slots. length (?es s) = seen slots (length slots) s"
    using seen_count [of "length slots" slots] by (simp add: slot_values_def)
  have m: "merging (h\<lparr>hcount := hcount h + 2\<rparr>) ra ?es slots ?a ?n ?h2"
    unfolding merging_def
  proof (intro conjI ballI allI impI)
    fix s assume s: "s \<in> set slots"
    then have "ra s \<noteq> ?a" using a by (metis imageI)
    moreover have "(array_cell (map Some (?es s)))\<lparr>rp_elements := seen slots ?n s\<rparr> = array_cell (map Some (?es s))"
      using len s by (simp add: array_cell_def)
    ultimately show "objs ?h2 (ra s) = Some ((array_cell (map Some (?es s)))\<lparr>rp_elements := seen slots ?n s\<rparr>)"
      using ob [OF s] by (simp add: hput_def)
  qed (simp_all add: hput_def merged_def)
  obtain h1 where h1: "post_mget ?a subs slots ?n ?h2 cc = Some (Some ?a, h1, cc)"
    "merging (h\<lparr>hcount := hcount h + 2\<rparr>) ra ?es slots ?a 0 h1"
    using post_mget_ok [OF sub replies_at_inj [OF at] a len order_refl m] by blast
  have "command_post_fragment r subs commands h cc = Some (Some ?a, h1, cc)"
    using ch r h1(1) nf by (simp add: command_post_fragment_def createReplyObject_def halloc_def no_fail_def hput_def Let_def)
  with h1(2) show ?thesis by blast
qed

text \<open>C8 The reply of a split \<^verbatim>\<open>MGET\<close> is the reply of the original request: when the reply for every slot
  is the array of the values of its keys, in their order, the combined reply is an array whose
  element number \<open>i\<close> is the value of key number \<open>i\<close>, and it stays intact when the sub-commands and
  their replies are released afterwards.\<close>

theorem mget_reassembled:
  assumes "ctype r = CMD_REQ_REDIS_MGET" "frag_seq r = Some slots" "hiarray_n (keys r) = length slots"
    and "set commands = set slots" "distinct commands" "sub_replies subs ra (set slots)" "no_fail h"
    and "replies_at h ra (\<lambda>s. RArray (slot_values val slots s)) (set slots)"
  shows "\<exists>h1 h2 es. command_post_fragment r subs commands h cc = Some (Some (hcount h), h1, cc) \<and>
    release_replies subs commands h1 = Some h2 \<and>
    objs h2 (hcount h) = Some ((zeroed REDIS_REPLY_ARRAY)\<lparr>rp_elements := length slots, rp_element := Some (map Some es)\<rparr>) \<and>
    length es = length slots \<and> (\<forall>i < length slots. rep (objs h2) (es ! i) (val i))"
proof -
  let ?es = "\<lambda>s. addrs (ra s + 2) (slot_values val slots s)" and ?a = "hcount h"
  obtain h1 where h1: "command_post_fragment r subs commands h cc = Some (Some ?a, h1, cc)"
    and m: "merging (h\<lparr>hcount := hcount h + 2\<rparr>) ra ?es slots ?a 0 h1"
    using mget_merge [OF assms(1-4,6-8)] by blast
  let ?h2 = "drop_objs (ra ` set slots) h1"
  have rel: "release_replies subs commands h1 = Some ?h2"
    using release_ok [of subs ra commands h1] assms(4-6) replies_at_inj [OF assms(8)] m
    unfolding merging_def by auto
  have a: "?a \<notin> ra ` set slots" using replies_at_less [OF assms(8)] by (metis imageE less_irrefl)
  have arr: "objs ?h2 ?a = Some ((zeroed REDIS_REPLY_ARRAY)\<lparr>rp_elements := length slots,
      rp_element := Some (map Some (merged ?es slots))\<rparr>)"
    using m a by (simp add: merging_def)
  have "rep (objs ?h2) (merged ?es slots ! i) (val i)" if i: "i < length slots" for i
  proof -
    let ?s = "slots ! i" and ?vs = "slot_values val slots (slots ! i)"
    have s: "?s \<in> set slots" using i by simp
    note k = slot_values_rank [OF i, of val]
    have e: "merged ?es slots ! i = addrs (ra ?s + 2) ?vs ! rank slots i" using i by (simp add: merged_def)
    have rp: "reps (objs h) (ra ?s + 2) ?vs" "ra ?s + cost (RArray ?vs) \<le> hcount h"
      using assms(8) s by (simp_all add: replies_at_def)
    note n = reps_nth [OF rp(1) k(2)]
    have cs: "cost (RArray ?vs) = 2 + sum_list (map cost ?vs)" using k(2) by auto
    have "objs ?h2 x = objs h x" if x: "merged ?es slots ! i \<le> x" "x < merged ?es slots ! i + cost (val i)" for x
    proof -
      have xr: "ra ?s + 2 \<le> x" "x < ra ?s + cost (RArray ?vs)"
        using x n(2,3) unfolding e k(1) cs by simp_all
      have "x \<noteq> ra t" if t: "t \<in> set slots" for t
      proof (cases "t = ?s")
        case False
        have "x \<in> {ra ?s..<ra ?s + cost (RArray ?vs)}" using xr by simp
        moreover have "{ra ?s..<ra ?s + cost (RArray ?vs)} \<inter> {ra t..<ra t + cost (RArray (slot_values val slots t))} = {}"
          using assms(8) s t False unfolding replies_at_def by blast
        moreover have "ra t \<in> {ra t..<ra t + cost (RArray (slot_values val slots t))}"
          using cost_pos [of "RArray (slot_values val slots t)"] by simp
        ultimately show ?thesis by blast
      qed (use xr in simp)
      then have "x \<notin> ra ` set slots" by blast
      moreover have "x \<noteq> ?a" using xr(2) rp(2) by simp
      ultimately show ?thesis using m by (simp add: merging_def)
    qed
    then have "rep (objs ?h2) (merged ?es slots ! i) (val i) = rep (objs h) (merged ?es slots ! i) (val i)"
      by (rule rep_cong(1))
    then show ?thesis using n(1) unfolding e k(1) by simp
  qed
  then show ?thesis
    using h1 rel arr by (intro exI [of _ h1] exI [of _ ?h2] exI [of _ "merged ?es slots"]) (simp add: merged_def)
qed

theorem mget_reassembled_witness:
  "\<exists>h0 h1 h2 es. objs h0 0 = Some (array_cell [Some 2, Some 3]) \<and> objs h0 4 = Some (array_cell [Some 6]) \<and>
    command_post_fragment
      (a_cmd\<lparr>ctype := CMD_REQ_REDIS_MGET, frag_seq := Some [7, 9, 7], keys := (keys a_cmd)\<lparr>nelem := 3\<rparr>\<rparr>)
      [7 \<mapsto> a_cmd\<lparr>creply := Some 0\<rparr>, 9 \<mapsto> a_cmd\<lparr>creply := Some 4\<rparr>] [7, 9] h0 \<lparr>cc_err = 0, cc_errstr = []\<rparr> =
        Some (Some 7, h1, \<lparr>cc_err = 0, cc_errstr = []\<rparr>) \<and>
    release_replies [7 \<mapsto> a_cmd\<lparr>creply := Some 0\<rparr>, 9 \<mapsto> a_cmd\<lparr>creply := Some 4\<rparr>] [7, 9] h1 = Some h2 \<and>
    length es = 3 \<and> rep (objs h2) (es ! 0) (RInteger 10) \<and> rep (objs h2) (es ! 1) (RInteger 11) \<and>
    rep (objs h2) (es ! 2) (RInteger 12)"
proof -
  let ?int = "\<lambda>i. (zeroed REDIS_REPLY_INTEGER)\<lparr>rp_integer := i\<rparr>"
  let ?h = "\<lparr>objs = [0 \<mapsto> array_cell [Some 2, Some 3], 2 \<mapsto> ?int 10, 3 \<mapsto> ?int 12, 4 \<mapsto> array_cell [Some 6], 6 \<mapsto> ?int 11],
    hcount = 7, hfail = (\<lambda>n. False)\<rparr>"
  let ?r = "a_cmd\<lparr>ctype := CMD_REQ_REDIS_MGET, frag_seq := Some [7, 9, 7], keys := (keys a_cmd)\<lparr>nelem := 3\<rparr>\<rparr>"
  let ?subs = "[7 \<mapsto> a_cmd\<lparr>creply := Some 0\<rparr>, 9 \<mapsto> a_cmd\<lparr>creply := Some 4\<rparr>]"
  let ?ra = "\<lambda>s :: nat. if s = 7 then 0 else 4 :: nat" and ?val = "\<lambda>i :: nat. RInteger (10 + int i)"
  have v: "slot_values ?val [7, 9, 7] 7 = [RInteger 10, RInteger 12]" "slot_values ?val [7, 9, 7] 9 = [RInteger 11]"
    by (simp_all add: slot_values_def upt_rec)
  have at: "replies_at ?h ?ra (\<lambda>s. RArray (slot_values ?val [7, 9, 7] s)) (set [7, 9, 7])"
    using v by (simp add: replies_at_def flip: numeral_2_eq_2 numeral_3_eq_3)
  have sub: "sub_replies ?subs ?ra (set [7, 9, 7])" by (simp add: sub_replies_def)
  have r: "ctype ?r = CMD_REQ_REDIS_MGET" "frag_seq ?r = Some [7, 9, 7]" "hiarray_n (keys ?r) = length [7, 9, 7 :: nat]"
    "set [7, 9] = set [7, 9, 7 :: nat]" "distinct [7, 9 :: nat]" "no_fail ?h" "hcount ?h = 7"
    by (auto simp: hiarray_n_def no_fail_def)
  from mget_reassembled [OF r(1-5) sub r(6) at, of "\<lparr>cc_err = 0, cc_errstr = []\<rparr>"]
  obtain h1 h2 es where e: "command_post_fragment ?r ?subs [7, 9] ?h \<lparr>cc_err = 0, cc_errstr = []\<rparr> =
        Some (Some (hcount ?h), h1, \<lparr>cc_err = 0, cc_errstr = []\<rparr>)"
      "release_replies ?subs [7, 9] h1 = Some h2" "length es = length [7, 9, 7 :: nat]"
      "\<forall>i < length [7, 9, 7 :: nat]. rep (objs h2) (es ! i) (?val i)"
    by blast
  have "rep (objs h2) (es ! 0) (RInteger 10)" "rep (objs h2) (es ! 1) (RInteger 11)" "rep (objs h2) (es ! 2) (RInteger 12)"
    using e(4) [rule_format, of 0] e(4) [rule_format, of 1] e(4) [rule_format, of 2] by simp_all
  with e(1-3) show ?thesis unfolding r(7)
    by (intro exI [of _ ?h] exI [of _ h1] exI [of _ h2] exI [of _ es] conjI) (assumption | simp)+
qed

lemma replies_at_drop:
  assumes "replies_at h ra vs (insert s S)" "s \<notin> S"
  shows "replies_at (drop_objs (live (ra s) (vs s)) h) ra vs S"
proof -
  have "rep (objs (drop_objs (live (ra s) (vs s)) h)) (ra t) (vs t) = rep (objs h) (ra t) (vs t)" if t: "t \<in> S" for t
  proof (rule rep_cong(1))
    fix x assume x: "ra t \<le> x" "x < ra t + cost (vs t)"
    have "t \<noteq> s" using t assms(2) by blast
    then have "{ra s..<ra s + cost (vs s)} \<inter> {ra t..<ra t + cost (vs t)} = {}"
      using assms(1) t unfolding replies_at_def by blast
    moreover have "x \<in> {ra t..<ra t + cost (vs t)}" using x by simp
    ultimately have "x \<notin> live (ra s) (vs s)" using live_bounds(1) [of "ra s" "vs s"] by blast
    then show "objs (drop_objs (live (ra s) (vs s)) h) x = objs h x" by simp
  qed
  then show ?thesis using assms(1) unfolding replies_at_def by simp
qed

lemma release_reps:
  "\<lbrakk>sub_replies subs ra (set ss); distinct ss; replies_at h ra vs (set ss)\<rbrakk> \<Longrightarrow>
    release_replies subs ss h = Some (drop_objs (\<Union>s \<in> set ss. live (ra s) (vs s)) h)"
proof (induction ss arbitrary: h)
  case (Cons s ss)
  obtain c where c: "subs s = Some c" "creply c = Some (ra s)" using Cons.prems(1) by (auto simp: sub_replies_def)
  have "rep (objs h) (ra s) (vs s)" "ra s + cost (vs s) \<le> hcount h" using Cons.prems(3) by (simp_all add: replies_at_def)
  then have f: "freeReplyObject (Addr (ra s)) h = Some (drop_objs (live (ra s) (vs s)) h)"
    using free_rep(1) [of h "ra s" "vs s" "Suc (hcount h)"] by (simp add: freeReplyObject_def)
  have "replies_at (drop_objs (live (ra s) (vs s)) h) ra vs (set ss)"
    using replies_at_drop [of h ra vs s "set ss"] Cons.prems(2,3) by simp
  then have "release_replies subs ss (drop_objs (live (ra s) (vs s)) h) =
      Some (drop_objs (\<Union>s \<in> set ss. live (ra s) (vs s)) (drop_objs (live (ra s) (vs s)) h))"
    using Cons.IH Cons.prems by (simp add: sub_replies_def)
  then show ?case using c f by (simp add: drop_objs_Un)
qed simp

lemma c_llong_add: "c_llong (c_llong x + y) = c_llong (x + y)"
  unfolding c_llong_def by (simp add: mod_simps algebra_simps)

lemma post_check_counts:
  "\<lbrakk>sub_replies subs ra (set ss); \<forall>s \<in> set ss. rep (objs h) (ra s) (RInteger (n s))\<rbrakk> \<Longrightarrow>
    post_check CMD_REQ_REDIS_DEL subs h ss (c_llong k) cc = Go (c_llong (k + sum_list (map n ss)))"
proof (induction ss arbitrary: k)
  case (Cons s ss)
  obtain c where c: "subs s = Some c" "creply c = Some (ra s)" using Cons.prems(1) by (auto simp: sub_replies_def)
  have o: "objs h (ra s) = Some ((zeroed REDIS_REPLY_INTEGER)\<lparr>rp_integer := n s\<rparr>)" using Cons.prems(2) by simp
  have "post_check CMD_REQ_REDIS_DEL subs h (s # ss) (c_llong k) cc =
      post_check CMD_REQ_REDIS_DEL subs h ss (c_llong (k + n s)) cc"
    using c o by (simp add: zeroed_def c_llong_add)
  also have "\<dots> = Go (c_llong (k + n s + sum_list (map n ss)))"
    using Cons.prems by (intro Cons.IH) (auto simp: sub_replies_def)
  finally show ?case by (simp add: add.assoc)
qed simp

text \<open>C35 The reply of a split \<^verbatim>\<open>DEL\<close> is the number of keys deleted everywhere: an integer reply with the
  sum of the counts the sub-commands got, as a \<^verbatim>\<open>long long\<close>, which does not depend on their
  replies any more.\<close>

theorem del_counted:
  assumes "ctype r = CMD_REQ_REDIS_DEL" "distinct commands" "sub_replies subs ra (set commands)" "no_fail h"
    and "replies_at h ra (\<lambda>s. RInteger (n s)) (set commands)"
  shows "\<exists>h1 h2. command_post_fragment r subs commands h cc = Some (Some (hcount h), h1, cc) \<and>
    release_replies subs commands h1 = Some h2 \<and>
    rep (objs h2) (hcount h) (RInteger (c_llong (sum_list (map n commands)))) \<and>
    (\<forall>s \<in> set commands. objs h2 (ra s) = None)"
proof -
  let ?v = "(zeroed REDIS_REPLY_INTEGER)\<lparr>rp_integer := c_llong (sum_list (map n commands))\<rparr>"
  let ?h1 = "hput (hcount h) ?v (hput (hcount h) (zeroed 0) (h\<lparr>hcount := Suc (hcount h)\<rparr>))"
  have "c_llong 0 = 0" by (simp add: c_llong_def)
  then have "post_check CMD_REQ_REDIS_DEL subs h commands 0 cc = Go (c_llong (sum_list (map n commands)))"
    using post_check_counts [OF assms(3), of h n 0 cc] assms(5) by (simp add: replies_at_def)
  then have post: "command_post_fragment r subs commands h cc = Some (Some (hcount h), ?h1, cc)"
    using assms(1,4) by (simp add: command_post_fragment_def createReplyObject_def halloc_def no_fail_def)
  have "replies_at ?h1 ra (\<lambda>s. RInteger (n s)) (set commands)"
    using assms(5) replies_at_less [OF assms(5)] by (auto simp: replies_at_def hput_def)
  note rel = release_reps [OF assms(3,2) this]
  have ne: "ra s \<noteq> hcount h" "hcount h \<noteq> ra s" if "s \<in> set commands" for s using replies_at_less [OF assms(5) that] by simp_all
  let ?h2 = "drop_objs (\<Union>s \<in> set commands. live (ra s) (RInteger (n s))) ?h1"
  have "rep (objs ?h2) (hcount h) (RInteger (c_llong (sum_list (map n commands))))" "\<forall>s \<in> set commands. objs ?h2 (ra s) = None"
    using ne by (auto simp: hput_def) (metis+)?
  with post rel show ?thesis by blast
qed

theorem del_counted_witness:
  "\<exists>h1 h2. command_post_fragment (a_cmd\<lparr>ctype := CMD_REQ_REDIS_DEL\<rparr>)
      [7 \<mapsto> a_cmd\<lparr>creply := Some 0\<rparr>, 9 \<mapsto> a_cmd\<lparr>creply := Some 1\<rparr>] [7, 9]
      \<lparr>objs = [0 \<mapsto> (zeroed REDIS_REPLY_INTEGER)\<lparr>rp_integer := 2\<rparr>, 1 \<mapsto> (zeroed REDIS_REPLY_INTEGER)\<lparr>rp_integer := 3\<rparr>],
       hcount = 2, hfail = (\<lambda>n. False)\<rparr> \<lparr>cc_err = 0, cc_errstr = []\<rparr> = Some (Some 2, h1, \<lparr>cc_err = 0, cc_errstr = []\<rparr>) \<and>
    release_replies [7 \<mapsto> a_cmd\<lparr>creply := Some 0\<rparr>, 9 \<mapsto> a_cmd\<lparr>creply := Some 1\<rparr>] [7, 9] h1 = Some h2 \<and>
    rep (objs h2) 2 (RInteger 5)"
proof -
  let ?h = "\<lparr>objs = [0 \<mapsto> (zeroed REDIS_REPLY_INTEGER)\<lparr>rp_integer := 2\<rparr>, 1 \<mapsto> (zeroed REDIS_REPLY_INTEGER)\<lparr>rp_integer := 3\<rparr>],
       hcount = 2, hfail = (\<lambda>n. False)\<rparr>"
  let ?r = "a_cmd\<lparr>ctype := CMD_REQ_REDIS_DEL\<rparr>"
  let ?subs = "[7 \<mapsto> a_cmd\<lparr>creply := Some 0\<rparr>, 9 \<mapsto> a_cmd\<lparr>creply := Some 1\<rparr>]"
  let ?ra = "\<lambda>s :: nat. if s = 7 then 0 else 1 :: nat" and ?n = "\<lambda>s :: nat. if s = 7 then 2 else 3 :: int"
  have r: "ctype ?r = CMD_REQ_REDIS_DEL" "distinct [7, 9 :: nat]" by simp_all
  have sub: "sub_replies ?subs ?ra (set [7, 9])" by (simp add: sub_replies_def)
  have nf: "no_fail ?h" by (simp add: no_fail_def)
  have at: "replies_at ?h ?ra (\<lambda>s. RInteger (?n s)) (set [7, 9])" by (simp add: replies_at_def)
  from del_counted [OF r sub nf at, of "\<lparr>cc_err = 0, cc_errstr = []\<rparr>"]
  obtain h1 h2 where "command_post_fragment ?r ?subs [7, 9] ?h \<lparr>cc_err = 0, cc_errstr = []\<rparr> =
      Some (Some (hcount ?h), h1, \<lparr>cc_err = 0, cc_errstr = []\<rparr>)" "release_replies ?subs [7, 9] h1 = Some h2"
    "rep (objs h2) (hcount ?h) (RInteger (c_llong (sum_list (map ?n [7, 9]))))"
    by blast
  then show ?thesis by (intro exI [of _ h1] exI [of _ h2]) (simp add: c_llong_def)
qed

text \<open>Once an error reply is met the loop stops there.\<close>

lemma post_check_error:
  assumes "objs h (ra s) = Some e" "rp_type e = REDIS_REPLY_ERROR"
  shows "sub_replies subs ra (set (pre @ s # post)) \<Longrightarrow> post_check ty subs h pre k cc = Go k' \<Longrightarrow>
    post_check ty subs h (pre @ s # post) k cc = Return (Some (ra s)) cc"
proof (induction pre arbitrary: k)
  case Nil
  then show ?case using assms by (auto simp: sub_replies_def)
next
  case (Cons t pre)
  then show ?case by (auto simp: sub_replies_def split: option.splits if_splits)
qed

text \<open>C36 An error reply of a split command is given to the caller as it is: the address of the reply
  of the first sub-command that failed.  The sub-commands own their replies, and releasing them,
  which is the next step of \<^verbatim>\<open>redisClusterGetReply\<close>, frees the reply just handed out.\<close>

theorem error_reply_dangles:
  assumes "commands = pre @ s # post" "distinct commands" "sub_replies subs ra (set commands)"
    and "replies_at h ra vs (set commands)" "vs s = RError text"
    and "post_check (ctype r) subs h pre 0 cc = Go k"
  shows "\<exists>h2. command_post_fragment r subs commands h cc = Some (Some (ra s), h, cc) \<and>
    rep (objs h) (ra s) (RError text) \<and> release_replies subs commands h = Some h2 \<and> objs h2 (ra s) = None"
proof -
  have s: "s \<in> set commands" using assms(1) by simp
  then have e: "rep (objs h) (ra s) (RError text)" using assms(4,5) unfolding replies_at_def by metis
  have "post_check (ctype r) subs h commands 0 cc = Return (Some (ra s)) cc"
    unfolding assms(1) using e assms(1,3) by (intro post_check_error [OF _ _ _ assms(6)]) (auto simp: string_cell_def zeroed_def)
  then have "command_post_fragment r subs commands h cc = Some (Some (ra s), h, cc)"
    by (simp add: command_post_fragment_def)
  moreover have "objs (drop_objs (\<Union>s \<in> set commands. live (ra s) (vs s)) h) (ra s) = None"
    using s assms(5) by force
  ultimately show ?thesis using e release_reps [OF assms(3,2,4)] by blast
qed

theorem error_reply_dangles_witness:
  "\<exists>h2. command_post_fragment (a_cmd\<lparr>ctype := CMD_REQ_REDIS_DEL\<rparr>)
      [7 \<mapsto> a_cmd\<lparr>creply := Some 0\<rparr>, 9 \<mapsto> a_cmd\<lparr>creply := Some 1\<rparr>] [7, 9]
      \<lparr>objs = [0 \<mapsto> (zeroed REDIS_REPLY_INTEGER)\<lparr>rp_integer := 2\<rparr>, 1 \<mapsto> string_cell REDIS_REPLY_ERROR ''ERR''],
       hcount = 3, hfail = (\<lambda>n. False)\<rparr> \<lparr>cc_err = 0, cc_errstr = []\<rparr> =
      Some (Some 1, \<lparr>objs = [0 \<mapsto> (zeroed REDIS_REPLY_INTEGER)\<lparr>rp_integer := 2\<rparr>, 1 \<mapsto> string_cell REDIS_REPLY_ERROR ''ERR''],
       hcount = 3, hfail = (\<lambda>n. False)\<rparr>, \<lparr>cc_err = 0, cc_errstr = []\<rparr>) \<and>
    release_replies [7 \<mapsto> a_cmd\<lparr>creply := Some 0\<rparr>, 9 \<mapsto> a_cmd\<lparr>creply := Some 1\<rparr>] [7, 9]
      \<lparr>objs = [0 \<mapsto> (zeroed REDIS_REPLY_INTEGER)\<lparr>rp_integer := 2\<rparr>, 1 \<mapsto> string_cell REDIS_REPLY_ERROR ''ERR''],
       hcount = 3, hfail = (\<lambda>n. False)\<rparr> = Some h2 \<and> objs h2 1 = None"
proof -
  let ?h = "\<lparr>objs = [0 \<mapsto> (zeroed REDIS_REPLY_INTEGER)\<lparr>rp_integer := 2\<rparr>, 1 \<mapsto> string_cell REDIS_REPLY_ERROR ''ERR''],
       hcount = 3, hfail = (\<lambda>n. False)\<rparr>"
  let ?r = "a_cmd\<lparr>ctype := CMD_REQ_REDIS_DEL\<rparr>"
  let ?subs = "[7 \<mapsto> a_cmd\<lparr>creply := Some 0\<rparr>, 9 \<mapsto> a_cmd\<lparr>creply := Some 1\<rparr>]"
  let ?ra = "\<lambda>s :: nat. if s = 7 then 0 else 1 :: nat" and ?v = "\<lambda>s :: nat. if s = 7 then RInteger 2 else RError ''ERR''"
  have c: "[7, 9] = [7] @ 9 # ([] :: nat list)" "distinct [7, 9 :: nat]" by simp_all
  have sub: "sub_replies ?subs ?ra (set [7, 9])" by (simp add: sub_replies_def)
  have at: "replies_at ?h ?ra ?v (set [7, 9])" by (simp add: replies_at_def)
  have v: "?v 9 = RError ''ERR''" by simp
  have go: "post_check (ctype ?r) ?subs ?h [7] 0 \<lparr>cc_err = 0, cc_errstr = []\<rparr> = Go 2"
    by (simp add: zeroed_def c_llong_def)
  have ra9: "(if 9 = (7 :: nat) then 0 else 1) = (1 :: nat)" by simp
  from error_reply_dangles [OF c sub at v go] show ?thesis unfolding ra9 by blast
qed

end
