(* ===== verification/ClusterRoute.thy ===== *)
theory ClusterRoute
  imports ClusterReply Dict
begin

text \<open>
  Model of the routing of \<^verbatim>\<open>hircluster.c\<close>: the nodes and slot regions made from the reply to
  \<^verbatim>\<open>CLUSTER SLOTS\<close>, the table from slots to nodes that replaces the old one, and the two ways to
  look up the node of a slot.  Nodes and regions live at addresses; \<^term>\<open>None\<close> is an access or a
  release of memory that is not there.  The texts of a node and the lists of its regions and
  slaves are values, and the allocation of texts succeeds; a node has no asynchronous connection
  and no open slots, as in a blocking context that asks for \<^verbatim>\<open>CLUSTER SLOTS\<close>.
\<close>

section \<open>Data\<close>

abbreviation (input) "REDIS_ROLE_NULL \<equiv> 0 :: nat"
abbreviation (input) "REDIS_ROLE_MASTER \<equiv> 1 :: nat"
abbreviation (input) "REDIS_ROLE_SLAVE \<equiv> 2 :: nat"

record cluster_slot =
  sl_start :: nat
  sl_end :: nat
  sl_node :: "nat option"

record cluster_node =
  nd_name :: "string option"
  nd_addr :: "string option"
  nd_host :: "string option"
  nd_port :: int
  nd_role :: nat
  nd_con :: "nat option"
  nd_slots :: "nat list option"
  nd_slaves :: "nat list option"

text \<open>The fields of the context that the route uses, and the memory: the nodes and regions, the
  next free address, and the connections closed so far.\<close>

record route =
  rt_err :: cluster_error
  rt_nodes :: "(string, nat) dict option"
  rt_slots :: "nat hiarray option"
  rt_table :: "nat \<Rightarrow> nat option"
  rt_version :: nat
  rt_node :: "nat \<rightharpoonup> cluster_node"
  rt_slot :: "nat \<rightharpoonup> cluster_slot"
  rt_next :: nat
  rt_closed :: "nat list"

definition rt_fail :: "int \<Rightarrow> string \<Rightarrow> route \<Rightarrow> route" where
  "rt_fail ty s rt = rt\<lparr>rt_err := redisClusterSetError ty s (rt_err rt)\<rparr>"

definition clusterNodesDictType :: "(string, nat) dictType" where
  "clusterNodesDictType = \<lparr>hashFunction = (\<lambda>k. dictGenHashFunction k 5381), keyDup = None, valDup = None,
     keyCompare = Some (=), keyDestructor = True, valDestructor = True\<rparr>"

section \<open>Nodes and regions\<close>

definition cluster_node_init :: cluster_node where
  "cluster_node_init = \<lparr>nd_name = None, nd_addr = None, nd_host = None, nd_port = 0, nd_role = REDIS_ROLE_NULL,
     nd_con = None, nd_slots = None, nd_slaves = None\<rparr>"

definition cluster_slot_destroy :: "nat \<Rightarrow> route \<Rightarrow> route option" where
  "cluster_slot_destroy s rt = (if rt_slot rt s = None then None else Some (rt\<lparr>rt_slot := (rt_slot rt)(s := None)\<rparr>))"

text \<open>\<^verbatim>\<open>listAddNodeTail\<close> leaves the list as it is when its allocation fails.\<close>

definition add_tail :: "menv \<Rightarrow> nat \<Rightarrow> nat list \<Rightarrow> nat list" where
  "add_tail e x xs = (if can_alloc e 24 then xs @ [x] else xs)"

definition cluster_slot_create :: "menv \<Rightarrow> nat option \<Rightarrow> route \<Rightarrow> (nat option \<times> route) option" where
  "cluster_slot_create e node rt =
     (if \<not> can_alloc e 16 then Some (None, rt)
      else
        (let s = rt_next rt;
             rt = rt\<lparr>rt_slot := (rt_slot rt)(s \<mapsto> \<lparr>sl_start = 0, sl_end = 0, sl_node = node\<rparr>), rt_next := s + 1\<rparr> in
         case node of
           None \<Rightarrow> Some (Some s, rt)
         | Some a \<Rightarrow>
             do { n \<leftarrow> rt_node rt a;
                  if nd_slots n = None \<and> \<not> can_alloc e 48 then
                    do { rt \<leftarrow> cluster_slot_destroy s rt; Some (None, rt) }
                  else
                    Some (Some s, rt\<lparr>rt_node := (rt_node rt)(a \<mapsto>
                      n\<lparr>nd_slots := Some (add_tail e s (case nd_slots n of None \<Rightarrow> [] | Some l \<Rightarrow> l))\<rparr>)\<rparr>) }))"

definition cluster_slot_ref_node :: "menv \<Rightarrow> nat option \<Rightarrow> nat option \<Rightarrow> route \<Rightarrow> (bool \<times> route) option" where
  "cluster_slot_ref_node e slot node rt =
     (case (slot, node) of
        (Some s, Some a) \<Rightarrow>
          do { n \<leftarrow> rt_node rt a;
               if nd_role n \<noteq> REDIS_ROLE_MASTER then Some (False, rt)
               else if nd_slots n = None \<and> \<not> can_alloc e 48 then Some (False, rt)
               else
                 do { x \<leftarrow> rt_slot rt s;
                      Some (True, rt\<lparr>rt_node := (rt_node rt)(a \<mapsto>
                          n\<lparr>nd_slots := Some (add_tail e s (case nd_slots n of None \<Rightarrow> [] | Some l \<Rightarrow> l))\<rparr>),
                        rt_slot := (rt_slot rt)(s \<mapsto> x\<lparr>sl_node := Some a\<rparr>)\<rparr>) } }
      | _ \<Rightarrow> Some (False, rt))"

fun free_slots :: "nat list \<Rightarrow> route \<Rightarrow> route option" where
  "free_slots [] rt = Some rt"
| "free_slots (s # ss) rt = do { rt \<leftarrow> cluster_slot_destroy s rt; free_slots ss rt }"

text \<open>\<^verbatim>\<open>cluster_node_deinit\<close> and the release of the node, for a node and then its slaves; the number
  bounds the depth of the recursion.\<close>

fun free_list :: "(nat \<Rightarrow> route \<Rightarrow> route option) \<Rightarrow> nat list \<Rightarrow> route \<Rightarrow> route option" where
  "free_list f [] rt = Some rt"
| "free_list f (a # as) rt = do { rt \<leftarrow> f a rt; free_list f as rt }"

primrec node_release :: "nat \<Rightarrow> nat \<Rightarrow> route \<Rightarrow> route option" where
  "node_release 0 a rt = None"
| "node_release (Suc d) a rt =
     do { n \<leftarrow> rt_node rt a;
          let rt = rt\<lparr>rt_closed := rt_closed rt @ (case nd_con n of None \<Rightarrow> [] | Some c \<Rightarrow> [c])\<rparr>;
          rt \<leftarrow> free_slots (case nd_slots n of None \<Rightarrow> [] | Some l \<Rightarrow> l) rt;
          rt \<leftarrow> free_list (node_release d) (case nd_slaves n of None \<Rightarrow> [] | Some l \<Rightarrow> l) rt;
          Some (rt\<lparr>rt_node := (rt_node rt)(a := None)\<rparr>) }"

definition listClusterNodeDestructor :: "nat \<Rightarrow> route \<Rightarrow> route option" where
  "listClusterNodeDestructor a rt = node_release (Suc (rt_next rt)) a rt"

text \<open>\<^verbatim>\<open>dictRelease\<close> of a table of nodes calls the destructor of its values.\<close>

definition release_nodes :: "(string, nat) dict \<Rightarrow> route \<Rightarrow> route option" where
  "release_nodes d rt = free_list listClusterNodeDestructor (freed_vals (drop (length (dlog d)) (dlog (dictClear d)))) rt"

section \<open>The reply to CLUSTER SLOTS\<close>

definition elem_at :: "redisReply \<Rightarrow> nat \<Rightarrow> nat option option" where
  "elem_at r i = (case rp_element r of None \<Rightarrow> None | Some es \<Rightarrow> if i < length es then Some (es ! i) else None)"

definition reply_text :: "redisReply \<Rightarrow> string option" where
  "reply_text r =
     (let n = nat (rp_len r) in
      case rp_str r of
        None \<Rightarrow> Some (replicate n NUL)
      | Some s \<Rightarrow> if n \<le> length s then Some (take n s) else None)"

definition addr_text :: "string \<Rightarrow> int \<Rightarrow> string" where
  "addr_text ip port = ip @ '':'' @ dec_int (c_int port)"

definition node_get_with_slots :: "menv \<Rightarrow> redisReply \<Rightarrow> redisReply \<Rightarrow> nat \<Rightarrow> route \<Rightarrow> (nat option \<times> route) option" where
  "node_get_with_slots e host_elem port_elem role rt =
     (if rp_type host_elem \<noteq> REDIS_REPLY_STRING \<or> rp_len host_elem \<le> 0 then
        Some (None, rt_fail REDIS_ERR_OTHER ''Command(cluster slots) reply error: node ip is not string.'' rt)
      else if rp_type port_elem \<noteq> REDIS_REPLY_INTEGER \<or> rp_integer port_elem \<le> 0 then
        Some (None, rt_fail REDIS_ERR_OTHER ''Command(cluster slots) reply error: node port is not integer.'' rt)
      else if hi_valid_port (c_int (rp_integer port_elem)) = 0 then
        Some (None, rt_fail REDIS_ERR_OTHER ''Command(cluster slots) reply error: node port is not valid.'' rt)
      else if \<not> can_alloc e 96 then Some (None, rt_fail REDIS_ERR_OOM ''Out of memory'' rt)
      else if role = REDIS_ROLE_MASTER \<and> \<not> can_alloc e 48 then
        Some (None, rt_fail REDIS_ERR_OTHER ''slots for node listCreate error'' rt)
      else
        do { ip \<leftarrow> reply_text host_elem;
             Some (Some (rt_next rt), rt\<lparr>rt_node := (rt_node rt)(rt_next rt \<mapsto>
               cluster_node_init\<lparr>nd_slots := (if role = REDIS_ROLE_MASTER then Some [] else None),
                 nd_addr := Some (addr_text ip (rp_integer port_elem)), nd_host := Some ip,
                 nd_port := c_int (rp_integer port_elem), nd_role := role\<rparr>),
               rt_next := rt_next rt + 1\<rparr>) })"

text \<open>The variables of the loop: the table under construction, the region that is not yet in a
  list, and the current master.  An element is followed by the next one, by the next region, or
  by the error exit.\<close>

record parse =
  p_rt :: route
  p_nodes :: "(string, nat) dict"
  p_slot :: "nat option"
  p_master :: "nat option"

datatype item = Next parse | Leave parse | Abort parse

definition p_fail :: "int \<Rightarrow> string \<Rightarrow> parse \<Rightarrow> parse" where
  "p_fail ty s p = p\<lparr>p_rt := rt_fail ty s (p_rt p)\<rparr>"

definition slots_ref :: "menv \<Rightarrow> nat \<Rightarrow> (parse \<Rightarrow> item) \<Rightarrow> parse \<Rightarrow> item option" where
  "slots_ref e a k p =
     do { (ok, rt) \<leftarrow> cluster_slot_ref_node e (p_slot p) (Some a) (p_rt p);
          let p = p\<lparr>p_rt := rt, p_master := Some a\<rparr>;
          Some (if ok then k (p\<lparr>p_slot := None\<rparr>)
                else Abort (p_fail REDIS_ERR_OOM ''Slot ref node failed: out of memory.'' p)) }"

definition slots_master :: "menv \<Rightarrow> redisReply \<Rightarrow> redisReply \<Rightarrow> parse \<Rightarrow> item option" where
  "slots_master e ip port p =
     do { t \<leftarrow> reply_text ip;
          case dictFind (p_nodes p) (addr_text t (rp_integer port)) of
            DOk (Some (k, a)) \<Rightarrow> slots_ref e a Leave p
          | DOk None \<Rightarrow>
              do { (m, rt) \<leftarrow> node_get_with_slots e ip port REDIS_ROLE_MASTER (p_rt p);
                   let p = p\<lparr>p_rt := rt\<rparr>;
                   case m of
                     None \<Rightarrow> Some (Abort p)
                   | Some a \<Rightarrow>
                       do { n \<leftarrow> rt_node rt a;
                            x \<leftarrow> nd_addr n;
                            r \<leftarrow> dictAdd e (p_nodes p) x a;
                            case r of
                              DOk d \<Rightarrow> slots_ref e a Next (p\<lparr>p_nodes := d\<rparr>)
                            | DErr d \<Rightarrow>
                                do { rt \<leftarrow> listClusterNodeDestructor a
                                       (rt_fail REDIS_ERR_OTHER ''The address already exists in the nodes'' rt);
                                     Some (Abort (p\<lparr>p_rt := rt, p_nodes := d\<rparr>)) }
                            | DBad \<Rightarrow> None } }
          | _ \<Rightarrow> None }"

definition slots_slave :: "menv \<Rightarrow> redisReply \<Rightarrow> redisReply \<Rightarrow> parse \<Rightarrow> item option" where
  "slots_slave e ip port p =
     do { (s, rt) \<leftarrow> node_get_with_slots e ip port REDIS_ROLE_SLAVE (p_rt p);
          case s of
            None \<Rightarrow> Some (Abort (p\<lparr>p_rt := rt\<rparr>))
          | Some b \<Rightarrow>
              do { a \<leftarrow> p_master p;
                   n \<leftarrow> rt_node rt a;
                   if nd_slaves n = None \<and> \<not> can_alloc e 48 then
                     Some (Abort (p_fail REDIS_ERR_OOM ''Out of memory'' (p\<lparr>p_rt := rt\<rparr>)))
                   else
                     Some (Next (p\<lparr>p_rt := rt\<lparr>rt_node := (rt_node rt)(a \<mapsto>
                       n\<lparr>nd_slaves := Some (add_tail e b (case nd_slaves n of None \<Rightarrow> [] | Some l \<Rightarrow> l))\<rparr>)\<rparr>\<rparr>)) } }"

definition slots_node :: "menv \<Rightarrow> heap \<Rightarrow> bool \<Rightarrow> nat \<Rightarrow> redisReply \<Rightarrow> parse \<Rightarrow> item option" where
  "slots_node e h add_slave idx r p =
     (if rp_type r \<noteq> REDIS_REPLY_ARRAY \<or> rp_elements r \<noteq> 3 then
        Some (Abort (p_fail REDIS_ERR_OTHER ''Command(cluster slots) reply error: nodes sub_reply is not an correct array.'' p))
      else
        do { ipp \<leftarrow> elem_at r 0;
             portp \<leftarrow> elem_at r 1;
             let bad = Some (Abort (p_fail REDIS_ERR_OTHER ''Command(cluster slots) reply error: master ip or port is not correct.'' p));
             case (ipp, portp) of
               (Some a, Some b) \<Rightarrow>
                 do { ip \<leftarrow> objs h a;
                      port \<leftarrow> objs h b;
                      if rp_type ip \<noteq> REDIS_REPLY_STRING \<or> rp_type port \<noteq> REDIS_REPLY_INTEGER then bad
                      else if idx = 2 then slots_master e ip port p
                      else if add_slave then slots_slave e ip port p
                      else Some (Next p) }
             | _ \<Rightarrow> bad })"

definition set_region :: "(cluster_slot \<Rightarrow> cluster_slot) \<Rightarrow> parse \<Rightarrow> parse option" where
  "set_region f p =
     do { s \<leftarrow> p_slot p;
          x \<leftarrow> rt_slot (p_rt p) s;
          Some (p\<lparr>p_rt := (p_rt p)\<lparr>rt_slot := (rt_slot (p_rt p))(s \<mapsto> f x)\<rparr>\<rparr>) }"

definition to_u32 :: "int \<Rightarrow> nat" where
  "to_u32 i = nat (c_int i mod 4294967296)"

definition slots_item :: "menv \<Rightarrow> heap \<Rightarrow> bool \<Rightarrow> nat \<Rightarrow> nat option \<Rightarrow> parse \<Rightarrow> item option" where
  "slots_item e h add_slave idx el p =
     do { a \<leftarrow> el;
          r \<leftarrow> objs h a;
          if idx = 0 then
            (if rp_type r \<noteq> REDIS_REPLY_INTEGER then
               Some (Abort (p_fail REDIS_ERR_OTHER ''Command(cluster slots) reply error: slot begin is not an integer.'' p))
             else do { p \<leftarrow> set_region (sl_start_update (\<lambda>_. to_u32 (rp_integer r))) p; Some (Next p) })
          else if idx = 1 then
            (if rp_type r \<noteq> REDIS_REPLY_INTEGER then
               Some (Abort (p_fail REDIS_ERR_OTHER ''Command(cluster slots) reply error: slot end is not an integer.'' p))
             else
               do { p \<leftarrow> set_region (sl_end_update (\<lambda>_. to_u32 (rp_integer r))) p;
                    s \<leftarrow> p_slot p;
                    x \<leftarrow> rt_slot (p_rt p) s;
                    Some (if sl_start x > sl_end x
                          then Abort (p_fail REDIS_ERR_OTHER ''Command(cluster slots) reply error: slot begin is bigger than slot end.'' p)
                          else Next p) })
          else slots_node e h add_slave idx r p }"

fun slots_items :: "menv \<Rightarrow> heap \<Rightarrow> bool \<Rightarrow> nat \<Rightarrow> nat option list \<Rightarrow> parse \<Rightarrow> item option" where
  "slots_items e h add_slave idx [] p = Some (Next p)"
| "slots_items e h add_slave idx (el # els) p =
     do { i \<leftarrow> slots_item e h add_slave idx el p;
          case i of
            Next p \<Rightarrow> slots_items e h add_slave (idx + 1) els p
          | _ \<Rightarrow> Some i }"

definition elements :: "redisReply \<Rightarrow> nat option list option" where
  "elements r = (let es = (case rp_element r of None \<Rightarrow> [] | Some es \<Rightarrow> es) in
     if rp_elements r \<le> length es then Some (take (rp_elements r) es) else None)"

fun slots_regions :: "menv \<Rightarrow> heap \<Rightarrow> bool \<Rightarrow> nat option list \<Rightarrow> parse \<Rightarrow> item option" where
  "slots_regions e h add_slave [] p = Some (Next p)"
| "slots_regions e h add_slave (el # els) p =
     do { a \<leftarrow> el;
          r \<leftarrow> objs h a;
          if rp_type r \<noteq> REDIS_REPLY_ARRAY \<or> rp_elements r < 3 then
            Some (Abort (p_fail REDIS_ERR_OTHER ''Command(cluster slots) reply error: first sub_reply is not an array.'' p))
          else
            do { (s, rt) \<leftarrow> cluster_slot_create e None (p_rt p);
                 let p = p\<lparr>p_rt := rt, p_slot := s\<rparr>;
                 if s = None then Some (Abort (p_fail REDIS_ERR_OOM ''Slot create failed: out of memory.'' p))
                 else
                   do { es \<leftarrow> elements r;
                        i \<leftarrow> slots_items e h add_slave 0 es p;
                        case i of
                          Abort p \<Rightarrow> Some (Abort p)
                        | Leave p \<Rightarrow> slots_regions e h add_slave els p
                        | Next p \<Rightarrow> slots_regions e h add_slave els p } } }"

definition parse_cluster_slots :: "menv \<Rightarrow> heap \<Rightarrow> bool \<Rightarrow> redisReply \<Rightarrow> route \<Rightarrow> ((string, nat) dict option \<times> route) option" where
  "parse_cluster_slots e h add_slave r rt =
     (if \<not> can_alloc e 48 then None
      else if rp_type r \<noteq> REDIS_REPLY_ARRAY \<or> rp_elements r = 0 then
        Some (None, rt_fail REDIS_ERR_OTHER ''Command(cluster slots) reply error: reply is not an array.'' rt)
      else
        do { es \<leftarrow> elements r;
             i \<leftarrow> slots_regions e h add_slave es
               \<lparr>p_rt = rt, p_nodes = dictCreate clusterNodesDictType, p_slot = None, p_master = None\<rparr>;
             case i of
               Next p \<Rightarrow> Some (Some (p_nodes p), p_rt p)
             | Leave p \<Rightarrow> Some (Some (p_nodes p), p_rt p)
             | Abort p \<Rightarrow>
                 do { rt \<leftarrow> release_nodes (p_nodes p) (p_rt p);
                      rt \<leftarrow> (case p_slot p of None \<Rightarrow> Some rt | Some s \<Rightarrow> cluster_slot_destroy s rt);
                      Some (None, rt) } })"

section \<open>Replacing the route\<close>

definition cluster_slot_start_cmp :: "route \<Rightarrow> nat \<Rightarrow> nat \<Rightarrow> int" where
  "cluster_slot_start_cmp rt s t =
     (case (rt_slot rt s, rt_slot rt t) of (Some x, Some y) \<Rightarrow> if sl_start x > sl_start y then 1 else - 1 | _ \<Rightarrow> 0)"

text \<open>\<^verbatim>\<open>qsort\<close> with a comparison function.\<close>

fun sort_insert :: "('a \<Rightarrow> 'a \<Rightarrow> int) \<Rightarrow> 'a \<Rightarrow> 'a list \<Rightarrow> 'a list" where
  "sort_insert cmp x [] = [x]"
| "sort_insert cmp x (y # ys) = (if cmp x y > 0 then y # sort_insert cmp x ys else x # y # ys)"

definition hiarray_sort :: "('a \<Rightarrow> 'a \<Rightarrow> int) \<Rightarrow> 'a hiarray \<Rightarrow> 'a hiarray" where
  "hiarray_sort cmp a = a\<lparr>elem := map Some (foldr (sort_insert cmp) (hiarray_list a) []) @ drop (nelem a) (elem a)\<rparr>"

text \<open>The regions of the nodes go into one array; the store through the result of \<^verbatim>\<open>hiarray_push\<close>
  is not checked.\<close>

fun push_slots :: "menv \<Rightarrow> nat list \<Rightarrow> route \<Rightarrow> nat hiarray \<Rightarrow> (bool \<times> route \<times> nat hiarray) option" where
  "push_slots e [] rt sl = Some (True, rt, sl)"
| "push_slots e (s # ss) rt sl =
     do { x \<leftarrow> rt_slot rt s;
          if sl_start x > sl_end x \<or> sl_end x \<ge> REDIS_CLUSTER_SLOTS then
            Some (False, rt_fail REDIS_ERR_OTHER ''Slot region for node is error'' rt, sl)
          else
            (case push_store (can_alloc e) sl s of
               Some (Some sl) \<Rightarrow> push_slots e ss rt sl
             | _ \<Rightarrow> None) }"

text \<open>An iterator pointer: null, allocated, or left over after its release.\<close>

datatype iter = NoIter | LiveIter | FreedIter

definition release_iter :: "iter \<Rightarrow> bool" where
  "release_iter i \<longleftrightarrow> i \<noteq> FreedIter"

fun push_nodes :: "menv \<Rightarrow> (string \<times> nat) list \<Rightarrow> iter \<Rightarrow> route \<Rightarrow> nat hiarray \<Rightarrow> (bool \<times> iter \<times> route \<times> nat hiarray) option" where
  "push_nodes e [] lit rt sl = Some (True, lit, rt, sl)"
| "push_nodes e ((k, a) # xs) lit rt sl =
     do { n \<leftarrow> rt_node rt a;
          if nd_role n \<noteq> REDIS_ROLE_MASTER then
            Some (False, lit, rt_fail REDIS_ERR_OOM ''Node role must be master'' rt, sl)
          else
            (case nd_slots n of
               None \<Rightarrow> push_nodes e xs lit rt sl
             | Some ss \<Rightarrow>
                 if \<not> can_alloc e 16 then
                   Some (False, NoIter, rt_fail REDIS_ERR_OOM ''List get iterator failed: out of memory'' rt, sl)
                 else
                   do { (ok, rt, sl) \<leftarrow> push_slots e ss rt sl;
                        if ok then push_nodes e xs FreedIter rt sl else Some (False, LiveIter, rt, sl) }) }"

fun fill_range :: "nat option \<Rightarrow> nat \<Rightarrow> nat \<Rightarrow> (nat \<Rightarrow> nat option) \<Rightarrow> (nat \<Rightarrow> nat option) option" where
  "fill_range a 0 k t = Some t"
| "fill_range a (Suc n) k t = (if t k \<noteq> None then None else fill_range a n (k + 1) (t(k := a)))"

text \<open>The inner \<^term>\<open>None\<close> is a slot that two regions hold.\<close>

fun fill_table :: "route \<Rightarrow> nat option list \<Rightarrow> (nat \<Rightarrow> nat option) \<Rightarrow> (nat \<Rightarrow> nat option) option option" where
  "fill_table rt [] t = Some (Some t)"
| "fill_table rt (p # ps) t =
     do { s \<leftarrow> p;
          x \<leftarrow> rt_slot rt s;
          (case fill_range (sl_node x) (Suc (sl_end x) - sl_start x) (sl_start x) t of
             None \<Rightarrow> Some None
           | Some t \<Rightarrow> fill_table rt ps t) }"

text \<open>Nodes that stay keep their connection.\<close>

fun swap_ctx :: "(string, nat) dict \<Rightarrow> (string \<times> nat) list \<Rightarrow> route \<Rightarrow> route option" where
  "swap_ctx f [] rt = Some rt"
| "swap_ctx f ((k, b) # xs) rt =
     do { n \<leftarrow> rt_node rt b;
          x \<leftarrow> nd_addr n;
          case dictFind f x of
            DOk None \<Rightarrow> swap_ctx f xs rt
          | DOk (Some (k', a)) \<Rightarrow>
              do { m \<leftarrow> rt_node rt a;
                   swap_ctx f xs (if nd_con m = None then rt
                     else rt\<lparr>rt_node := (rt_node rt)(a \<mapsto> m\<lparr>nd_con := nd_con n\<rparr>, b \<mapsto> n\<lparr>nd_con := nd_con m\<rparr>)\<rparr>) }
          | _ \<Rightarrow> None }"

definition entries :: "('k, 'v) dict \<Rightarrow> ('k \<times> 'v) list option" where
  "entries d = visit (Suc (used d)) (chains d) dictGetIterator"

definition cluster_nodes_swap_ctx :: "menv \<Rightarrow> (string, nat) dict option \<Rightarrow> (string, nat) dict \<Rightarrow> route \<Rightarrow> route option" where
  "cluster_nodes_swap_ctx e f t rt =
     (case f of
        None \<Rightarrow> Some rt
      | Some f \<Rightarrow> if \<not> can_alloc e 32 then None else do { xs \<leftarrow> entries t; swap_ctx f xs rt })"

text \<open>The error exit releases the iterators that are not null, then the new nodes.\<close>

definition route_error :: "iter \<Rightarrow> iter \<Rightarrow> (string, nat) dict \<Rightarrow> route \<Rightarrow> (bool \<times> route) option" where
  "route_error dit lit d rt =
     (if release_iter dit \<and> release_iter lit then do { rt \<leftarrow> release_nodes d rt; Some (False, rt) } else None)"

definition install_route :: "menv \<Rightarrow> (string, nat) dict \<Rightarrow> nat hiarray \<Rightarrow> (nat \<Rightarrow> nat option) \<Rightarrow> route \<Rightarrow> (bool \<times> route) option" where
  "install_route e d sl t rt =
     do { rt \<leftarrow> cluster_nodes_swap_ctx e (rt_nodes rt) d rt;
          rt \<leftarrow> (case rt_nodes rt of None \<Rightarrow> Some rt | Some f \<Rightarrow> release_nodes f rt);
          Some (True, rt\<lparr>rt_nodes := Some d, rt_slots := Some sl, rt_table := t,
            rt_version := (rt_version rt + 1) mod 18446744073709551616\<rparr>) }"

text \<open>\<^verbatim>\<open>cluster_update_route_by_addr\<close> from the reply on.\<close>

definition update_route :: "menv \<Rightarrow> heap \<Rightarrow> bool \<Rightarrow> redisReply \<Rightarrow> route \<Rightarrow> (bool \<times> route) option" where
  "update_route e h add_slave reply rt =
     (if rp_type reply \<noteq> REDIS_REPLY_ARRAY then
        Some (False, rt_fail REDIS_ERR_OTHER
          (if rp_type reply = REDIS_REPLY_ERROR then (case rp_str reply of None \<Rightarrow> [] | Some s \<Rightarrow> s)
           else ''Command(cluster slots) reply error: type is not array.'') rt)
      else
        do { (nodes, rt) \<leftarrow> parse_cluster_slots e h add_slave reply rt;
             case nodes of
               None \<Rightarrow> Some (False, rt)
             | Some d \<Rightarrow>
                 (case hiarray_create (can_alloc e) (u32 (used d)) 8 of
                    None \<Rightarrow> route_error NoIter NoIter d (rt_fail REDIS_ERR_OTHER ''Slots array create failed: out of memory'' rt)
                  | Some sl \<Rightarrow>
                      if \<not> can_alloc e 32 then None
                      else
                        do { xs \<leftarrow> entries d;
                             (ok, lit, rt, sl) \<leftarrow> push_nodes e xs NoIter rt sl;
                             if \<not> ok then route_error LiveIter lit d rt
                             else
                               (let sl = hiarray_sort (cluster_slot_start_cmp rt) sl in
                                do { t \<leftarrow> fill_table rt (map (\<lambda>j. hiarray_deref sl (hiarray_get sl j)) [0..<hiarray_n sl]) (\<lambda>k. None);
                                     case t of
                                       None \<Rightarrow> route_error FreedIter lit d (rt_fail REDIS_ERR_OTHER ''Diffent node hold a same slot'' rt)
                                     | Some t \<Rightarrow> install_route e d sl t rt }) }) })"

section \<open>Looking up a slot\<close>

definition node_get_by_table :: "route \<Rightarrow> nat \<Rightarrow> nat option" where
  "node_get_by_table rt k = (if k \<ge> REDIS_CLUSTER_SLOTS then None else rt_table rt k)"

text \<open>The binary search on \<^verbatim>\<open>uint32_t\<close> bounds; the result is a node or null.\<close>

partial_function (option) search_slot :: "route \<Rightarrow> nat hiarray \<Rightarrow> nat \<Rightarrow> nat \<Rightarrow> nat \<Rightarrow> nat option option" where
  "search_slot rt sl k lo hi =
     (let stop = (lo \<ge> hi); middle = (if stop then hi else lo + (hi - lo) div 2) in
      do { s \<leftarrow> hiarray_deref sl (hiarray_get sl middle);
           x \<leftarrow> rt_slot rt s;
           if sl_start x > k then (if stop then Some None else search_slot rt sl k lo (u32 (middle + 4294967295)))
           else if sl_end x < k then (if stop then Some None else search_slot rt sl k (u32 (middle + 1)) hi)
           else Some (sl_node x) })"

definition node_get_by_slot :: "route \<Rightarrow> nat \<Rightarrow> nat option option" where
  "node_get_by_slot rt k =
     (if k \<ge> REDIS_CLUSTER_SLOTS then Some None
      else
        (case rt_slots rt of
           None \<Rightarrow> Some None
         | Some sl \<Rightarrow> search_slot rt sl k 0 (u32 (hiarray_n sl + 4294967295))))"

end
