(* ===== verification/ClusterRouteLaws.thy ===== *)
theory ClusterRouteLaws
  imports ClusterRoute
begin

text \<open>
  Laws of the routing: the nodes, regions and table made from a reply to \<^verbatim>\<open>CLUSTER SLOTS\<close>, what
  happens to the nodes and connections of the route they replace, and the agreement of the
  table with the binary search over the regions.
\<close>

section \<open>Regions of a reply\<close>

text \<open>A region of slots with its master, the last element of the master's entry, and the entries of
  the replicas.\<close>

record region =
  g_start :: nat
  g_end :: nat
  g_ip :: string
  g_port :: int
  g_id :: reply
  g_replicas :: "(string \<times> int \<times> reply) list"

definition node_reply :: "string \<times> int \<times> reply \<Rightarrow> reply" where
  "node_reply x = (case x of (ip, port, i) \<Rightarrow> RArray [RString ip, RInteger port, i])"

definition region_reply :: "region \<Rightarrow> reply" where
  "region_reply g = RArray (RInteger (int (g_start g)) # RInteger (int (g_end g)) #
     node_reply (g_ip g, g_port g, g_id g) # map node_reply (g_replicas g))"

definition good_region :: "region \<Rightarrow> bool" where
  "good_region g \<longleftrightarrow> g_start g \<le> g_end g \<and> g_end g < REDIS_CLUSTER_SLOTS \<and> g_ip g \<noteq> [] \<and> 1 \<le> g_port g \<and> g_port g \<le> 65535"

abbreviation g_key :: "region \<Rightarrow> string" where
  "g_key g \<equiv> addr_text (g_ip g) (g_port g)"

definition g_covers :: "region \<Rightarrow> nat \<Rightarrow> bool" where
  "g_covers g k \<longleftrightarrow> g_start g \<le> k \<and> k \<le> g_end g"

section \<open>Reading replies\<close>

lemma elements_array [simp]: "elements (array_cell es) = Some es"
  by (simp add: elements_def array_cell_def)

lemma elem_at_array [simp]: "i < length es \<Longrightarrow> elem_at (array_cell es) i = Some (es ! i)"
  by (auto simp: elem_at_def array_cell_def)

lemma reply_text_string [simp]: "reply_text (string_cell ty s) = Some s"
  by (simp add: reply_text_def string_cell_def)

lemma string_cell_sel [simp]: "rp_type (string_cell ty s) = ty" "rp_len (string_cell ty s) = int (length s)"
  by (simp_all add: string_cell_def zeroed_def)

lemma zeroed_type [simp]: "rp_type (zeroed ty) = ty"
  by (simp add: zeroed_def)

lemma node_item:
  assumes "rep (objs h) a (node_reply (ip, port, i))"
  shows "\<exists>r u v. objs h a = Some r \<and> objs h u = Some (string_cell REDIS_REPLY_STRING ip) \<and>
    objs h v = Some ((zeroed REDIS_REPLY_INTEGER)\<lparr>rp_integer := port\<rparr>) \<and>
    (\<forall>e add_slave idx p. slots_node e h add_slave idx r p =
      (if idx = 2 then slots_master e (string_cell REDIS_REPLY_STRING ip) ((zeroed REDIS_REPLY_INTEGER)\<lparr>rp_integer := port\<rparr>) p
       else if add_slave then slots_slave e (string_cell REDIS_REPLY_STRING ip) ((zeroed REDIS_REPLY_INTEGER)\<lparr>rp_integer := port\<rparr>) p
       else Some (Next p)))"
  using assms by (auto simp: node_reply_def slots_node_def)

lemma replica_items:
  "reps (objs h) b (map node_reply xs) \<Longrightarrow> 2 < idx \<Longrightarrow>
    slots_items e h False idx (map Some (addrs b (map node_reply xs))) p = Some (Next p)"
proof (induction xs arbitrary: b idx)
  case (Cons x xs)
  obtain ip port i where x: "x = (ip, port, i)" by (cases x)
  from Cons.prems(1) have "rep (objs h) b (node_reply (ip, port, i))" by (simp add: x)
  from node_item [OF this] obtain r where "objs h b = Some r"
    "\<forall>e add_slave idx p. slots_node e h add_slave idx r p =
      (if idx = 2 then slots_master e (string_cell REDIS_REPLY_STRING ip) ((zeroed REDIS_REPLY_INTEGER)\<lparr>rp_integer := port\<rparr>) p
       else if add_slave then slots_slave e (string_cell REDIS_REPLY_STRING ip) ((zeroed REDIS_REPLY_INTEGER)\<lparr>rp_integer := port\<rparr>) p
       else Some (Next p))" by blast
  then have "slots_item e h False idx (Some b) p = Some (Next p)"
    using Cons.prems(2) by (simp add: slots_item_def)
  then show ?case using Cons by simp
qed simp

text \<open>A region up to its master: the new slot record has the bounds, and the entry of the master
  decides how to go on.\<close>

lemma to_u32_nat: "n < 2147483648 \<Longrightarrow> to_u32 (int n) = n"
  by (simp add: to_u32_def c_int_id)

definition opened :: "region \<Rightarrow> parse \<Rightarrow> parse" where
  "opened g p = (let s = rt_next (p_rt p) in
     p\<lparr>p_rt := (p_rt p)\<lparr>rt_slot := (rt_slot (p_rt p))(s \<mapsto> \<lparr>sl_start = g_start g, sl_end = g_end g, sl_node = None\<rparr>),
       rt_next := s + 1\<rparr>, p_slot := Some s\<rparr>)"

definition ip_cell :: "region \<Rightarrow> redisReply" where
  "ip_cell g = string_cell REDIS_REPLY_STRING (g_ip g)"

definition port_cell :: "region \<Rightarrow> redisReply" where
  "port_cell g = (zeroed REDIS_REPLY_INTEGER)\<lparr>rp_integer := g_port g\<rparr>"

lemma bounds_items:
  assumes "objs h a = Some ((zeroed REDIS_REPLY_INTEGER)\<lparr>rp_integer := int (g_start g)\<rparr>)"
    "objs h b = Some ((zeroed REDIS_REPLY_INTEGER)\<lparr>rp_integer := int (g_end g)\<rparr>)" "good_region g"
    "p_slot p = Some s" "rt_slot (p_rt p) s = Some \<lparr>sl_start = 0, sl_end = 0, sl_node = None\<rparr>"
  shows "slots_items e h False 0 (Some a # Some b # els) p =
    slots_items e h False 2 els (p\<lparr>p_rt := (p_rt p)\<lparr>rt_slot := (rt_slot (p_rt p))(s \<mapsto>
      \<lparr>sl_start = g_start g, sl_end = g_end g, sl_node = None\<rparr>)\<rparr>\<rparr>)"
proof -
  have u: "to_u32 (int (g_start g)) = g_start g" "to_u32 (int (g_end g)) = g_end g" "\<not> g_end g < g_start g"
    using assms(3) by (simp_all add: good_region_def to_u32_nat)
  show ?thesis using assms(1,2,4,5) u by (simp add: slots_item_def set_region_def numeral_2_eq_2)
qed

lemma region_items:
  assumes "rep (objs h) a (region_reply g)" "good_region g" "\<And>n. can_alloc e n"
  shows "slots_regions e h False (Some a # els) p =
    do { i \<leftarrow> slots_master e (ip_cell g) (port_cell g) (opened g p);
         case i of
           Abort p \<Rightarrow> Some (Abort p)
         | Leave p \<Rightarrow> slots_regions e h False els p
         | Next p \<Rightarrow> slots_regions e h False els p }"
proof -
  let ?vs = "RInteger (int (g_start g)) # RInteger (int (g_end g)) # node_reply (g_ip g, g_port g, g_id g) # map node_reply (g_replicas g)"
  let ?c = "cost (node_reply (g_ip g, g_port g, g_id g))"
  obtain u v w x where ad: "addrs (a + 2) ?vs = u # v # w # addrs x (map node_reply (g_replicas g))"
    and ob: "objs h u = Some ((zeroed REDIS_REPLY_INTEGER)\<lparr>rp_integer := int (g_start g)\<rparr>)"
    "objs h v = Some ((zeroed REDIS_REPLY_INTEGER)\<lparr>rp_integer := int (g_end g)\<rparr>)"
    "rep (objs h) w (node_reply (g_ip g, g_port g, g_id g))"
    "reps (objs h) x (map node_reply (g_replicas g))"
    using assms(1) by (auto simp: region_reply_def)
  have oa: "objs h a = Some (array_cell (Some u # Some v # Some w # map Some (addrs x (map node_reply (g_replicas g)))))"
  proof -
    have "objs h a = Some (array_cell (map Some (addrs (a + 2) ?vs)))"
      using assms(1) unfolding region_reply_def rep.simps by (rule conjunct1)
    then show ?thesis unfolding ad by simp
  qed
  obtain r where r: "objs h w = Some r" "\<forall>e add_slave idx p. slots_node e h add_slave idx r p =
      (if idx = 2 then slots_master e (string_cell REDIS_REPLY_STRING (g_ip g)) ((zeroed REDIS_REPLY_INTEGER)\<lparr>rp_integer := g_port g\<rparr>) p
       else if add_slave then slots_slave e (string_cell REDIS_REPLY_STRING (g_ip g)) ((zeroed REDIS_REPLY_INTEGER)\<lparr>rp_integer := g_port g\<rparr>) p
       else Some (Next p))"
    using node_item [OF ob(3)] by blast
  have m: "slots_item e h False 2 (Some w) q = slots_master e (ip_cell g) (port_cell g) q" for q
    using r by (simp add: slots_item_def ip_cell_def port_cell_def)
  let ?q = "p\<lparr>p_rt := (p_rt p)\<lparr>rt_slot := (rt_slot (p_rt p))(rt_next (p_rt p) \<mapsto> \<lparr>sl_start = 0, sl_end = 0, sl_node = None\<rparr>),
      rt_next := rt_next (p_rt p) + 1\<rparr>, p_slot := Some (rt_next (p_rt p))\<rparr>"
  let ?els = "map Some (addrs x (map node_reply (g_replicas g)))"
  have "slots_items e h False 0 (Some u # Some v # Some w # ?els) ?q = slots_items e h False 2 (Some w # ?els) (opened g p)"
  proof -
    have "?q\<lparr>p_rt := (p_rt ?q)\<lparr>rt_slot := (rt_slot (p_rt ?q))(rt_next (p_rt p) \<mapsto>
        \<lparr>sl_start = g_start g, sl_end = g_end g, sl_node = None\<rparr>)\<rparr>\<rparr> = opened g p"
      by (auto simp: opened_def Let_def intro!: parse.equality route.equality)
    then show ?thesis
      using bounds_items [OF ob(1,2) assms(2), of ?q "rt_next (p_rt p)" e "Some w # ?els"] by (simp del: slots_items.simps)
  qed
  also have "\<dots> = do { i \<leftarrow> slots_master e (ip_cell g) (port_cell g) (opened g p); Some i }"
    using m replica_items [OF ob(4)] by (auto split: Option.bind_splits item.splits)
  finally have it: "slots_items e h False 0 (Some u # Some v # Some w # ?els) ?q = slots_master e (ip_cell g) (port_cell g) (opened g p)"
    by simp
  have "slots_regions e h False (Some a # els) p =
      do { i \<leftarrow> slots_items e h False 0 (Some u # Some v # Some w # ?els) ?q;
           case i of
             Abort p \<Rightarrow> Some (Abort p)
           | Leave p \<Rightarrow> slots_regions e h False els p
           | Next p \<Rightarrow> slots_regions e h False els p }"
    using oa assms(3) by (simp add: cluster_slot_create_def Let_def del: slots_items.simps)
  then show ?thesis unfolding it .
qed

section \<open>Tables of nodes\<close>

text \<open>A table \<open>d\<close> holds the regions \<open>zs\<close>, each with the address of its slot record: for every address
  text one master with its regions in order and the connection \<open>con\<close>, all between the addresses
  \<open>b\<close> and \<open>c\<close>.\<close>

definition node_for :: "region \<Rightarrow> nat list \<Rightarrow> nat option \<Rightarrow> cluster_node \<Rightarrow> bool" where
  "node_for g ss con n \<longleftrightarrow> nd_addr n = Some (g_key g) \<and> nd_host n = Some (g_ip g) \<and> nd_port n = g_port g \<and>
     nd_role n = REDIS_ROLE_MASTER \<and> nd_con n = con \<and> nd_slots n = Some ss \<and> nd_slaves n = None"

definition slots_of :: "(region \<times> nat) list \<Rightarrow> string \<Rightarrow> nat list" where
  "slots_of zs x = map snd (filter (\<lambda>z. g_key (fst z) = x) zs)"

abbreviation zkeys :: "(region \<times> nat) list \<Rightarrow> string set" where
  "zkeys zs \<equiv> (\<lambda>z. g_key (fst z)) ` set zs"

definition holds :: "nat \<Rightarrow> nat \<Rightarrow> (nat \<rightharpoonup> cluster_node) \<Rightarrow> (nat \<rightharpoonup> cluster_slot) \<Rightarrow> (string \<Rightarrow> nat option) \<Rightarrow>
    (string, nat) dict \<Rightarrow> (region \<times> nat) list \<Rightarrow> bool" where
  "holds b c N S con d zs \<longleftrightarrow>
     dict_inv d \<and> dtype d = clusterNodesDictType \<and> dlog d = [] \<and> distinct (map snd zs) \<and>
     dom (dict_abs d) = zkeys zs \<and> inj_on (dict_abs d) (zkeys zs) \<and>
     (\<forall>g s. (g, s) \<in> set zs \<longrightarrow> b \<le> s \<and> s < c \<and>
        S s = Some \<lparr>sl_start = g_start g, sl_end = g_end g, sl_node = dict_abs d (g_key g)\<rparr>) \<and>
     (\<forall>x a. dict_abs d x = Some a \<longrightarrow> b \<le> a \<and> a < c \<and>
        (\<exists>g n. g \<in> fst ` set zs \<and> g_key g = x \<and> N a = Some n \<and> node_for g (slots_of zs x) (con x) n))"

lemma holds_slotD:
  assumes "holds b c N S con d zs" "(g, s) \<in> set zs"
  shows "b \<le> s" "s < c" "S s = Some \<lparr>sl_start = g_start g, sl_end = g_end g, sl_node = dict_abs d (g_key g)\<rparr>"
  using assms unfolding holds_def by blast+

lemma holds_nodeD:
  assumes "holds b c N S con d zs" "dict_abs d x = Some a"
  shows "b \<le> a" "a < c" "\<exists>g n. g \<in> fst ` set zs \<and> g_key g = x \<and> N a = Some n \<and> node_for g (slots_of zs x) (con x) n"
  using assms unfolding holds_def by blast+

lemma holds_dictD:
  assumes "holds b c N S con d zs"
  shows "dict_inv d" "dtype d = clusterNodesDictType" "dlog d = []" "distinct (map snd zs)"
    "dom (dict_abs d) = zkeys zs" "inj_on (dict_abs d) (zkeys zs)"
  using assms unfolding holds_def by blast+

lemma holdsI:
  assumes "dict_inv d" "dtype d = clusterNodesDictType" "dlog d = []" "distinct (map snd zs)"
    "dom (dict_abs d) = zkeys zs" "inj_on (dict_abs d) (zkeys zs)"
    and "\<And>g s. (g, s) \<in> set zs \<Longrightarrow> b \<le> s \<and> s < c \<and>
      S s = Some \<lparr>sl_start = g_start g, sl_end = g_end g, sl_node = dict_abs d (g_key g)\<rparr>"
    and "\<And>x a. dict_abs d x = Some a \<Longrightarrow> b \<le> a \<and> a < c \<and>
      (\<exists>g n. g \<in> fst ` set zs \<and> g_key g = x \<and> N a = Some n \<and> node_for g (slots_of zs x) (con x) n)"
  shows "holds b c N S con d zs"
  using assms unfolding holds_def by blast

lemma holds_frame:
  assumes h: "holds b c N S con d zs" and "c \<le> c'" "\<And>a. b \<le> a \<Longrightarrow> a < c \<Longrightarrow> N' a = N a" "\<And>a. b \<le> a \<Longrightarrow> a < c \<Longrightarrow> S' a = S a"
  shows "holds b c' N' S' con d zs"
proof (rule holdsI [OF holds_dictD [OF h]])
  show "b \<le> s \<and> s < c' \<and> S' s = Some \<lparr>sl_start = g_start g, sl_end = g_end g, sl_node = dict_abs d (g_key g)\<rparr>"
    if "(g, s) \<in> set zs" for g s
    using holds_slotD [OF h that] assms(2) assms(4) [of s] by simp
  show "b \<le> a \<and> a < c' \<and> (\<exists>g n. g \<in> fst ` set zs \<and> g_key g = x \<and> N' a = Some n \<and> node_for g (slots_of zs x) (con x) n)"
    if "dict_abs d x = Some a" for x a
    using holds_nodeD [OF h that] assms(2) assms(3) [of a] by simp
qed

lemma slots_of_append: "slots_of (zs @ [(g, s)]) x = slots_of zs x @ (if g_key g = x then [s] else [])"
  by (simp add: slots_of_def)

lemma empty_holds: "holds b c N S con (dictCreate clusterNodesDictType) []"
proof -
  have "plain clusterNodesDictType" by (simp add: plain_def clusterNodesDictType_def dup_def)
  from create_inv(1) [OF this] create_inv(2) [of clusterNodesDictType] show ?thesis
    by (intro holdsI) (simp_all add: dictCreate_def)
qed

text \<open>Another region of a known master, and a region of a new master.\<close>

lemma holds_old:
  assumes "holds b c N S con d zs" "dict_abs d (g_key g) = Some a" "b \<le> c" "N a = Some n" "nd_slots n = Some l"
  shows "holds b (Suc c) (N(a \<mapsto> n\<lparr>nd_slots := Some (l @ [c])\<rparr>))
    (S(c \<mapsto> \<lparr>sl_start = g_start g, sl_end = g_end g, sl_node = Some a\<rparr>)) con d (zs @ [(g, c)])"
proof -
  have new: "c \<notin> set (map snd zs)" using holds_slotD(2) [OF assms(1)] by fastforce
  have key: "g_key g \<in> zkeys zs" using holds_dictD(5) [OF assms(1)] assms(2) by (metis domI)
  have nodes: "b \<le> a' \<and> a' < Suc c \<and> (\<exists>g' n'. g' \<in> fst ` set (zs @ [(g, c)]) \<and> g_key g' = x \<and>
      (N(a \<mapsto> n\<lparr>nd_slots := Some (l @ [c])\<rparr>)) a' = Some n' \<and> node_for g' (slots_of (zs @ [(g, c)]) x) (con x) n')"
    if x: "dict_abs d x = Some a'" for x a'
  proof -
    obtain g' n' where o: "g' \<in> fst ` set zs" "g_key g' = x" "N a' = Some n'" "node_for g' (slots_of zs x) (con x) n'"
      "b \<le> a'" "a' < c"
      using holds_nodeD [OF assms(1) x] by blast
    have xz: "x \<in> zkeys zs" using o(1,2) by force
    have "a' = a \<longleftrightarrow> x = g_key g"
      using inj_onD [OF holds_dictD(6) [OF assms(1)] _ xz key] assms(2) x by auto
    moreover have "g' \<in> fst ` set (zs @ [(g, c)])" using o(1) by simp
    ultimately show ?thesis
      using o(2-6) assms(4,5) unfolding slots_of_append
      by (intro conjI exI [of _ g'] exI [of _ "if x = g_key g then n\<lparr>nd_slots := Some (l @ [c])\<rparr> else n'"]) (auto simp: node_for_def)
  qed
  have z: "zkeys (zs @ [(g, c)]) = zkeys zs" using key by (simp add: insert_absorb)
  note D = holds_dictD [OF assms(1)]
  show ?thesis
  proof (rule holdsI [OF D(1-3)])
    show "b \<le> s \<and> s < Suc c \<and> (S(c \<mapsto> \<lparr>sl_start = g_start g, sl_end = g_end g, sl_node = Some a\<rparr>)) s =
        Some \<lparr>sl_start = g_start g', sl_end = g_end g', sl_node = dict_abs d (g_key g')\<rparr>"
      if s: "(g', s) \<in> set (zs @ [(g, c)])" for g' s
    proof (cases "(g', s) \<in> set zs")
      case True
      then show ?thesis using holds_slotD [OF assms(1) True] by simp
    qed (use s assms(2,3) in simp)
  qed (use new D(4-6) nodes in \<open>simp_all add: z del: set_append\<close>)
qed

lemma holds_new:
  assumes "holds b c N S con d zs" "dict_abs d (g_key g) = None" "b \<le> c"
    and "table_ok d'" "dict_abs d' = (dict_abs d)(g_key g \<mapsto> Suc c)" "dlog d' = dlog d" "dtype d' = dtype d"
    and "node_for g [c] (con (g_key g)) n"
  shows "holds b (Suc (Suc c)) (N(Suc c \<mapsto> n))
    (S(c \<mapsto> \<lparr>sl_start = g_start g, sl_end = g_end g, sl_node = Some (Suc c)\<rparr>)) con d' (zs @ [(g, c)])"
proof -
  have new: "c \<notin> set (map snd zs)" using holds_slotD(2) [OF assms(1)] by fastforce
  have key: "g_key g \<notin> zkeys zs" using holds_dictD(5) [OF assms(1)] assms(2) by (metis domIff)
  have none: "slots_of zs (g_key g) = []" using key by (force simp: slots_of_def filter_empty_conv)
  have nodes: "b \<le> a' \<and> a' < Suc (Suc c) \<and> (\<exists>g' n'. g' \<in> fst ` set (zs @ [(g, c)]) \<and> g_key g' = x \<and>
      (N(Suc c \<mapsto> n)) a' = Some n' \<and> node_for g' (slots_of (zs @ [(g, c)]) x) (con x) n')"
    if x: "dict_abs d' x = Some a'" for x a'
  proof (cases "x = g_key g")
    case True
    then show ?thesis using x assms(3,5,8) none by (auto simp: slots_of_append)
  next
    case False
    then have "dict_abs d x = Some a'" using x assms(5) by simp
    note o = holds_nodeD [OF assms(1) this]
    then obtain g' n' where "g' \<in> fst ` set zs" "g_key g' = x" "N a' = Some n'" "node_for g' (slots_of zs x) (con x) n'" by blast
    then show ?thesis using o(1,2) False unfolding slots_of_append
      by (intro conjI exI [of _ g'] exI [of _ n']) auto
  qed
  have "inj_on (dict_abs d') (zkeys (zs @ [(g, c)]))"
  proof -
    have "dict_abs d x \<noteq> Some (Suc c)" for x using holds_nodeD(2) [OF assms(1)] by fastforce
    then have out: "Some (Suc c) \<notin> dict_abs d ` zkeys zs" by (auto dest!: sym [of "Some (Suc c)"])
    then have "inj_on (dict_abs d') (zkeys zs)"
      unfolding assms(5) by (rule inj_on_fun_updI [OF holds_dictD(6) [OF assms(1)]])
    moreover have "dict_abs d' ` (zkeys zs - {g_key g}) \<subseteq> dict_abs d ` zkeys zs" unfolding assms(5) by auto
    ultimately show ?thesis using out unfolding assms(5) by auto
  qed
  moreover have "dom (dict_abs d') = zkeys (zs @ [(g, c)])" using holds_dictD(5) [OF assms(1)] assms(5) by simp
  moreover have "dict_inv d'" using holds_dictD(1) [OF assms(1)] assms(4,7) by (simp add: dict_inv_def)
  moreover have "(S(c \<mapsto> \<lparr>sl_start = g_start g, sl_end = g_end g, sl_node = Some (Suc c)\<rparr>)) s =
      Some \<lparr>sl_start = g_start g', sl_end = g_end g', sl_node = dict_abs d' (g_key g')\<rparr> \<and> b \<le> s \<and> s < Suc (Suc c)"
    if z: "(g', s) \<in> set (zs @ [(g, c)])" for g' s
  proof (cases "(g', s) \<in> set zs")
    case True
    then have "g_key g' \<noteq> g_key g" using key by force
    then show ?thesis using holds_slotD [OF assms(1) True] assms(5) by auto
  qed (use z assms(3,5) in auto)
  moreover have "distinct (map snd (zs @ [(g, c)]))" using new holds_dictD(4) [OF assms(1)] by simp
  moreover have "dtype d' = clusterNodesDictType" "dlog d' = []" using holds_dictD(2,3) [OF assms(1)] assms(6,7) by simp_all
  ultimately show ?thesis
    using nodes by (intro holdsI) blast+
qed

section \<open>Parsing the reply\<close>

text \<open>Nothing below address \<open>b\<close> and nothing of the context changes.\<close>

definition grown :: "nat \<Rightarrow> route \<Rightarrow> route \<Rightarrow> bool" where
  "grown b rt rt' \<longleftrightarrow> (\<forall>a < b. rt_node rt' a = rt_node rt a \<and> rt_slot rt' a = rt_slot rt a) \<and>
     rt_next rt \<le> rt_next rt' \<and> rt_err rt' = rt_err rt \<and> rt_nodes rt' = rt_nodes rt \<and> rt_slots rt' = rt_slots rt \<and>
     rt_table rt' = rt_table rt \<and> rt_version rt' = rt_version rt \<and> rt_closed rt' = rt_closed rt"

definition mem_ok :: "route \<Rightarrow> bool" where
  "mem_ok rt \<longleftrightarrow> (\<forall>a. rt_next rt \<le> a \<longrightarrow> rt_node rt a = None \<and> rt_slot rt a = None)"

lemma grown_refl: "grown b rt rt"
  by (simp add: grown_def)

lemma grown_trans: "grown b rt rt' \<Longrightarrow> grown b rt' rt'' \<Longrightarrow> grown b rt rt''"
  by (simp add: grown_def)

lemma slots_ref_ok:
  assumes "rt_node (p_rt p) a = Some n" "nd_role n = REDIS_ROLE_MASTER" "nd_slots n = Some l" "p_slot p = Some s"
    "rt_slot (p_rt p) s = Some x" "\<And>n. can_alloc e n"
  shows "slots_ref e a k p = Some (k (p\<lparr>p_rt := (p_rt p)\<lparr>rt_node := (rt_node (p_rt p))(a \<mapsto> n\<lparr>nd_slots := Some (l @ [s])\<rparr>),
    rt_slot := (rt_slot (p_rt p))(s \<mapsto> x\<lparr>sl_node := Some a\<rparr>)\<rparr>, p_master := Some a, p_slot := None\<rparr>))"
  using assms by (simp add: slots_ref_def cluster_slot_ref_node_def add_tail_def)

text \<open>The state of the loop between two regions.\<close>

definition parsed :: "nat \<Rightarrow> route \<Rightarrow> (region \<times> nat) list \<Rightarrow> parse \<Rightarrow> bool" where
  "parsed b rt0 zs p \<longleftrightarrow> p_slot p = None \<and> grown b rt0 (p_rt p) \<and> mem_ok (p_rt p) \<and> b \<le> rt_next (p_rt p) \<and>
     holds b (rt_next (p_rt p)) (rt_node (p_rt p)) (rt_slot (p_rt p)) (\<lambda>x. None) (p_nodes p) zs"

lemma used_card:
  assumes "dict_inv d"
  shows "used d = card (dom (dict_abs d))"
proof -
  have "used d = length (concat (chains d))" using assms by (auto simp: dict_inv_def elim!: table_okE)
  also have "\<dots> = card (set (map fst (concat (chains d))))" using distinct_card [OF inv_distinct [OF assms]] by simp
  also have "set (map fst (concat (chains d))) = dom (dict_abs d)" by (simp add: dict_abs_def dom_map_of_conv_image_fst)
  finally show ?thesis .
qed

lemma holds_used: "holds b c N S con d zs \<Longrightarrow> used d \<le> length zs"
proof -
  assume h: "holds b c N S con d zs"
  have "used d = card (zkeys zs)" using used_card [OF holds_dictD(1) [OF h]] holds_dictD(5) [OF h] by simp
  also have "\<dots> \<le> card (set zs)" by (rule card_image_le) simp
  also have "\<dots> \<le> length zs" by (rule card_length)
  finally show ?thesis .
qed

lemma region_step_old:
  assumes p: "parsed b rt0 zs p" and "good_region g" "\<And>n. can_alloc e n" "dict_abs (p_nodes p) (g_key g) = Some a"
  shows "\<exists>p'. slots_master e (ip_cell g) (port_cell g) (opened g p) = Some (Leave p') \<and> parsed b rt0 (zs @ [(g, rt_next (p_rt p))]) p'"
proof -
  let ?c = "rt_next (p_rt p)"
  have h: "holds b ?c (rt_node (p_rt p)) (rt_slot (p_rt p)) (\<lambda>x. None) (p_nodes p) zs" and bc: "b \<le> ?c"
    using p by (simp_all add: parsed_def)
  obtain g' n where n: "rt_node (p_rt p) a = Some n" "node_for g' (slots_of zs (g_key g)) None n"
    using holds_nodeD(3) [OF h assms(4)] by blast
  have ab: "b \<le> a" "a < ?c" using holds_nodeD(1,2) [OF h assms(4)] .
  let ?l = "slots_of zs (g_key g)"
  let ?p = "(opened g p)\<lparr>p_rt := (p_rt (opened g p))\<lparr>rt_node := (rt_node (p_rt p))(a \<mapsto> n\<lparr>nd_slots := Some (?l @ [?c])\<rparr>),
    rt_slot := (rt_slot (p_rt p))(?c \<mapsto> \<lparr>sl_start = g_start g, sl_end = g_end g, sl_node = Some a\<rparr>)\<rparr>, p_master := Some a, p_slot := None\<rparr>"
  have "slots_master e (ip_cell g) (port_cell g) (opened g p) = slots_ref e a Leave (opened g p)"
    using find_refines [OF holds_dictD(1) [OF h], of "g_key g"] assms(4)
    by (simp add: slots_master_def ip_cell_def port_cell_def opened_def Let_def)
  also have "\<dots> = Some (Leave ?p)"
    using n assms(3) by (subst slots_ref_ok [where n = n and l = ?l and s = ?c and x = "\<lparr>sl_start = g_start g, sl_end = g_end g, sl_node = None\<rparr>"])
      (simp_all add: opened_def Let_def node_for_def)
  finally have m: "slots_master e (ip_cell g) (port_cell g) (opened g p) = Some (Leave ?p)" .
  have "holds b (Suc ?c) ((rt_node (p_rt p))(a \<mapsto> n\<lparr>nd_slots := Some (?l @ [?c])\<rparr>))
      ((rt_slot (p_rt p))(?c \<mapsto> \<lparr>sl_start = g_start g, sl_end = g_end g, sl_node = Some a\<rparr>)) (\<lambda>x. None) (p_nodes p) (zs @ [(g, ?c)])"
    using holds_old [OF h assms(4) bc n(1)] n(2) by (simp add: node_for_def)
  then have "parsed b rt0 (zs @ [(g, ?c)]) ?p"
    using p ab bc by (auto simp: parsed_def opened_def Let_def grown_def mem_ok_def)
  with m show ?thesis by blast
qed

lemma region_step_new:
  assumes p: "parsed b rt0 zs p" and "good_region g" "\<And>n. can_alloc e n" "dict_abs (p_nodes p) (g_key g) = None"
    and "length zs < 2147483648"
  shows "\<exists>p'. slots_master e (ip_cell g) (port_cell g) (opened g p) = Some (Next p') \<and> parsed b rt0 (zs @ [(g, rt_next (p_rt p))]) p'"
proof -
  let ?c = "rt_next (p_rt p)"
  have h: "holds b ?c (rt_node (p_rt p)) (rt_slot (p_rt p)) (\<lambda>x. None) (p_nodes p) zs" and bc: "b \<le> ?c"
    using p by (simp_all add: parsed_def)
  have "used (p_nodes p) < 2147483648" using holds_used [OF h] assms(5) by simp
  from add_absent [OF holds_dictD(1) [OF h] assms(3) this assms(4), of "Suc ?c"]
  obtain d where d: "dictAdd e (p_nodes p) (g_key g) (Suc ?c) = Some (DOk d)" "table_ok d"
    "dict_abs d = (dict_abs (p_nodes p))(g_key g \<mapsto> Suc ?c)" "dlog d = dlog (p_nodes p)" "dtype d = dtype (p_nodes p)"
    by blast
  let ?n = "cluster_node_init\<lparr>nd_slots := Some [], nd_addr := Some (g_key g), nd_host := Some (g_ip g), nd_port := g_port g,
    nd_role := REDIS_ROLE_MASTER\<rparr>"
  let ?rt = "(p_rt (opened g p))\<lparr>rt_node := (rt_node (p_rt p))(Suc ?c \<mapsto> ?n), rt_next := Suc (Suc ?c)\<rparr>"
  have cp: "c_int (g_port g) = g_port g" using assms(2) by (simp add: good_region_def c_int_id)
  have get: "node_get_with_slots e (ip_cell g) (port_cell g) REDIS_ROLE_MASTER (p_rt (opened g p)) = Some (Some (Suc ?c), ?rt)"
    using assms(2,3) cp
    by (simp add: node_get_with_slots_def ip_cell_def port_cell_def good_region_def hi_valid_port_def opened_def Let_def)
  let ?p = "(opened g p)\<lparr>p_rt := ?rt\<lparr>rt_node := (rt_node (p_rt p))(Suc ?c \<mapsto> ?n\<lparr>nd_slots := Some [?c]\<rparr>),
    rt_slot := (rt_slot (p_rt p))(?c \<mapsto> \<lparr>sl_start = g_start g, sl_end = g_end g, sl_node = Some (Suc ?c)\<rparr>)\<rparr>,
    p_nodes := d, p_master := Some (Suc ?c), p_slot := None\<rparr>"
  have ref: "slots_ref e (Suc ?c) Next ((opened g p)\<lparr>p_rt := ?rt, p_nodes := d\<rparr>) = Some (Next ?p)"
    using assms(3) by (subst slots_ref_ok [where n = ?n and l = "[]" and s = ?c and x = "\<lparr>sl_start = g_start g, sl_end = g_end g, sl_node = None\<rparr>"])
      (simp_all add: opened_def Let_def cluster_node_init_def)
  have m: "slots_master e (ip_cell g) (port_cell g) (opened g p) = Some (Next ?p)"
  proof -
    have "p_nodes (opened g p) = p_nodes p" by (simp add: opened_def Let_def)
    then show ?thesis
      using find_refines [OF holds_dictD(1) [OF h], of "g_key g"] assms(4) get d(1) ref
      by (simp add: slots_master_def reply_text_string ip_cell_def port_cell_def Let_def)
  qed
  have "holds b (Suc (Suc ?c)) ((rt_node (p_rt p))(Suc ?c \<mapsto> ?n\<lparr>nd_slots := Some [?c]\<rparr>))
      ((rt_slot (p_rt p))(?c \<mapsto> \<lparr>sl_start = g_start g, sl_end = g_end g, sl_node = Some (Suc ?c)\<rparr>)) (\<lambda>x. None) d (zs @ [(g, ?c)])"
    using d by (intro holds_new [OF h assms(4) bc]) (simp_all add: node_for_def cluster_node_init_def)
  then have "parsed b rt0 (zs @ [(g, ?c)]) ?p"
    using p bc by (auto simp: parsed_def opened_def Let_def grown_def mem_ok_def)
  with m show ?thesis by blast
qed

lemma regions_parsed:
  "\<lbrakk>reps (objs h) u (map region_reply gs); \<forall>g \<in> set gs. good_region g; \<And>n. can_alloc e n; parsed b rt0 zs p;
    length zs + length gs < 2147483648\<rbrakk> \<Longrightarrow>
    \<exists>p' ys. slots_regions e h False (map Some (addrs u (map region_reply gs))) p = Some (Next p') \<and> map fst ys = gs \<and>
      parsed b rt0 (zs @ ys) p'"
proof (induction gs arbitrary: u zs p)
  case Nil
  then show ?case by (intro exI [of _ p] exI [of _ "[]"]) simp
next
  case (Cons g gs)
  let ?z = "(g, rt_next (p_rt p))" and ?els = "map Some (addrs (u + cost (region_reply g)) (map region_reply gs))"
  have gg: "good_region g" "rep (objs h) u (region_reply g)" "length zs < 2147483648" using Cons.prems by simp_all
  obtain i p1 where i: "slots_master e (ip_cell g) (port_cell g) (opened g p) = Some i" "i = Leave p1 \<or> i = Next p1"
    "parsed b rt0 (zs @ [?z]) p1"
    using region_step_old [OF Cons.prems(4) gg(1) Cons.prems(3)] region_step_new [OF Cons.prems(4) gg(1) Cons.prems(3) _ gg(3)]
    by (cases "dict_abs (p_nodes p) (g_key g)") blast+
  have s: "slots_regions e h False (Some u # ?els) p = slots_regions e h False ?els p1"
    unfolding region_items [OF gg(2,1) Cons.prems(3)] using i(1,2) by auto
  have "\<exists>p' ys. slots_regions e h False ?els p1 = Some (Next p') \<and> map fst ys = gs \<and> parsed b rt0 ((zs @ [?z]) @ ys) p'"
    using Cons.prems by (intro Cons.IH [OF _ _ _ i(3)]) auto
  then obtain p' ys where "slots_regions e h False ?els p1 = Some (Next p')" "map fst ys = gs" "parsed b rt0 ((zs @ [?z]) @ ys) p'"
    by blast
  with s show ?case by (intro exI [of _ p'] exI [of _ "?z # ys"]) simp
qed

lemma parse_slots_ok:
  assumes "rep (objs h) a (RArray (map region_reply gs))" "objs h a = Some r" "gs \<noteq> []" "\<forall>g \<in> set gs. good_region g"
    "\<And>n. can_alloc e n" "length gs < 2147483648" "mem_ok rt"
  shows "\<exists>d rt' zs. parse_cluster_slots e h False r rt = Some (Some d, rt') \<and> map fst zs = gs \<and>
    grown (rt_next rt) rt rt' \<and> mem_ok rt' \<and>
    holds (rt_next rt) (rt_next rt') (rt_node rt') (rt_slot rt') (\<lambda>x. None) d zs"
proof -
  let ?p = "\<lparr>p_rt = rt, p_nodes = dictCreate clusterNodesDictType, p_slot = None, p_master = None\<rparr>"
  let ?es = "map Some (addrs (a + 2) (map region_reply gs))"
  have r: "r = array_cell ?es" "reps (objs h) (a + 2) (map region_reply gs)" using assms(1,2) by simp_all
  have "parsed (rt_next rt) rt [] ?p" using assms(7) empty_holds by (simp add: parsed_def grown_refl)
  from regions_parsed [OF r(2) assms(4,5) this] assms(6)
  obtain p zs where p: "slots_regions e h False ?es ?p = Some (Next p)" "map fst zs = gs" "parsed (rt_next rt) rt zs p" by auto
  have "rp_elements r = length gs" "rp_type r = REDIS_REPLY_ARRAY" using r(1) by simp_all
  then have "parse_cluster_slots e h False r rt = Some (Some (p_nodes p), p_rt p)"
    using p(1) r(1) assms(3,5) by (simp add: parse_cluster_slots_def)
  with p show ?thesis by (auto simp: parsed_def)
qed

section \<open>Collecting the regions\<close>

lemma entries_ok: "dict_inv d \<Longrightarrow> entries d = Some (concat (chains d))"
proof -
  assume d: "dict_inv d"
  have "length (concat (chains d)) = used d" using d by (auto simp: dict_inv_def elim!: table_okE)
  then show ?thesis
    using visit_all [of dictGetIterator "chains d" "Suc (used d)"] by (simp add: entries_def dictGetIterator_def to_visit_def)
qed

lemma entry_abs: "dict_inv d \<Longrightarrow> (k, a) \<in> set (concat (chains d)) \<longleftrightarrow> dict_abs d k = Some a"
  using map_of_eq_Some_iff [OF inv_distinct, of d k a] by (simp add: dict_abs_def)

definition array_of :: "nat hiarray \<Rightarrow> nat list \<Rightarrow> bool" where
  "array_of sl ss \<longleftrightarrow> hiarray_inv sl \<and> esize sl = 8 \<and> hiarray_list sl = ss"

lemma array_push:
  assumes "array_of sl ss" "length ss < 2147483648" "\<And>n. can_alloc e n"
  shows "\<exists>sl'. push_store (can_alloc e) sl s = Some (Some sl') \<and> array_of sl' (ss @ [s])"
proof -
  have inv: "hiarray_inv sl" "esize sl = 8" "hiarray_list sl = ss" using assms(1) by (simp_all add: array_of_def)
  have n: "nelem sl = length ss" using length_hiarray_list [OF inv(1)] inv(3) by simp
  then have room: "hiarray_room sl" using inv(1,2) assms(2) by (auto simp: hiarray_room_def hiarray_inv_def)
  have "push_store (can_alloc e) sl s \<noteq> None" using assms(3) by (auto simp: push_store_def hiarray_push_def Let_def)
  then obtain sl' where p: "push_store (can_alloc e) sl s = Some (Some sl')"
    using ha.add_in_block [OF inv(1) room, of "can_alloc e" s] by (cases "push_store (can_alloc e) sl s") auto
  then show ?thesis
    using ha.add_inv [OF inv(1) room p] ha.add_contents [OF inv(1) room p] push_store_esize [OF p] inv
    by (auto simp: array_of_def)
qed

lemma push_slots_ok:
  "\<lbrakk>array_of sl ts; length ts + length ss < 2147483648; \<And>n. can_alloc e n;
    \<forall>s \<in> set ss. \<exists>x. rt_slot rt s = Some x \<and> sl_start x \<le> sl_end x \<and> sl_end x < REDIS_CLUSTER_SLOTS\<rbrakk> \<Longrightarrow>
    \<exists>sl'. push_slots e ss rt sl = Some (True, rt, sl') \<and> array_of sl' (ts @ ss)"
proof (induction ss arbitrary: sl ts)
  case (Cons s ss)
  obtain x where x: "rt_slot rt s = Some x" "sl_start x \<le> sl_end x" "sl_end x < REDIS_CLUSTER_SLOTS" using Cons.prems(4) by auto
  have "length ts < 2147483648" using Cons.prems(2) by simp
  from array_push [OF Cons.prems(1) this Cons.prems(3), of s]
  obtain sl1 where s1: "push_store (can_alloc e) sl s = Some (Some sl1)" "array_of sl1 (ts @ [s])" by blast
  have "\<exists>sl'. push_slots e ss rt sl1 = Some (True, rt, sl') \<and> array_of sl' ((ts @ [s]) @ ss)"
    using Cons.prems by (intro Cons.IH s1(2)) simp_all
  then show ?case using x s1(1) by simp
qed simp

lemma push_nodes_ok:
  "\<lbrakk>array_of sl ts; length ts + length (concat (map (\<lambda>x. f (snd x)) xs)) < 2147483648; \<And>n. can_alloc e n; lit \<noteq> LiveIter;
    \<forall>a \<in> snd ` set xs. \<exists>n. rt_node rt a = Some n \<and> nd_role n = REDIS_ROLE_MASTER \<and> nd_slots n = Some (f a);
    \<forall>s \<in> set (concat (map (\<lambda>x. f (snd x)) xs)). \<exists>x. rt_slot rt s = Some x \<and> sl_start x \<le> sl_end x \<and> sl_end x < REDIS_CLUSTER_SLOTS\<rbrakk> \<Longrightarrow>
    \<exists>sl'. push_nodes e xs lit rt sl = Some (True, if xs = [] then lit else FreedIter, rt, sl') \<and>
      array_of sl' (ts @ concat (map (\<lambda>x. f (snd x)) xs))"
proof (induction xs arbitrary: sl ts lit)
  case (Cons x xs)
  obtain k a where x: "x = (k, a)" by (cases x)
  obtain n where n: "rt_node rt a = Some n" "nd_role n = REDIS_ROLE_MASTER" "nd_slots n = Some (f a)" using Cons.prems(5) x by auto
  have l: "length ts + length (f a) < 2147483648" "length (ts @ f a) + length (concat (map (\<lambda>x. f (snd x)) xs)) < 2147483648"
    using Cons.prems(2) by (simp_all add: x del: length_concat)
  have "\<forall>s \<in> set (f a). \<exists>x. rt_slot rt s = Some x \<and> sl_start x \<le> sl_end x \<and> sl_end x < REDIS_CLUSTER_SLOTS"
    using Cons.prems(6) x by simp
  from push_slots_ok [OF Cons.prems(1) l(1) Cons.prems(3) this]
  obtain sl1 where s1: "push_slots e (f a) rt sl = Some (True, rt, sl1)" "array_of sl1 (ts @ f a)" by blast
  have "\<exists>sl'. push_nodes e xs FreedIter rt sl1 = Some (True, if xs = [] then FreedIter else FreedIter, rt, sl') \<and>
      array_of sl' ((ts @ f a) @ concat (map (\<lambda>x. f (snd x)) xs))"
    using Cons.prems by (intro Cons.IH s1(2) l(2)) (simp_all add: x)
  then show ?case using x n s1(1) Cons.prems(3) by auto
qed simp

text \<open>The lists of the nodes together are the regions of the table.\<close>

lemma slots_of_Cons: "slots_of ((g, s) # zs) x = (if g_key g = x then [s] else []) @ slots_of zs x"
  by (simp add: slots_of_def)

lemma mset_singles: "distinct ks \<Longrightarrow> k \<in> set ks \<Longrightarrow> mset (concat (map (\<lambda>x. (if k = x then [s] else []) @ f x) ks)) = add_mset s (mset (concat (map f ks)))"
proof (induction ks)
  case (Cons y ks)
  show ?case
  proof (cases "k = y")
    case True
    have "y \<notin> set ks" using Cons.prems(1) by simp
    then have "concat (map (\<lambda>x. (if y = x then [s] else []) @ f x) ks) = concat (map f ks)" by (induction ks) auto
    then show ?thesis using True by simp
  qed (use Cons in auto)
qed simp

lemma slots_of_all: "distinct ks \<Longrightarrow> zkeys zs \<subseteq> set ks \<Longrightarrow> mset (concat (map (slots_of zs) ks)) = mset (map snd zs)"
proof (induction zs)
  case Nil
  then show ?case by (simp add: slots_of_def)
next
  case (Cons z zs)
  obtain g s where z: "z = (g, s)" by (cases z)
  have "mset (concat (map (slots_of ((g, s) # zs)) ks)) = add_mset s (mset (concat (map (slots_of zs) ks)))"
    using Cons.prems unfolding slots_of_Cons by (intro mset_singles) (auto simp: z)
  then show ?case using Cons z by simp
qed

section \<open>Sorting\<close>

lemma sort_insert_mset: "mset (sort_insert cmp x ys) = add_mset x (mset ys)"
  by (induction ys) auto

lemma sort_mset: "mset (foldr (sort_insert cmp) xs []) = mset xs"
  by (induction xs) (auto simp: sort_insert_mset)

definition start_of :: "route \<Rightarrow> nat \<Rightarrow> nat" where
  "start_of rt s = (case rt_slot rt s of None \<Rightarrow> 0 | Some x \<Rightarrow> sl_start x)"

lemma sort_insert_sorted:
  assumes "\<forall>s \<in> insert x (set ys). rt_slot rt s \<noteq> None" "sorted (map (start_of rt) ys)"
  shows "sorted (map (start_of rt) (sort_insert (cluster_slot_start_cmp rt) x ys))"
  using assms
proof (induction ys)
  case (Cons y ys)
  obtain u v where uv: "rt_slot rt x = Some u" "rt_slot rt y = Some v" using Cons.prems(1) by auto
  show ?case
  proof (cases "sl_start u > sl_start v")
    case True
    then have "sort_insert (cluster_slot_start_cmp rt) x (y # ys) = y # sort_insert (cluster_slot_start_cmp rt) x ys"
      using uv by (simp add: cluster_slot_start_cmp_def)
    moreover have "set (sort_insert (cluster_slot_start_cmp rt) x ys) = insert x (set ys)"
      using sort_insert_mset [of "cluster_slot_start_cmp rt" x ys] by (metis set_mset_add_mset_insert set_mset_mset)
    ultimately show ?thesis using Cons True uv by (auto simp: start_of_def)
  next
    case False
    then have "sort_insert (cluster_slot_start_cmp rt) x (y # ys) = x # y # ys" using uv by (simp add: cluster_slot_start_cmp_def)
    then show ?thesis using Cons.prems(2) False uv by (auto simp: start_of_def)
  qed
qed simp

lemma sort_sorted:
  "\<forall>s \<in> set xs. rt_slot rt s \<noteq> None \<Longrightarrow> sorted (map (start_of rt) (foldr (sort_insert (cluster_slot_start_cmp rt)) xs []))"
proof (induction xs)
  case (Cons x xs)
  have "set (foldr (sort_insert (cluster_slot_start_cmp rt)) xs []) = set xs"
    using sort_mset [of "cluster_slot_start_cmp rt" xs] by (rule mset_eq_setD)
  with Cons show ?case by (simp add: sort_insert_sorted)
qed simp

lemma array_sort:
  assumes "array_of sl ss"
  shows "array_of (hiarray_sort cmp sl) (foldr (sort_insert cmp) ss [])"
proof -
  let ?ts = "foldr (sort_insert cmp) ss []"
  have inv: "hiarray_inv sl" "esize sl = 8" "hiarray_list sl = ss" using assms by (simp_all add: array_of_def)
  have n: "nelem sl = length ss" using length_hiarray_list [OF inv(1)] inv(3) by simp
  have "length ?ts = length ss" using sort_mset [of cmp ss] by (rule mset_eq_length)
  then show ?thesis
    using inv n by (auto simp: array_of_def hiarray_sort_def hiarray_inv_def hiarray_list_def comp_def)
qed

lemma array_read:
  assumes "array_of sl ss"
  shows "i < length ss \<Longrightarrow> hiarray_deref sl (hiarray_get sl i) = Some (ss ! i)" "hiarray_n sl = length ss"
    "map (\<lambda>j. hiarray_deref sl (hiarray_get sl j)) [0..<hiarray_n sl] = map Some ss"
proof -
  have inv: "hiarray_inv sl" "hiarray_list sl = ss" using assms by (simp_all add: array_of_def)
  show r: "hiarray_deref sl (hiarray_get sl i) = Some (ss ! i)" if "i < length ss" for i
    using ha.read_contents [OF inv(1), of i] inv(2) that by simp
  show n: "hiarray_n sl = length ss" using length_hiarray_list [OF inv(1)] inv(2) by (simp add: hiarray_n_def)
  show "map (\<lambda>j. hiarray_deref sl (hiarray_get sl j)) [0..<hiarray_n sl] = map Some ss"
    using r n by (intro nth_equalityI) simp_all
qed

section \<open>The table of slots\<close>

definition covers :: "cluster_slot \<Rightarrow> nat \<Rightarrow> bool" where
  "covers x k \<longleftrightarrow> sl_start x \<le> k \<and> k \<le> sl_end x"

definition overlap :: "route \<Rightarrow> nat \<Rightarrow> nat \<Rightarrow> bool" where
  "overlap rt s t \<longleftrightarrow> (\<exists>x y k. rt_slot rt s = Some x \<and> rt_slot rt t = Some y \<and> covers x k \<and> covers y k)"

lemma fill_range_ok:
  "\<forall>j. k \<le> j \<longrightarrow> j < k + n \<longrightarrow> t j = None \<Longrightarrow> fill_range a n k t = Some (\<lambda>j. if k \<le> j \<and> j < k + n then a else t j)"
proof (induction n arbitrary: k t)
  case (Suc n)
  have "fill_range a n (k + 1) (t(k := a)) = Some (\<lambda>j. if k + 1 \<le> j \<and> j < k + 1 + n then a else (t(k := a)) j)"
    using Suc.prems by (intro Suc.IH) auto
  moreover have "(\<lambda>j. if k + 1 \<le> j \<and> j < k + 1 + n then a else (t(k := a)) j) = (\<lambda>j. if k \<le> j \<and> j < k + Suc n then a else t j)"
    by (auto simp: fun_eq_iff)
  ultimately show ?case using Suc.prems by simp
qed (auto simp: fun_eq_iff)

lemma fill_range_clash: "k \<le> j \<Longrightarrow> j < k + n \<Longrightarrow> t j \<noteq> None \<Longrightarrow> fill_range a n k t = None"
proof (induction n arbitrary: k t)
  case (Suc n)
  then show ?case by (cases "j = k") auto
qed simp

lemma fill_slot:
  assumes "sl_start x \<le> sl_end x"
  shows "\<forall>k. covers x k \<longrightarrow> t k = None \<Longrightarrow>
      fill_range (sl_node x) (Suc (sl_end x) - sl_start x) (sl_start x) t = Some (\<lambda>k. if covers x k then sl_node x else t k)"
    "covers x k \<Longrightarrow> t k \<noteq> None \<Longrightarrow> fill_range (sl_node x) (Suc (sl_end x) - sl_start x) (sl_start x) t = None"
proof -
  have c: "covers x k \<longleftrightarrow> sl_start x \<le> k \<and> k < sl_start x + (Suc (sl_end x) - sl_start x)" for k
    using assms by (auto simp: covers_def)
  show "fill_range (sl_node x) (Suc (sl_end x) - sl_start x) (sl_start x) t = Some (\<lambda>k. if covers x k then sl_node x else t k)"
    if "\<forall>k. covers x k \<longrightarrow> t k = None"
    using fill_range_ok [of "sl_start x" "Suc (sl_end x) - sl_start x" t "sl_node x"] that unfolding c by blast
  show "fill_range (sl_node x) (Suc (sl_end x) - sl_start x) (sl_start x) t = None" if "covers x k" "t k \<noteq> None"
    using fill_range_clash [of "sl_start x" k "Suc (sl_end x) - sl_start x" t] that unfolding c by blast
qed

text \<open>All records of a list of regions are there and have proper bounds and a node.\<close>

definition regions_ok :: "route \<Rightarrow> nat list \<Rightarrow> bool" where
  "regions_ok rt ps \<longleftrightarrow> (\<forall>s \<in> set ps. \<exists>x. rt_slot rt s = Some x \<and> sl_start x \<le> sl_end x \<and> sl_end x < REDIS_CLUSTER_SLOTS \<and> sl_node x \<noteq> None)"

definition no_overlap :: "route \<Rightarrow> nat list \<Rightarrow> bool" where
  "no_overlap rt ps \<longleftrightarrow> (\<forall>i j. i < j \<longrightarrow> j < length ps \<longrightarrow> \<not> overlap rt (ps ! i) (ps ! j))"

lemma no_overlap_Cons: "no_overlap rt (p # ps) \<longleftrightarrow> (\<forall>q \<in> set ps. \<not> overlap rt p q) \<and> no_overlap rt ps"
proof -
  have "no_overlap rt (p # ps) \<longleftrightarrow> sorted_wrt (\<lambda>s t. \<not> overlap rt s t) (p # ps)" "no_overlap rt ps \<longleftrightarrow> sorted_wrt (\<lambda>s t. \<not> overlap rt s t) ps"
    unfolding no_overlap_def sorted_wrt_iff_nth_less by auto
  then show ?thesis by simp
qed

lemma fill_table_ok:
  "\<lbrakk>regions_ok rt ps; no_overlap rt ps; \<forall>s \<in> set ps. \<forall>x k. rt_slot rt s = Some x \<longrightarrow> covers x k \<longrightarrow> t k = None\<rbrakk> \<Longrightarrow>
    \<exists>t'. fill_table rt (map Some ps) t = Some (Some t') \<and>
      (\<forall>s \<in> set ps. \<forall>x k. rt_slot rt s = Some x \<longrightarrow> covers x k \<longrightarrow> t' k = sl_node x) \<and>
      (\<forall>k. (\<forall>s \<in> set ps. \<forall>x. rt_slot rt s = Some x \<longrightarrow> \<not> covers x k) \<longrightarrow> t' k = t k)"
proof (induction ps arbitrary: t)
  case (Cons s ps)
  obtain x where x: "rt_slot rt s = Some x" "sl_start x \<le> sl_end x" using Cons.prems(1) by (auto simp: regions_ok_def)
  let ?t = "\<lambda>k. if covers x k then sl_node x else t k"
  have f: "fill_range (sl_node x) (Suc (sl_end x) - sl_start x) (sl_start x) t = Some ?t"
    using Cons.prems(3) x(1) by (intro fill_slot(1) [OF x(2)]) auto
  have no: "\<forall>q \<in> set ps. \<not> overlap rt s q" "no_overlap rt ps" using Cons.prems(2) by (simp_all add: no_overlap_Cons)
  have dis: "\<not> covers x k" if "q \<in> set ps" "rt_slot rt q = Some y" "covers y k" for q y k
    using no(1) x(1) that unfolding overlap_def by blast
  have "\<forall>q \<in> set ps. \<forall>y k. rt_slot rt q = Some y \<longrightarrow> covers y k \<longrightarrow> ?t k = None"
    using Cons.prems(3) dis by auto
  moreover have "regions_ok rt ps" using Cons.prems(1) by (simp add: regions_ok_def)
  ultimately obtain t' where t': "fill_table rt (map Some ps) ?t = Some (Some t')"
      "\<forall>s \<in> set ps. \<forall>x k. rt_slot rt s = Some x \<longrightarrow> covers x k \<longrightarrow> t' k = sl_node x"
      "\<forall>k. (\<forall>s \<in> set ps. \<forall>x. rt_slot rt s = Some x \<longrightarrow> \<not> covers x k) \<longrightarrow> t' k = ?t k"
    using Cons.IH [of ?t] no(2) by blast
  have "t' k = sl_node x" if c: "covers x k" for k
  proof -
    have "\<forall>q \<in> set ps. \<forall>y. rt_slot rt q = Some y \<longrightarrow> \<not> covers y k" using dis c by blast
    then have "t' k = ?t k" using t'(3) by blast
    then show ?thesis using c by simp
  qed
  then show ?case using f x(1) t' by (intro exI [of _ t']) auto
qed simp

lemma fill_table_clash:
  "\<lbrakk>regions_ok rt ps; \<not> no_overlap rt ps \<or> (\<exists>s \<in> set ps. \<exists>x k. rt_slot rt s = Some x \<and> covers x k \<and> t k \<noteq> None)\<rbrakk> \<Longrightarrow>
    fill_table rt (map Some ps) t = Some None"
proof (induction ps arbitrary: t)
  case Nil
  then show ?case by (simp add: no_overlap_def)
next
  case (Cons s ps)
  obtain x where x: "rt_slot rt s = Some x" "sl_start x \<le> sl_end x" "sl_node x \<noteq> None" using Cons.prems(1) by (auto simp: regions_ok_def)
  show ?case
  proof (cases "\<exists>k. covers x k \<and> t k \<noteq> None")
    case True
    then show ?thesis using fill_slot(2) [OF x(2)] x(1) by auto
  next
    case False
    let ?t = "\<lambda>k. if covers x k then sl_node x else t k"
    have f: "fill_range (sl_node x) (Suc (sl_end x) - sl_start x) (sl_start x) t = Some ?t"
      using False by (intro fill_slot(1) [OF x(2)]) auto
    have "\<not> no_overlap rt ps \<or> (\<exists>s \<in> set ps. \<exists>x k. rt_slot rt s = Some x \<and> covers x k \<and> ?t k \<noteq> None)"
    proof (cases "\<exists>q \<in> set ps. overlap rt s q")
      case True
      then obtain q y k where "q \<in> set ps" "rt_slot rt q = Some y" "covers y k" "covers x k"
        using x(1) by (auto simp: overlap_def)
      moreover from this have "?t k \<noteq> None" using x(3) by simp
      ultimately show ?thesis by blast
    next
      case no: False
      then have "\<not> no_overlap rt ps \<or> (\<exists>s \<in> set ps. \<exists>x k. rt_slot rt s = Some x \<and> covers x k \<and> t k \<noteq> None)"
        using Cons.prems(2) False x(1) by (auto simp: no_overlap_Cons)
      then show ?thesis using x(3) by (metis (no_types, lifting))
    qed
    then have "fill_table rt (map Some ps) ?t = Some None"
      using Cons.prems(1) by (intro Cons.IH) (auto simp: regions_ok_def)
    then show ?thesis using f x(1) by simp
  qed
qed

section \<open>The binary search\<close>

definition ordered :: "route \<Rightarrow> nat list \<Rightarrow> bool" where
  "ordered rt ps \<longleftrightarrow> regions_ok rt ps \<and>
     (\<forall>i j x y. i < j \<longrightarrow> j < length ps \<longrightarrow> rt_slot rt (ps ! i) = Some x \<longrightarrow> rt_slot rt (ps ! j) = Some y \<longrightarrow> sl_end x < sl_start y)"

lemma ordered_sorted:
  assumes "regions_ok rt ps" "no_overlap rt ps" "sorted (map (start_of rt) ps)"
  shows "ordered rt ps"
  unfolding ordered_def
proof (intro conjI allI impI assms(1))
  fix i j x y assume a: "i < j" "j < length ps" "rt_slot rt (ps ! i) = Some x" "rt_slot rt (ps ! j) = Some y"
  have "sl_start x \<le> sl_start y"
    using sorted_nth_mono [OF assms(3), of i j] a by (simp add: start_of_def)
  moreover have "\<not> covers x (sl_start y) \<or> \<not> covers y (sl_start y)"
    using assms(2) a unfolding no_overlap_def overlap_def by blast
  moreover have "covers y (sl_start y)"
  proof -
    have "ps ! j \<in> set ps" using a(2) by simp
    then show ?thesis using assms(1) a(4) by (auto simp: regions_ok_def covers_def)
  qed
  ultimately show "sl_end x < sl_start y" by (auto simp: covers_def)
qed

lemma search_finds:
  assumes ar: "array_of sl ps" and o: "ordered rt ps" and i: "rt_slot rt (ps ! i) = Some x" "covers x k"
    and n: "length ps < 4294967296"
  shows "lo \<le> i \<Longrightarrow> i \<le> hi \<Longrightarrow> hi < length ps \<Longrightarrow> search_slot rt sl k lo hi = Some (sl_node x)"
proof (induction "hi - lo" arbitrary: lo hi rule: less_induct)
  case less
  define m where "m = (if lo \<ge> hi then hi else lo + (hi - lo) div 2)"
  have m: "m < length ps" "lo \<le> m" "m \<le> hi" "lo < hi \<Longrightarrow> m < hi" using less.prems by (auto simp: m_def)
  have "ps ! m \<in> set ps" using m(1) by simp
  then obtain y where y: "rt_slot rt (ps ! m) = Some y" using o by (auto simp: ordered_def regions_ok_def)
  have il: "i < length ps" using less.prems by simp
  have lt: "sl_start y > k \<Longrightarrow> i < m" "sl_end y < k \<Longrightarrow> m < i"
  proof -
    have "m < i \<Longrightarrow> sl_end y < sl_start x" "i < m \<Longrightarrow> sl_end x < sl_start y"
      using o il m(1) y i(1) unfolding ordered_def by blast+
    moreover have "m = i \<Longrightarrow> y = x" using y i(1) by simp
    moreover have "sl_start y \<le> sl_end y" using o y \<open>ps ! m \<in> set ps\<close> by (auto simp: ordered_def regions_ok_def)
    ultimately show "sl_start y > k \<Longrightarrow> i < m" "sl_end y < k \<Longrightarrow> m < i"
      using i(2) unfolding covers_def by (cases m i rule: linorder_cases; simp; linarith)+
  qed
  have s: "search_slot rt sl k lo hi =
      do { s \<leftarrow> hiarray_deref sl (hiarray_get sl m);
           x \<leftarrow> rt_slot rt s;
           if sl_start x > k then (if hi \<le> lo then Some None else search_slot rt sl k lo (u32 (m + 4294967295)))
           else if sl_end x < k then (if hi \<le> lo then Some None else search_slot rt sl k (u32 (m + 1)) hi)
           else Some (sl_node x) }"
    unfolding search_slot.simps [of rt sl k lo hi] Let_def m_def [symmetric] ..
  have d: "hiarray_deref sl (hiarray_get sl m) = Some (ps ! m)" by (rule array_read(1) [OF ar m(1)])
  consider "sl_start y > k" | "\<not> sl_start y > k" "sl_end y < k" | "covers y k" unfolding covers_def by linarith
  then show ?case
  proof cases
    case 1
    have im: "i < m" using lt(1) 1 .
    then have ne: "lo < hi" using m(3) less.prems(1) by simp
    have u: "u32 (m + 4294967295) = m - 1" using im m(1) n by (simp add: u32_def mod_if)
    have "search_slot rt sl k lo (m - 1) = Some (sl_node x)"
      using im m less.prems ne by (intro less.hyps) auto
    then show ?thesis unfolding s using d y 1 ne u by simp
  next
    case 2
    have im: "m < i" using lt(2) 2(2) .
    then have ne: "lo < hi" using less.prems(2) m(2) by simp
    have u: "u32 (m + 1) = Suc m" using m(1) n by (simp add: u32_def)
    have "search_slot rt sl k (Suc m) hi = Some (sl_node x)"
      using im m less.prems ne by (intro less.hyps) auto
    then show ?thesis unfolding s using d y 2 ne u by simp
  next
    case 3
    have "m < i \<Longrightarrow> sl_end y < sl_start x" "i < m \<Longrightarrow> sl_end x < sl_start y"
      using o il m(1) y i(1) unfolding ordered_def by blast+
    then have "m = i" using i(2) 3 unfolding covers_def by linarith
    then have "y = x" using y i(1) by simp
    then show ?thesis unfolding s using d y 3 by (simp add: covers_def)
  qed
qed

section \<open>Keeping connections\<close>

lemma holds_con:
  assumes h: "holds b c N S con d zs" and a: "dict_abs d k = Some a" "N a = Some n"
  shows "holds b c (N(a \<mapsto> n\<lparr>nd_con := v\<rparr>)) S (con(k := v)) d zs"
proof (rule holdsI [OF holds_dictD [OF h]])
  note D = holds_dictD(5,6) [OF h]
  show "b \<le> s \<and> s < c \<and> S s = Some \<lparr>sl_start = g_start g, sl_end = g_end g, sl_node = dict_abs d (g_key g)\<rparr>"
    if "(g, s) \<in> set zs" for g s
    using holds_slotD [OF h that] by simp
  fix x u assume x: "dict_abs d x = Some u"
  have "u = a \<longleftrightarrow> x = k" using inj_onD [OF D(2), of x k] D(1) a(1) x by auto
  moreover obtain g m where "g \<in> fst ` set zs" "g_key g = x" "N u = Some m" "node_for g (slots_of zs x) (con x) m"
    using holds_nodeD(3) [OF h x] by blast
  ultimately show "b \<le> u \<and> u < c \<and> (\<exists>g n'. g \<in> fst ` set zs \<and> g_key g = x \<and> (N(a \<mapsto> n\<lparr>nd_con := v\<rparr>)) u = Some n' \<and>
      node_for g (slots_of zs x) ((con(k := v)) x) n')"
    using holds_nodeD(1,2) [OF h x] a(2)
    by (intro conjI exI [of _ g] exI [of _ "if x = k then m\<lparr>nd_con := v\<rparr> else m"]) (auto simp: node_for_def)
qed

lemma swap_ok:
  assumes "\<forall>x. x \<notin> zkeys ys \<longrightarrow> con x = None"
  shows "\<lbrakk>holds 0 b (rt_node rt) S (\<lambda>x. if x \<in> K then None else con x) f ys;
    holds b c (rt_node rt) S (\<lambda>x. if x \<in> K then con x else None) d zs;
    \<forall>(k, a) \<in> set xs. dict_abs d k = Some a; distinct (map fst xs); K \<inter> fst ` set xs = {}\<rbrakk> \<Longrightarrow>
    \<exists>N. swap_ctx f xs rt = Some (rt\<lparr>rt_node := N\<rparr>) \<and> dom N = dom (rt_node rt) \<and>
      holds 0 b N S (\<lambda>x. if x \<in> K \<union> fst ` set xs then None else con x) f ys \<and>
      holds b c N S (\<lambda>x. if x \<in> K \<union> fst ` set xs then con x else None) d zs"
proof (induction xs arbitrary: rt K)
  case Nil
  then show ?case by (intro exI [of _ "rt_node rt"]) simp
next
  case (Cons z xs)
  obtain k u where z: "z = (k, u)" by (cases z)
  let ?N = "rt_node rt"
  have u: "dict_abs d k = Some u" "k \<notin> K" using Cons.prems(3,5) z by auto
  obtain g n where n: "g_key g = k" "?N u = Some n" "node_for g (slots_of zs k) None n"
    using holds_nodeD(3) [OF Cons.prems(2) u(1)] u(2) by auto
  have addr: "nd_addr n = Some k" "nd_con n = None" using n by (simp_all add: node_for_def)
  have find: "dictFind f k = DOk (map_option (Pair k) (dict_abs f k))" by (rule find_refines [OF holds_dictD(1) [OF Cons.prems(1)]])
  have rest: "\<forall>(k, a) \<in> set xs. dict_abs d k = Some a" "distinct (map fst xs)" "insert k K \<inter> fst ` set xs = {}"
    using Cons.prems(3-5) z by auto
  have un: "insert k K \<union> fst ` set xs = K \<union> fst ` set (z # xs)" using z by simp
  let ?old = "\<lambda>x. if x \<in> insert k K then None else con x" and ?new = "\<lambda>x. if x \<in> insert k K then con x else None"
  have "\<exists>N. swap_ctx f (z # xs) rt = swap_ctx f xs (rt\<lparr>rt_node := N\<rparr>) \<and> dom N = dom ?N \<and>
      holds 0 b N S ?old f ys \<and> holds b c N S ?new d zs"
  proof (cases "con k")
    case None
    have e: "?old = (\<lambda>x. if x \<in> K then None else con x)" "?new = (\<lambda>x. if x \<in> K then con x else None)"
      using None by auto
    have "swap_ctx f (z # xs) rt = swap_ctx f xs rt"
    proof (cases "dict_abs f k")
      case None
      then show ?thesis using z n(2) addr find by simp
    next
      case (Some a)
      then obtain m where "?N a = Some m" "nd_con m = None"
        using holds_nodeD(3) [OF Cons.prems(1) Some] u(2) None by (auto simp: node_for_def)
      then show ?thesis using z n(2) addr find Some by simp
    qed
    then show ?thesis using Cons.prems(1,2) unfolding e by (intro exI [of _ ?N]) simp
  next
    case (Some v)
    then have "k \<in> dom (dict_abs f)" using assms holds_dictD(5) [OF Cons.prems(1)] by auto
    then obtain a where a: "dict_abs f k = Some a" by blast
    obtain m where m: "?N a = Some m" "nd_con m = Some v"
      using holds_nodeD(3) [OF Cons.prems(1) a] u(2) Some by (auto simp: node_for_def)
    have ab: "a < b" "b \<le> u" using holds_nodeD(2) [OF Cons.prems(1) a] holds_nodeD(1) [OF Cons.prems(2) u(1)] by simp_all
    let ?M = "?N(a \<mapsto> m\<lparr>nd_con := None\<rparr>, u \<mapsto> n\<lparr>nd_con := Some v\<rparr>)"
    have "swap_ctx f (z # xs) rt = swap_ctx f xs (rt\<lparr>rt_node := ?M\<rparr>)" using z n(2) addr find a m by simp
    moreover have "dom ?M = dom ?N" using m n(2) by auto
    moreover have "holds 0 b ?M S ?old f ys"
    proof -
      have e: "?old = (\<lambda>x. if x \<in> K then None else con x)(k := None)" by auto
      show ?thesis unfolding e
        by (rule holds_frame [OF holds_con [OF Cons.prems(1) a m(1), of None] order_refl]) (use ab in auto)
    qed
    moreover have "holds b c ?M S ?new d zs"
    proof -
      have e: "?new = (\<lambda>x. if x \<in> K then con x else None)(k := Some v)" using Some by auto
      show ?thesis unfolding e
        by (rule holds_frame [OF holds_con [OF Cons.prems(2) u(1) n(2), of "Some v"] order_refl]) (use ab in auto)
    qed
    ultimately show ?thesis by blast
  qed
  then obtain M where M: "swap_ctx f (z # xs) rt = swap_ctx f xs (rt\<lparr>rt_node := M\<rparr>)" "dom M = dom ?N"
    "holds 0 b M S ?old f ys" "holds b c M S ?new d zs" by blast
  have "\<exists>N. swap_ctx f xs (rt\<lparr>rt_node := M\<rparr>) = Some (rt\<lparr>rt_node := M, rt_node := N\<rparr>) \<and> dom N = dom M \<and>
      holds 0 b N S (\<lambda>x. if x \<in> insert k K \<union> fst ` set xs then None else con x) f ys \<and>
      holds b c N S (\<lambda>x. if x \<in> insert k K \<union> fst ` set xs then con x else None) d zs"
    using Cons.IH [of "rt\<lparr>rt_node := M\<rparr>" "insert k K"] M(3,4) rest by simp
  then show ?case unfolding un M(1) M(2) [symmetric] by simp
qed

section \<open>Releasing nodes\<close>

lemma restrict_all [simp]: "m |` UNIV = m"
  by (simp add: restrict_map_def)

lemma free_slots_ok:
  "distinct ss \<Longrightarrow> \<forall>s \<in> set ss. rt_slot rt s \<noteq> None \<Longrightarrow>
    free_slots ss rt = Some (rt\<lparr>rt_slot := rt_slot rt |` (- set ss)\<rparr>)"
proof (induction ss arbitrary: rt)
  case (Cons s ss)
  let ?rt = "rt\<lparr>rt_slot := (rt_slot rt)(s := None)\<rparr>"
  have "free_slots ss ?rt = Some (?rt\<lparr>rt_slot := rt_slot ?rt |` (- set ss)\<rparr>)"
    using Cons.prems by (intro Cons.IH) auto
  moreover have "(rt_slot rt)(s := None) |` (- set ss) = rt_slot rt |` (- set (s # ss))"
    by (auto simp: restrict_map_def fun_eq_iff)
  ultimately show ?case using Cons.prems(2) by (simp add: cluster_slot_destroy_def)
qed simp

definition con_list :: "cluster_node \<Rightarrow> nat list" where
  "con_list n = (case nd_con n of None \<Rightarrow> [] | Some c \<Rightarrow> [c])"

lemma destroy_node:
  assumes "rt_node rt a = Some n" "nd_slots n = Some ss" "nd_slaves n = None" "distinct ss" "\<forall>s \<in> set ss. rt_slot rt s \<noteq> None"
  shows "listClusterNodeDestructor a rt = Some (rt\<lparr>rt_node := (rt_node rt)(a := None), rt_slot := rt_slot rt |` (- set ss),
    rt_closed := rt_closed rt @ con_list n\<rparr>)"
proof -
  let ?rt = "rt\<lparr>rt_closed := rt_closed rt @ con_list n\<rparr>"
  have "free_slots ss ?rt = Some (?rt\<lparr>rt_slot := rt_slot ?rt |` (- set ss)\<rparr>)"
    using assms by (intro free_slots_ok) simp_all
  then show ?thesis using assms by (simp add: listClusterNodeDestructor_def con_list_def)
qed

lemma free_nodes_ok:
  "\<lbrakk>distinct as; \<forall>a \<in> set as. rt_node rt a = Some (nf a) \<and> nd_slots (nf a) = Some (sf a) \<and> nd_slaves (nf a) = None;
    distinct (concat (map sf as)); \<forall>s \<in> set (concat (map sf as)). rt_slot rt s \<noteq> None\<rbrakk> \<Longrightarrow>
    free_list listClusterNodeDestructor as rt = Some (rt\<lparr>rt_node := rt_node rt |` (- set as),
      rt_slot := rt_slot rt |` (- set (concat (map sf as))), rt_closed := rt_closed rt @ concat (map (\<lambda>a. con_list (nf a)) as)\<rparr>)"
proof (induction as arbitrary: rt)
  case (Cons a as)
  let ?rt = "rt\<lparr>rt_node := (rt_node rt)(a := None), rt_slot := rt_slot rt |` (- set (sf a)), rt_closed := rt_closed rt @ con_list (nf a)\<rparr>"
  have d: "listClusterNodeDestructor a rt = Some ?rt"
    using Cons.prems by (intro destroy_node) auto
  have "free_list listClusterNodeDestructor as ?rt = Some (?rt\<lparr>rt_node := rt_node ?rt |` (- set as),
      rt_slot := rt_slot ?rt |` (- set (concat (map sf as))), rt_closed := rt_closed ?rt @ concat (map (\<lambda>a. con_list (nf a)) as)\<rparr>)"
    using Cons.prems by (intro Cons.IH) (auto simp: restrict_map_def)
  moreover have "(rt_node rt)(a := None) |` (- set as) = rt_node rt |` (- set (a # as))"
    by (auto simp: restrict_map_def fun_eq_iff)
  moreover have "rt_slot rt |` (- set (sf a)) |` (- set (concat (map sf as))) = rt_slot rt |` (- set (concat (map sf (a # as))))"
    by (auto simp: restrict_map_def fun_eq_iff)
  ultimately show ?case using d by simp
qed simp

lemma freed_vals_map: "freed_vals (concat (map (\<lambda>(k, v). key_log clusterNodesDictType k @ val_log clusterNodesDictType v) xs)) = map snd xs"
  by (induction xs) (auto simp: freed_vals_def key_log_def val_log_def clusterNodesDictType_def)

lemma holds_entries:
  assumes h: "holds b c N S con d zs" and xs: "xs = concat (chains d)"
  shows "distinct (map snd xs)" "fst ` set xs = zkeys zs"
    "mset (concat (map (\<lambda>x. slots_of zs (fst x)) xs)) = mset (map snd zs)"
    "\<And>k a. (k, a) \<in> set xs \<longleftrightarrow> dict_abs d k = Some a"
    "\<And>k a. (k, a) \<in> set xs \<Longrightarrow> \<exists>g n. g_key g = k \<and> N a = Some n \<and> node_for g (slots_of zs k) (con k) n"
proof -
  note D = holds_dictD [OF h]
  have k: "distinct (map fst xs)" unfolding xs by (rule inv_distinct [OF D(1)])
  show e: "(k, a) \<in> set xs \<longleftrightarrow> dict_abs d k = Some a" for k a unfolding xs by (rule entry_abs [OF D(1)])
  show keys: "fst ` set xs = zkeys zs"
    using D(5) unfolding xs by (simp add: dict_abs_def dom_map_of_conv_image_fst)
  have "inj_on snd (set xs)"
  proof (rule inj_onI)
    fix x y assume a: "x \<in> set xs" "y \<in> set xs" "snd x = snd y"
    from a(1,2) have "dict_abs d (fst x) = Some (snd x)" "dict_abs d (fst y) = Some (snd y)"
      unfolding e [symmetric] by simp_all
    moreover have "fst x \<in> zkeys zs" "fst y \<in> zkeys zs" using keys a(1,2) by blast+
    ultimately have "fst x = fst y" using inj_onD [OF D(6)] a(3) by simp
    then show "x = y" using a(3) by (rule prod_eqI)
  qed
  moreover have "distinct xs" using k by (simp add: distinct_map)
  ultimately show "distinct (map snd xs)" by (simp add: distinct_map)
  have "mset (concat (map (slots_of zs) (map fst xs))) = mset (map snd zs)"
    using k keys by (intro slots_of_all) simp_all
  then show "mset (concat (map (\<lambda>x. slots_of zs (fst x)) xs)) = mset (map snd zs)" by (simp add: comp_def)
  show "\<exists>g n. g_key g = k \<and> N a = Some n \<and> node_for g (slots_of zs k) (con k) n" if "(k, a) \<in> set xs" for k a
    using holds_nodeD(3) [OF h] that unfolding e by blast
qed

text \<open>Freeing a table removes its nodes and regions and closes its connections.\<close>

lemma release_ok_nodes:
  assumes h: "holds b c (rt_node rt) (rt_slot rt) con d zs"
  shows "\<exists>cl. release_nodes d rt = Some (rt\<lparr>rt_node := rt_node rt |` (- ran (dict_abs d)), rt_slot := rt_slot rt |` (- snd ` set zs),
      rt_closed := rt_closed rt @ cl\<rparr>) \<and> set cl = {v. \<exists>x \<in> zkeys zs. con x = Some v}"
proof -
  define xs where "xs = concat (chains d)"
  note D = holds_dictD [OF h] and E = holds_entries [OF h xs_def]
  let ?nf = "\<lambda>a. the (rt_node rt a)" and ?sf = "\<lambda>a. the (nd_slots (the (rt_node rt a)))"
  have node: "rt_node rt a = Some (?nf a) \<and> nd_slots (?nf a) = Some (slots_of zs k) \<and> nd_slaves (?nf a) = None \<and> nd_con (?nf a) = con k"
    if "(k, a) \<in> set xs" for k a
    using E(5) [OF that] by (auto simp: node_for_def)
  have node': "rt_node rt (snd x) = Some (?nf (snd x)) \<and> nd_slots (?nf (snd x)) = Some (?sf (snd x)) \<and> nd_slaves (?nf (snd x)) = None"
    "?sf (snd x) = slots_of zs (fst x)" "set (con_list (?nf (snd x))) = {v. con (fst x) = Some v}" if "x \<in> set xs" for x
    using node [of "fst x" "snd x"] that by (auto simp: con_list_def split: option.splits)
  have sl: "map ?sf (map snd xs) = map (\<lambda>x. slots_of zs (fst x)) xs" using node'(2) by simp
  have ms: "mset (concat (map ?sf (map snd xs))) = mset (map snd zs)" unfolding sl by (rule E(3))
  have ss: "set (concat (map ?sf (map snd xs))) = snd ` set zs" using mset_eq_setD [OF ms] by simp
  have "\<forall>s \<in> snd ` set zs. rt_slot rt s \<noteq> None" using holds_slotD(3) [OF h] by force
  then have "\<forall>s \<in> set (concat (map ?sf (map snd xs))). rt_slot rt s \<noteq> None" unfolding ss .
  moreover have "distinct (concat (map ?sf (map snd xs)))" using D(4) ms by (metis mset_eq_imp_distinct_iff)
  moreover have "\<forall>a \<in> set (map snd xs). rt_node rt a = Some (?nf a) \<and> nd_slots (?nf a) = Some (?sf a) \<and> nd_slaves (?nf a) = None"
    using node'(1) by auto
  ultimately have fr: "free_list listClusterNodeDestructor (map snd xs) rt = Some (rt\<lparr>rt_node := rt_node rt |` (- set (map snd xs)),
      rt_slot := rt_slot rt |` (- snd ` set zs), rt_closed := rt_closed rt @ concat (map (\<lambda>a. con_list (?nf a)) (map snd xs))\<rparr>)"
    using free_nodes_ok [OF E(1), of rt ?nf ?sf] unfolding ss by blast
  have fv: "freed_vals (drop (length (dlog d)) (dlog (dictClear d))) = map snd xs"
    using clear_refines(3) [OF D(1)] D(2,3) freed_vals_map [of xs] by (simp add: xs_def)
  have ra: "set (map snd xs) = ran (dict_abs d)"
    using E(4) by (force simp: ran_def)
  have "set (concat (map (\<lambda>a. con_list (?nf a)) (map snd xs))) = (\<Union>x \<in> set xs. {v. con (fst x) = Some v})"
    using node'(3) by simp
  also have "\<dots> = {v. \<exists>x \<in> fst ` set xs. con x = Some v}" by blast
  finally have "set (concat (map (\<lambda>a. con_list (?nf a)) (map snd xs))) = {v. \<exists>x \<in> zkeys zs. con x = Some v}" unfolding E(2) .
  with fr show ?thesis unfolding release_nodes_def fv ra by blast
qed

section \<open>The context\<close>

lemma holds_lower: "holds b c N S con d zs \<Longrightarrow> holds 0 c N S con d zs"
proof -
  assume h: "holds b c N S con d zs"
  show ?thesis
  proof (rule holdsI [OF holds_dictD [OF h]])
    show "0 \<le> s \<and> s < c \<and> S s = Some \<lparr>sl_start = g_start g, sl_end = g_end g, sl_node = dict_abs d (g_key g)\<rparr>"
      if "(g, s) \<in> set zs" for g s
      using holds_slotD [OF h that] by simp
    show "0 \<le> a \<and> a < c \<and> (\<exists>g n. g \<in> fst ` set zs \<and> g_key g = x \<and> N a = Some n \<and> node_for g (slots_of zs x) (con x) n)"
      if "dict_abs d x = Some a" for x a
      using holds_nodeD [OF h that] by simp
  qed
qed

lemma holds_cons:
  assumes h: "holds b c N S con d zs" and "\<And>x. x \<in> zkeys zs \<Longrightarrow> con' x = con x"
  shows "holds b c N S con' d zs"
proof (rule holdsI [OF holds_dictD [OF h]])
  show "b \<le> s \<and> s < c \<and> S s = Some \<lparr>sl_start = g_start g, sl_end = g_end g, sl_node = dict_abs d (g_key g)\<rparr>"
    if "(g, s) \<in> set zs" for g s
    using holds_slotD [OF h that] by simp
  show "b \<le> a \<and> a < c \<and> (\<exists>g n. g \<in> fst ` set zs \<and> g_key g = x \<and> N a = Some n \<and> node_for g (slots_of zs x) (con' x) n)"
    if "dict_abs d x = Some a" for x a
  proof -
    have "x \<in> zkeys zs" using that holds_dictD(5) [OF h] by blast
    then show ?thesis using holds_nodeD [OF h that] assms(2) [of x] by simp
  qed
qed

text \<open>The connection that the context has for an address.\<close>

definition con_of :: "route \<Rightarrow> string \<Rightarrow> nat option" where
  "con_of rt x = do { d \<leftarrow> rt_nodes rt; a \<leftarrow> dict_abs d x; n \<leftarrow> rt_node rt a; nd_con n }"

lemma con_of_holds:
  assumes "rt_nodes rt = Some d" "holds b c (rt_node rt) S con d zs"
  shows "con_of rt x = (if x \<in> zkeys zs then con x else None)"
proof (cases "dict_abs d x")
  case None
  then show ?thesis using assms(1) holds_dictD(5) [OF assms(2)] by (auto simp: con_of_def)
next
  case (Some a)
  then have "x \<in> zkeys zs" using holds_dictD(5) [OF assms(2)] by blast
  moreover obtain n where "rt_node rt a = Some n" "nd_con n = con x"
    using holds_nodeD(3) [OF assms(2) Some] by (auto simp: node_for_def)
  ultimately show ?thesis using assms(1) Some by (simp add: con_of_def)
qed

definition serves :: "route \<Rightarrow> nat list \<Rightarrow> bool" where
  "serves rt ps \<longleftrightarrow> (\<forall>s \<in> set ps. \<forall>x k. rt_slot rt s = Some x \<longrightarrow> covers x k \<longrightarrow> rt_table rt k = sl_node x) \<and>
     (\<forall>k. (\<forall>s \<in> set ps. \<forall>x. rt_slot rt s = Some x \<longrightarrow> \<not> covers x k) \<longrightarrow> rt_table rt k = None)"

text \<open>The invariant of a context between two updates: no route yet, or a table of nodes, an ordered
  array of their regions, and a table of slots that agree.\<close>

definition route_ok :: "route \<Rightarrow> bool" where
  "route_ok rt \<longleftrightarrow> mem_ok rt \<and> (rt_nodes rt = None \<longrightarrow> (\<forall>k. rt_table rt k = None)) \<and>
     (\<forall>d. rt_nodes rt = Some d \<longrightarrow>
       (\<exists>con zs sl ps. holds 0 (rt_next rt) (rt_node rt) (rt_slot rt) con d zs \<and> rt_slots rt = Some sl \<and> array_of sl ps \<and>
          length ps < 4294967296 \<and> ordered rt ps \<and> set ps = snd ` set zs \<and> serves rt ps))"

lemma closed_set:
  "\<forall>x. x \<notin> Y \<longrightarrow> con x = None \<Longrightarrow> {v. \<exists>x \<in> Y. (if x \<in> Z then None else con x) = Some v} = {v. \<exists>x. con x = Some v \<and> x \<notin> Z}"
  by (fastforce split: if_splits)

lemma install_ok:
  assumes m: "mem_ok rt" and new: "holds b (rt_next rt) (rt_node rt) (rt_slot rt) (\<lambda>x. None) d zs" and e: "\<And>n. can_alloc e n"
    and old: "\<And>f. rt_nodes rt = Some f \<Longrightarrow> holds 0 b (rt_node rt) (rt_slot rt) con f ys"
    and con: "\<forall>x. x \<notin> zkeys ys \<longrightarrow> con x = None" "rt_nodes rt = None \<Longrightarrow> ys = []"
  shows "\<exists>N S cl. install_route e d sl t rt = Some (True, rt\<lparr>rt_node := N, rt_slot := S, rt_closed := rt_closed rt @ cl, rt_nodes := Some d,
      rt_slots := Some sl, rt_table := t, rt_version := (rt_version rt + 1) mod 18446744073709551616\<rparr>) \<and>
    holds b (rt_next rt) N S (\<lambda>x. if x \<in> zkeys zs then con x else None) d zs \<and>
    (\<forall>a. b \<le> a \<longrightarrow> S a = rt_slot rt a) \<and> (\<forall>a \<ge> rt_next rt. N a = None \<and> S a = None) \<and>
    set cl = {v. \<exists>x. con x = Some v \<and> x \<notin> zkeys zs}"
proof (cases "rt_nodes rt")
  case None
  then have c0: "con x = None" for x using con by simp
  have "holds b (rt_next rt) (rt_node rt) (rt_slot rt) (\<lambda>x. if x \<in> zkeys zs then con x else None) d zs"
    by (rule holds_cons [OF new]) (simp add: c0)
  with None m c0 show ?thesis
    by (intro exI [of _ "rt_node rt"] exI [of _ "rt_slot rt"] exI [of _ "[]"])
      (simp add: install_route_def cluster_nodes_swap_ctx_def mem_ok_def)
next
  case (Some f)
  define xs where "xs = concat (chains d)"
  note E = holds_entries [OF new xs_def]
  have "\<forall>(k, a) \<in> set xs. dict_abs d k = Some a" using E(4) by blast
  moreover have "distinct (map fst xs)" unfolding xs_def by (rule inv_distinct [OF holds_dictD(1) [OF new]])
  ultimately obtain N where N: "swap_ctx f xs rt = Some (rt\<lparr>rt_node := N\<rparr>)" "dom N = dom (rt_node rt)"
    "holds 0 b N (rt_slot rt) (\<lambda>x. if x \<in> zkeys zs then None else con x) f ys"
    "holds b (rt_next rt) N (rt_slot rt) (\<lambda>x. if x \<in> zkeys zs then con x else None) d zs"
    using swap_ok [OF con(1), of b rt "rt_slot rt" "{}" f "rt_next rt" d zs xs] old [OF Some] new unfolding E(2) by auto
  have sw: "cluster_nodes_swap_ctx e (rt_nodes rt) d rt = Some (rt\<lparr>rt_node := N\<rparr>)"
    using Some N(1) e entries_ok [OF holds_dictD(1) [OF new]] by (simp add: cluster_nodes_swap_ctx_def xs_def)
  let ?rt = "rt\<lparr>rt_node := N\<rparr>"
  let ?M = "N |` (- ran (dict_abs f))" and ?S = "rt_slot rt |` (- snd ` set ys)"
  have "holds 0 b (rt_node ?rt) (rt_slot ?rt) (\<lambda>x. if x \<in> zkeys zs then None else con x) f ys" using N(3) by simp
  from release_ok_nodes [OF this] obtain cl where
    cl: "release_nodes f ?rt = Some (rt\<lparr>rt_node := ?M, rt_slot := ?S, rt_closed := rt_closed rt @ cl\<rparr>)"
    "set cl = {v. \<exists>x \<in> zkeys ys. (if x \<in> zkeys zs then None else con x) = Some v}" by auto
  have lowN: "a < b" if "a \<in> ran (dict_abs f)" for a using holds_nodeD(2) [OF N(3)] that by (auto simp: ran_def)
  have lowS: "a < b" if "a \<in> snd ` set ys" for a using holds_slotD(2) [OF N(3)] that by auto
  have S: "?S a = rt_slot rt a" if "b \<le> a" for a using lowS [of a] that by (auto simp: restrict_map_def)
  have "holds b (rt_next rt) ?M ?S (\<lambda>x. if x \<in> zkeys zs then con x else None) d zs"
    by (rule holds_frame [OF N(4) order_refl]) (use S lowN in \<open>force simp: restrict_map_def\<close>)+
  moreover have "\<forall>a \<ge> rt_next rt. ?M a = None \<and> ?S a = None"
  proof (intro allI impI)
    fix a assume a: "rt_next rt \<le> a"
    have "a \<notin> dom (rt_node rt)" "rt_slot rt a = None" using m a by (auto simp: mem_ok_def)
    then have "N a = None" using N(2) by (metis domIff)
    then show "?M a = None \<and> ?S a = None" using \<open>rt_slot rt a = None\<close> by (simp add: restrict_map_def)
  qed
  moreover have "set cl = {v. \<exists>x. con x = Some v \<and> x \<notin> zkeys zs}"
    unfolding cl(2) by (rule closed_set [OF con(1)])
  moreover have "install_route e d sl t rt = Some (True, rt\<lparr>rt_node := ?M, rt_slot := ?S, rt_closed := rt_closed rt @ cl,
      rt_nodes := Some d, rt_slots := Some sl, rt_table := t, rt_version := (rt_version rt + 1) mod 18446744073709551616\<rparr>)"
    using sw cl(1) Some by (simp add: install_route_def)
  ultimately show ?thesis using S by blast
qed

lemma collect_ok:
  assumes h: "holds b c (rt_node rt) (rt_slot rt) con d zs" and g: "\<forall>z \<in> set zs. good_region (fst z)" and "zs \<noteq> []"
    and n: "length zs < 2147483648" and e: "\<And>n. can_alloc e n"
  shows "\<exists>sl0 sl ps. hiarray_create (can_alloc e) (u32 (used d)) 8 = Some sl0 \<and>
    push_nodes e (concat (chains d)) NoIter rt sl0 = Some (True, FreedIter, rt, sl) \<and>
    array_of (hiarray_sort (cluster_slot_start_cmp rt) sl) ps \<and> mset ps = mset (map snd zs) \<and> regions_ok rt ps \<and>
    sorted (map (start_of rt) ps)"
proof -
  define xs where "xs = concat (chains d)"
  note E = holds_entries [OF h xs_def] and D = holds_dictD [OF h]
  have u: "0 < used d" "u32 (used d) = used d" "used d < 2147483648"
  proof -
    have "used d = card (zkeys zs)" using used_card [OF D(1)] D(5) by simp
    then show "0 < used d" using assms(3) by (simp add: card_gt_0_iff)
    show "used d < 2147483648" using holds_used [OF h] n by simp
    then show "u32 (used d) = used d" by (simp add: u32_id)
  qed
  obtain sl0 where sl0: "hiarray_create (can_alloc e) (used d) 8 = Some sl0" "array_of sl0 []"
  proof -
    have b: "block_bytes (used d) 8 = used d * 8" using u(3) by (intro block_bytes_id) simp
    let ?sl = "\<lparr>nelem = 0, elem = replicate (used d) None, esize = 8, nalloc = used d\<rparr> :: nat hiarray"
    have "hiarray_create (can_alloc e) (used d) 8 = Some ?sl" using e b by (simp add: hiarray_create_def)
    moreover have "array_of ?sl []" using u by (auto simp: array_of_def hiarray_inv_def hiarray_list_def)
    ultimately show thesis by (rule that)
  qed
  let ?sf = "\<lambda>a. the (nd_slots (the (rt_node rt a)))"
  have node: "rt_node rt (snd x) = Some (the (rt_node rt (snd x))) \<and> nd_role (the (rt_node rt (snd x))) = REDIS_ROLE_MASTER \<and>
      nd_slots (the (rt_node rt (snd x))) = Some (?sf (snd x)) \<and> ?sf (snd x) = slots_of zs (fst x)" if "x \<in> set xs" for x
    using E(5) [of "fst x" "snd x"] that by (auto simp: node_for_def)
  let ?L = "concat (map (\<lambda>x. ?sf (snd x)) xs)"
  have ms: "mset ?L = mset (map snd zs)"
    using E(3) node by (metis (no_types, lifting) map_eq_conv)
  have reg: "\<exists>x. rt_slot rt s = Some x \<and> sl_start x \<le> sl_end x \<and> sl_end x < REDIS_CLUSTER_SLOTS \<and> sl_node x \<noteq> None"
    if s: "s \<in> snd ` set zs" for s
  proof -
    obtain r where r: "(r, s) \<in> set zs" using s by auto
    have "g_key r \<in> dom (dict_abs d)" using r D(5) by force
    then show ?thesis using holds_slotD(3) [OF h r] g r by (auto simp: good_region_def)
  qed
  have sL: "set ?L = snd ` set zs" using mset_eq_setD [OF ms] by simp
  have "length ?L = length zs" using mset_eq_length [OF ms] by simp
  then have "length ([] :: nat list) + length ?L < 2147483648" using n by simp
  moreover have "\<forall>a \<in> snd ` set xs. \<exists>n. rt_node rt a = Some n \<and> nd_role n = REDIS_ROLE_MASTER \<and> nd_slots n = Some (?sf a)"
    using node by blast
  moreover have "\<forall>s \<in> set ?L. \<exists>x. rt_slot rt s = Some x \<and> sl_start x \<le> sl_end x \<and> sl_end x < REDIS_CLUSTER_SLOTS"
    unfolding sL using reg by blast
  ultimately obtain sl where sl: "push_nodes e xs NoIter rt sl0 = Some (True, if xs = [] then NoIter else FreedIter, rt, sl)" "array_of sl ?L"
    using push_nodes_ok [OF sl0(2), of ?sf xs e NoIter rt] e by auto
  let ?ps = "foldr (sort_insert (cluster_slot_start_cmp rt)) ?L []"
  have mp: "mset ?ps = mset (map snd zs)" using sort_mset [of _ ?L] ms by simp
  have "set ?ps = snd ` set zs" using mset_eq_setD [OF mp] by simp
  then have "regions_ok rt ?ps" using reg unfolding regions_ok_def by blast
  moreover have "sorted (map (start_of rt) ?ps)" using reg unfolding sL [symmetric] by (intro sort_sorted) force
  moreover have "push_nodes e xs NoIter rt sl0 = Some (True, FreedIter, rt, sl)" using sl(1) assms(3) E(2) by auto
  ultimately show ?thesis
    unfolding u(2) xs_def [symmetric] using sl0(1) array_sort [OF sl(2), of "cluster_slot_start_cmp rt"] mp by blast
qed

text \<open>The address text determines the host and the port.\<close>

lemma split_last: "x @ c # u = y @ c # v \<Longrightarrow> c \<notin> set u \<Longrightarrow> c \<notin> set v \<Longrightarrow> x = y \<and> u = v"
  by (auto simp: append_eq_append_conv2 append_eq_Cons_conv Cons_eq_append_conv)

lemma key_inject:
  assumes "good_region g" "good_region g'" "g_key g = g_key g'"
  shows "g_ip g = g_ip g'" "g_port g = g_port g'"
proof -
  have colon: "CHR '':'' \<notin> set (dec n)" for n
  proof -
    have "\<not> isdigit (CHR '':'')" by code_simp
    then show ?thesis using dec_digits by blast
  qed
  have tx: "g_key x = g_ip x @ CHR '':'' # dec (nat (g_port x))" if "good_region x" for x
    using that by (simp add: addr_text_def good_region_def c_int_id dec_int_def)
  have "g_ip g = g_ip g' \<and> dec (nat (g_port g)) = dec (nat (g_port g'))"
    using assms(3) colon unfolding tx [OF assms(1)] tx [OF assms(2)] by (intro split_last) auto
  then show "g_ip g = g_ip g'" "g_port g = g_port g'" using assms(1,2) by (auto simp: good_region_def)
qed

definition disjoint_regions :: "region list \<Rightarrow> bool" where
  "disjoint_regions gs \<longleftrightarrow> (\<forall>i j k. i < j \<longrightarrow> j < length gs \<longrightarrow> \<not> (g_covers (gs ! i) k \<and> g_covers (gs ! j) k))"

lemma no_overlap_set: "distinct ps \<Longrightarrow> no_overlap rt ps \<longleftrightarrow> (\<forall>s \<in> set ps. \<forall>t \<in> set ps. s \<noteq> t \<longrightarrow> \<not> overlap rt s t)"
proof (induction ps)
  case (Cons p ps)
  have "overlap rt s t \<longleftrightarrow> overlap rt t s" for s t by (auto simp: overlap_def)
  with Cons show ?case by (auto simp: no_overlap_Cons)
qed (simp add: no_overlap_def)

lemma no_overlap_regions:
  assumes h: "holds b c N (rt_slot rt) con d zs" and ps: "mset ps = mset (map snd zs)" and gs: "map fst zs = gs"
  shows "no_overlap rt ps \<longleftrightarrow> disjoint_regions gs"
proof -
  have dz: "distinct (map snd zs)" by (rule holds_dictD(4) [OF h])
  have set: "set ps = set (map snd zs)" by (rule mset_eq_setD [OF ps])
  have dp: "distinct ps" using dz mset_eq_imp_distinct_iff [OF ps] by simp
  let ?X = "\<lambda>i. \<lparr>sl_start = g_start (gs ! i), sl_end = g_end (gs ! i), sl_node = dict_abs d (g_key (gs ! i))\<rparr>"
  have z: "rt_slot rt (snd (zs ! i)) = Some (?X i)" if "i < length zs" for i
  proof -
    have "(gs ! i, snd (zs ! i)) \<in> set zs" using that gs by (metis nth_map nth_mem prod.collapse)
    then show ?thesis by (rule holds_slotD(3) [OF h])
  qed
  have ov: "overlap rt (snd (zs ! i)) (snd (zs ! j)) \<longleftrightarrow> (\<exists>k. g_covers (gs ! i) k \<and> g_covers (gs ! j) k)"
    if "i < length zs" "j < length zs" for i j
    using z [OF that(1)] z [OF that(2)] by (simp add: overlap_def covers_def g_covers_def)
  have ne: "snd (zs ! i) = snd (zs ! j) \<longleftrightarrow> i = j" if "i < length zs" "j < length zs" for i j
    using nth_eq_iff_index_eq [OF dz] that by simp
  have "no_overlap rt ps \<longleftrightarrow> (\<forall>i < length zs. \<forall>j < length zs. i \<noteq> j \<longrightarrow> \<not> overlap rt (snd (zs ! i)) (snd (zs ! j)))"
    unfolding no_overlap_set [OF dp] set all_set_conv_all_nth using ne by auto
  also have "\<dots> \<longleftrightarrow> (\<forall>i < length zs. \<forall>j < length zs. i \<noteq> j \<longrightarrow> \<not> (\<exists>k. g_covers (gs ! i) k \<and> g_covers (gs ! j) k))"
    by (simp add: ov)
  also have "\<dots> \<longleftrightarrow> disjoint_regions gs"
  proof -
    have l: "length gs = length zs" using gs by auto
    have "(\<forall>i < n. \<forall>j < n. i \<noteq> j \<longrightarrow> \<not> (\<exists>k. P i k \<and> P j k)) \<longleftrightarrow> (\<forall>i j k. i < j \<longrightarrow> j < n \<longrightarrow> \<not> (P i k \<and> P j k))" for n and P :: "nat \<Rightarrow> nat \<Rightarrow> bool"
      by (auto, metis less_trans linorder_neqE_nat)
    then show ?thesis unfolding disjoint_regions_def l .
  qed
  finally show ?thesis .
qed

lemma disjoint_length:
  assumes "disjoint_regions gs" "\<forall>g \<in> set gs. good_region g"
  shows "length gs \<le> 16384"
proof -
  have st: "g_covers g (g_start g)" "g_start g < 16384" if "g \<in> set gs" for g
    using assms(2) that by (auto simp: g_covers_def good_region_def)
  have "distinct (map g_start gs)"
  proof (clarsimp simp: distinct_conv_nth)
    fix i j assume a: "i < length gs" "j < length gs" "i \<noteq> j" "g_start (gs ! i) = g_start (gs ! j)"
    have "g_covers (gs ! i) (g_start (gs ! i))" "g_covers (gs ! j) (g_start (gs ! i))"
      using st(1) [of "gs ! i"] st(1) [of "gs ! j"] a by simp_all
    then show False using assms(1) a(1-3) unfolding disjoint_regions_def by (metis linorder_neqE_nat)
  qed
  then have "length gs = card (set (map g_start gs))" by (metis distinct_card length_map)
  also have "\<dots> \<le> card {..<16384 :: nat}" using st(2) by (intro card_mono) auto
  finally show ?thesis by simp
qed

text \<open>The old route of a context, whether it has one or not.\<close>

lemma old_route:
  assumes "route_ok rt" "grown (rt_next rt) rt rt'"
  obtains ys where "\<forall>f. rt_nodes rt' = Some f \<longrightarrow> holds 0 (rt_next rt) (rt_node rt') (rt_slot rt') (con_of rt) f ys"
    "\<forall>x. x \<notin> zkeys ys \<longrightarrow> con_of rt x = None" "rt_nodes rt' = None \<longrightarrow> ys = []"
proof (cases "rt_nodes rt")
  case None
  show thesis
    by (rule that [of "[]"]) (use None assms(2) in \<open>simp_all add: grown_def con_of_def\<close>)
next
  case (Some f)
  then obtain con zs where h: "holds 0 (rt_next rt) (rt_node rt) (rt_slot rt) con f zs" using assms(1) by (auto simp: route_ok_def)
  have c: "con_of rt x = (if x \<in> zkeys zs then con x else None)" for x by (rule con_of_holds [OF Some h])
  have "holds 0 (rt_next rt) (rt_node rt) (rt_slot rt) (con_of rt) f zs" by (rule holds_cons [OF h]) (simp add: c)
  then have "holds 0 (rt_next rt) (rt_node rt') (rt_slot rt') (con_of rt) f zs"
    by (rule holds_frame) (use assms(2) in \<open>simp_all add: grown_def\<close>)
  moreover have "\<forall>x. x \<notin> zkeys zs \<longrightarrow> con_of rt x = None" by (simp add: c)
  ultimately show thesis using Some assms(2) by (intro that [of zs]) (simp_all add: grown_def)
qed

lemma ordered_frame:
  assumes "ordered rt ps" "\<And>s. s \<in> set ps \<Longrightarrow> rt_slot rt' s = rt_slot rt s"
  shows "ordered rt' ps"
  unfolding ordered_def
proof (intro conjI allI impI)
  show "regions_ok rt' ps" using assms by (simp add: ordered_def regions_ok_def)
  fix i j x y assume a: "i < j" "j < length ps" "rt_slot rt' (ps ! i) = Some x" "rt_slot rt' (ps ! j) = Some y"
  have "rt_slot rt (ps ! i) = Some x" "rt_slot rt (ps ! j) = Some y" using assms(2) [of "ps ! i"] assms(2) [of "ps ! j"] a by simp_all
  then show "sl_end x < sl_start y" using assms(1) a(1,2) unfolding ordered_def by blast
qed

text \<open>The update up to the table of slots, for any reply with proper regions.\<close>

lemma update_prefix:
  assumes ok: "mem_ok rt" and rep: "rep (objs h) a (RArray (map region_reply gs))" "objs h a = Some r"
    and gs: "gs \<noteq> []" "\<forall>g \<in> set gs. good_region g" "length gs < 2147483648" and e: "\<And>n. can_alloc e n"
  obtains d rt1 zs sl ps where "map fst zs = gs" "grown (rt_next rt) rt rt1" "mem_ok rt1"
    "holds (rt_next rt) (rt_next rt1) (rt_node rt1) (rt_slot rt1) (\<lambda>x. None) d zs"
    "array_of sl ps" "mset ps = mset (map snd zs)" "regions_ok rt1 ps" "sorted (map (start_of rt1) ps)"
    "update_route e h False r rt =
       do { t \<leftarrow> fill_table rt1 (map Some ps) (\<lambda>k. None);
            case t of
              None \<Rightarrow> route_error FreedIter FreedIter d (rt_fail REDIS_ERR_OTHER ''Diffent node hold a same slot'' rt1)
            | Some t \<Rightarrow> install_route e d sl t rt1 }"
proof -
  obtain d rt1 zs where p: "parse_cluster_slots e h False r rt = Some (Some d, rt1)" "map fst zs = gs" "grown (rt_next rt) rt rt1"
    "mem_ok rt1" "holds (rt_next rt) (rt_next rt1) (rt_node rt1) (rt_slot rt1) (\<lambda>x. None) d zs"
    using parse_slots_ok [OF rep gs(1,2) e gs(3) ok] by blast
  have "\<forall>z \<in> set zs. good_region (fst z)" "zs \<noteq> []" "length zs < 2147483648"
    unfolding p(2) [symmetric] using gs unfolding p(2) [symmetric] by simp_all
  from collect_ok [OF p(5) this e] obtain sl0 sl ps where c: "hiarray_create (can_alloc e) (u32 (used d)) 8 = Some sl0"
    "push_nodes e (concat (chains d)) NoIter rt1 sl0 = Some (True, FreedIter, rt1, sl)"
    "array_of (hiarray_sort (cluster_slot_start_cmp rt1) sl) ps" "mset ps = mset (map snd zs)" "regions_ok rt1 ps"
    "sorted (map (start_of rt1) ps)" by blast
  have ty: "rp_type r = REDIS_REPLY_ARRAY" using rep by simp
  have "update_route e h False r rt =
      do { t \<leftarrow> fill_table rt1 (map Some ps) (\<lambda>k. None);
           case t of
             None \<Rightarrow> route_error FreedIter FreedIter d (rt_fail REDIS_ERR_OTHER ''Diffent node hold a same slot'' rt1)
           | Some t \<Rightarrow> install_route e d (hiarray_sort (cluster_slot_start_cmp rt1) sl) t rt1 }"
    using p(1) c(1,2) e ty entries_ok [OF holds_dictD(1) [OF p(5)]] array_read(3) [OF c(3)]
    by (simp add: update_route_def Let_def)
  from that [OF p(2-5) c(3-6) this] show thesis .
qed

lemma update_installs:
  assumes "route_ok rt" "rep (objs h) a (RArray (map region_reply gs))" "objs h a = Some r"
    and "gs \<noteq> []" "\<forall>g \<in> set gs. good_region g" "disjoint_regions gs" "\<forall>n. can_alloc e n"
  shows "\<exists>rt'. update_route e h False r rt = Some (True, rt') \<and> route_ok rt' \<and>
    (\<forall>g \<in> set gs. \<forall>k. g_covers g k \<longrightarrow>
      (\<exists>b n. node_get_by_table rt' k = Some b \<and> rt_node rt' b = Some n \<and> nd_addr n = Some (g_key g) \<and>
        nd_host n = Some (g_ip g) \<and> nd_port n = g_port g \<and> nd_con n = con_of rt (g_key g))) \<and>
    (\<forall>k. (\<forall>g \<in> set gs. \<not> g_covers g k) \<longrightarrow> node_get_by_table rt' k = None) \<and>
    set (rt_closed rt') = set (rt_closed rt) \<union> {v. \<exists>x. con_of rt x = Some v \<and> x \<notin> g_key ` set gs}"
proof -
  have len: "length gs < 2147483648" using disjoint_length [OF assms(6,5)] by simp
  have mem: "mem_ok rt" using assms(1) by (simp add: route_ok_def)
  obtain d rt1 zs sl ps where p: "map fst zs = gs" "grown (rt_next rt) rt rt1" "mem_ok rt1"
    "holds (rt_next rt) (rt_next rt1) (rt_node rt1) (rt_slot rt1) (\<lambda>x. None) d zs"
    "array_of sl ps" "mset ps = mset (map snd zs)" "regions_ok rt1 ps" "sorted (map (start_of rt1) ps)"
    and up: "update_route e h False r rt =
       do { t \<leftarrow> fill_table rt1 (map Some ps) (\<lambda>k. None);
            case t of
              None \<Rightarrow> route_error FreedIter FreedIter d (rt_fail REDIS_ERR_OTHER ''Diffent node hold a same slot'' rt1)
            | Some t \<Rightarrow> install_route e d sl t rt1 }"
    by (rule update_prefix [OF mem assms(2-5) len assms(7) [rule_format]])
  have no: "no_overlap rt1 ps" using no_overlap_regions [OF p(4,6,1)] assms(6) by simp
  have ord: "ordered rt1 ps" by (rule ordered_sorted [OF p(7) no p(8)])
  obtain t where t: "fill_table rt1 (map Some ps) (\<lambda>k. None) = Some (Some t)"
    "\<forall>s \<in> set ps. \<forall>x k. rt_slot rt1 s = Some x \<longrightarrow> covers x k \<longrightarrow> t k = sl_node x"
    "\<forall>k. (\<forall>s \<in> set ps. \<forall>x. rt_slot rt1 s = Some x \<longrightarrow> \<not> covers x k) \<longrightarrow> t k = None"
    using fill_table_ok [OF p(7) no, of "\<lambda>k. None"] by blast
  obtain ys where old: "\<forall>f. rt_nodes rt1 = Some f \<longrightarrow> holds 0 (rt_next rt) (rt_node rt1) (rt_slot rt1) (con_of rt) f ys"
    "\<forall>x. x \<notin> zkeys ys \<longrightarrow> con_of rt x = None" "rt_nodes rt1 = None \<longrightarrow> ys = []"
    by (rule old_route [OF assms(1) p(2)])
  from install_ok [OF p(3,4) assms(7) [rule_format] old(1) [rule_format] old(2) old(3) [rule_format], of sl t]
  obtain N S cl where inst: "install_route e d sl t rt1 = Some (True, rt1\<lparr>rt_node := N, rt_slot := S, rt_closed := rt_closed rt1 @ cl,
      rt_nodes := Some d, rt_slots := Some sl, rt_table := t, rt_version := (rt_version rt1 + 1) mod 18446744073709551616\<rparr>)"
    "holds (rt_next rt) (rt_next rt1) N S (\<lambda>x. if x \<in> zkeys zs then con_of rt x else None) d zs"
    "\<forall>a. rt_next rt \<le> a \<longrightarrow> S a = rt_slot rt1 a" "\<forall>a \<ge> rt_next rt1. N a = None \<and> S a = None"
    "set cl = {v. \<exists>x. con_of rt x = Some v \<and> x \<notin> zkeys zs}"
    by blast
  let ?rt = "rt1\<lparr>rt_node := N, rt_slot := S, rt_closed := rt_closed rt1 @ cl,
      rt_nodes := Some d, rt_slots := Some sl, rt_table := t, rt_version := (rt_version rt1 + 1) mod 18446744073709551616\<rparr>"
  have ps: "set ps = snd ` set zs" using mset_eq_setD [OF p(6)] by simp
  have slot: "S s = rt_slot rt1 s" if "s \<in> set ps" for s
    using inst(3) holds_slotD(1) [OF p(4)] that unfolding ps by fastforce
  have zk: "zkeys zs = g_key ` set gs" using p(1) by force
  have "length ps < 4294967296" using mset_eq_length [OF p(6)] p(1) len by auto
  moreover have "ordered ?rt ps" by (rule ordered_frame [OF ord]) (simp add: slot)
  moreover have "serves ?rt ps" using t(2,3) slot by (simp add: serves_def)
  ultimately have ok: "route_ok ?rt"
    using inst(4) holds_lower [OF inst(2)] p(5) ps by (auto simp: route_ok_def mem_ok_def)
  have served: "\<exists>b n. node_get_by_table ?rt k = Some b \<and> rt_node ?rt b = Some n \<and> nd_addr n = Some (g_key g) \<and>
      nd_host n = Some (g_ip g) \<and> nd_port n = g_port g \<and> nd_con n = con_of rt (g_key g)" if g: "g \<in> set gs" "g_covers g k" for g k
  proof -
    obtain s where s: "(g, s) \<in> set zs" using g(1) p(1) by auto
    have "s \<in> set ps" unfolding ps using s by force
    then have "t k = dict_abs d (g_key g)"
      using t(2) holds_slotD(3) [OF p(4) s] g(2) by (auto simp: covers_def g_covers_def)
    moreover have kz: "g_key g \<in> zkeys zs" unfolding zk using g(1) by blast
    then obtain b where b: "dict_abs d (g_key g) = Some b" using holds_dictD(5) [OF p(4)] by blast
    obtain g' n where n: "g' \<in> fst ` set zs" "g_key g' = g_key g" "N b = Some n" "node_for g' (slots_of zs (g_key g)) (con_of rt (g_key g)) n"
      using holds_nodeD(3) [OF inst(2) b] unfolding if_P [OF kz] by blast
    have "g' \<in> set gs" using n(1) unfolding p(1) [symmetric] by simp
    then have gg: "good_region g" "good_region g'" using assms(5) g(1) by blast+
    have "g_ip g' = g_ip g" "g_port g' = g_port g" using key_inject [OF gg(2,1) n(2)] .
    moreover have "k < 16384" using g(2) gg(1) by (simp add: g_covers_def good_region_def)
    ultimately show ?thesis using b n by (simp add: node_get_by_table_def node_for_def)
  qed
  have "node_get_by_table ?rt k = None" if k: "\<forall>g \<in> set gs. \<not> g_covers g k" for k
  proof -
    have "\<not> covers x k" if s: "s \<in> set ps" "rt_slot rt1 s = Some x" for s x
    proof -
      have "s \<in> snd ` set zs" using s(1) unfolding ps .
      then obtain g where z: "(g, s) \<in> set zs" by auto
      then have "g \<in> set gs" using p(1) by force
      then show ?thesis using k holds_slotD(3) [OF p(4) z] s(2) by (auto simp: covers_def g_covers_def)
    qed
    then show ?thesis using t(3) by (simp add: node_get_by_table_def)
  qed
  moreover have "set (rt_closed ?rt) = set (rt_closed rt) \<union> {v. \<exists>x. con_of rt x = Some v \<and> x \<notin> g_key ` set gs}"
    using p(2) inst(5) unfolding zk by (simp add: grown_def)
  ultimately show ?thesis using up t(1) inst(1) ok served by (intro exI [of _ ?rt]) auto
qed

text \<open>A small reply and an empty context.\<close>

definition a_region :: "nat \<Rightarrow> nat \<Rightarrow> region" where
  "a_region u v = \<lparr>g_start = u, g_end = v, g_ip = ''h'', g_port = 6379, g_id = RNil, g_replicas = []\<rparr>"

definition a_heap :: heap where
  "a_heap = \<lparr>objs = [0 \<mapsto> array_cell [Some 2, Some 12], 2 \<mapsto> array_cell [Some 4, Some 5, Some 6],
      4 \<mapsto> (zeroed REDIS_REPLY_INTEGER)\<lparr>rp_integer := 0\<rparr>, 5 \<mapsto> (zeroed REDIS_REPLY_INTEGER)\<lparr>rp_integer := 9\<rparr>,
      6 \<mapsto> array_cell [Some 8, Some 10, Some 11], 8 \<mapsto> string_cell REDIS_REPLY_STRING ''h'',
      10 \<mapsto> (zeroed REDIS_REPLY_INTEGER)\<lparr>rp_integer := 6379\<rparr>, 11 \<mapsto> zeroed REDIS_REPLY_NIL,
      12 \<mapsto> array_cell [Some 14, Some 15, Some 16],
      14 \<mapsto> (zeroed REDIS_REPLY_INTEGER)\<lparr>rp_integer := 5\<rparr>, 15 \<mapsto> (zeroed REDIS_REPLY_INTEGER)\<lparr>rp_integer := 12\<rparr>,
      16 \<mapsto> array_cell [Some 18, Some 20, Some 21], 18 \<mapsto> string_cell REDIS_REPLY_STRING ''h'',
      20 \<mapsto> (zeroed REDIS_REPLY_INTEGER)\<lparr>rp_integer := 6379\<rparr>, 21 \<mapsto> zeroed REDIS_REPLY_NIL,
      30 \<mapsto> array_cell [Some 32], 32 \<mapsto> array_cell [Some 34, Some 35, Some 36],
      34 \<mapsto> (zeroed REDIS_REPLY_INTEGER)\<lparr>rp_integer := 0\<rparr>, 35 \<mapsto> (zeroed REDIS_REPLY_INTEGER)\<lparr>rp_integer := 9\<rparr>,
      36 \<mapsto> array_cell [Some 38, Some 40, Some 41], 38 \<mapsto> string_cell REDIS_REPLY_STRING ''h'',
      40 \<mapsto> (zeroed REDIS_REPLY_INTEGER)\<lparr>rp_integer := 6379\<rparr>, 41 \<mapsto> zeroed REDIS_REPLY_NIL],
    hcount = 42, hfail = (\<lambda>n. False)\<rparr>"

definition a_route :: route where
  "a_route = \<lparr>rt_err = \<lparr>cc_err = 0, cc_errstr = []\<rparr>, rt_nodes = None, rt_slots = None, rt_table = (\<lambda>k. None), rt_version = 0,
     rt_node = Map.empty, rt_slot = Map.empty, rt_next = 0, rt_closed = []\<rparr>"

definition a_menv :: menv where
  "a_menv = \<lparr>can_alloc = (\<lambda>n. True), junk = (\<lambda>n. NUL)\<rparr>"

lemma a_facts: "route_ok a_route" "\<forall>n. can_alloc a_menv n" "\<forall>g \<in> set [a_region 0 9, a_region 5 12]. good_region g"
  "con_of a_route x = None" "rt_closed a_route = []"
  by (simp_all add: a_route_def route_ok_def mem_ok_def a_menv_def a_region_def good_region_def con_of_def)

lemma a_replies: "rep (objs a_heap) 0 (RArray (map region_reply [a_region 0 9, a_region 5 12]))"
  "rep (objs a_heap) 30 (RArray (map region_reply [a_region 0 9]))"
  "objs a_heap 0 = Some (array_cell [Some 2, Some 12])" "objs a_heap 30 = Some (array_cell [Some 32])"
  by (simp_all add: a_heap_def a_region_def region_reply_def node_reply_def numeral_eq_Suc)

text \<open>C9 A route update from a reply to \<^verbatim>\<open>CLUSTER SLOTS\<close> with disjoint regions gives the context exactly the
  route of the reply: every slot of a region is served by the node with the address, host and port
  of its master, a slot outside the regions by none.  Nodes that stay keep their connections, and
  exactly the connections of the nodes that are gone are closed.  The invariant of the context
  holds again.\<close>

theorem route_updated:
  assumes "route_ok rt" "rep (objs h) a (RArray (map region_reply gs))" "objs h a = Some r"
    and "gs \<noteq> []" "\<forall>g \<in> set gs. good_region g" "disjoint_regions gs" "\<forall>n. can_alloc e n"
  shows "\<exists>rt'. update_route e h False r rt = Some (True, rt') \<and> route_ok rt' \<and>
    (\<forall>g \<in> set gs. \<forall>k. g_covers g k \<longrightarrow>
      (\<exists>b n. node_get_by_table rt' k = Some b \<and> rt_node rt' b = Some n \<and> nd_addr n = Some (g_key g) \<and>
        nd_host n = Some (g_ip g) \<and> nd_port n = g_port g \<and> nd_con n = con_of rt (g_key g))) \<and>
    (\<forall>k. (\<forall>g \<in> set gs. \<not> g_covers g k) \<longrightarrow> node_get_by_table rt' k = None) \<and>
    set (rt_closed rt') = set (rt_closed rt) \<union> {v. \<exists>x. con_of rt x = Some v \<and> x \<notin> g_key ` set gs}"
  by (rule update_installs [OF assms])

theorem route_updated_witness:
  "\<exists>rt b n. update_route a_menv a_heap False (array_cell [Some 32]) a_route = Some (True, rt) \<and> route_ok rt \<and>
    node_get_by_table rt 7 = Some b \<and> rt_node rt b = Some n \<and> nd_host n = Some ''h'' \<and> nd_port n = 6379 \<and>
    node_get_by_table rt 10 = None \<and> rt_closed rt = []"
proof -
  have g: "\<forall>g \<in> set [a_region 0 9]. good_region g" "disjoint_regions [a_region 0 9]" "[a_region 0 9] \<noteq> []"
    using a_facts(3) by (simp_all add: disjoint_regions_def)
  from route_updated [OF a_facts(1) a_replies(2,4) g(3,1,2) a_facts(2)] obtain rt where
    rt: "update_route a_menv a_heap False (array_cell [Some 32]) a_route = Some (True, rt)" "route_ok rt"
    "\<forall>g \<in> set [a_region 0 9]. \<forall>k. g_covers g k \<longrightarrow>
      (\<exists>b n. node_get_by_table rt k = Some b \<and> rt_node rt b = Some n \<and> nd_addr n = Some (g_key g) \<and>
        nd_host n = Some (g_ip g) \<and> nd_port n = g_port g \<and> nd_con n = con_of a_route (g_key g))"
    "\<forall>k. (\<forall>g \<in> set [a_region 0 9]. \<not> g_covers g k) \<longrightarrow> node_get_by_table rt k = None"
    "set (rt_closed rt) = set (rt_closed a_route) \<union> {v. \<exists>x. con_of a_route x = Some v \<and> x \<notin> g_key ` set [a_region 0 9]}"
    by blast
  have "g_covers (a_region 0 9) 7" "\<not> g_covers (a_region 0 9) 10" by (simp_all add: g_covers_def a_region_def)
  with rt(3,4) have "\<exists>b n. node_get_by_table rt 7 = Some b \<and> rt_node rt b = Some n \<and> nd_host n = Some ''h'' \<and> nd_port n = 6379"
    "node_get_by_table rt 10 = None" by (force simp: a_region_def)+
  moreover have "rt_closed rt = []" using rt(5) a_facts(4,5) by simp
  ultimately show ?thesis using rt(1,2) by blast
qed

text \<open>C10 On a context with the invariant the binary search over the regions and the table of slots
  agree: a slot that the table serves is found by the search, which ends with the same node.\<close>

theorem lookups_agree:
  assumes "route_ok rt" "node_get_by_table rt k = Some a"
  shows "node_get_by_slot rt k = Some (Some a)"
proof -
  have k: "k < 16384" "rt_table rt k = Some a" using assms(2) by (simp_all add: node_get_by_table_def split: if_splits)
  then obtain d where d: "rt_nodes rt = Some d" using assms(1) by (cases "rt_nodes rt") (auto simp: route_ok_def)
  then obtain sl ps where r: "rt_slots rt = Some sl" "array_of sl ps" "length ps < 4294967296" "ordered rt ps" "serves rt ps"
    using assms(1) by (auto simp: route_ok_def)
  obtain s x where s: "s \<in> set ps" "rt_slot rt s = Some x" "covers x k"
    using r(5) k(2) unfolding serves_def by (metis option.distinct(1))
  then obtain i where i: "i < length ps" "ps ! i = s" by (auto simp: in_set_conv_nth)
  have "sl_node x = Some a" using r(5) s k(2) unfolding serves_def by metis
  moreover have "u32 (length ps + 4294967295) = length ps - 1" using i(1) r(3) by (cases ps) (simp_all add: u32_def mod_if)
  moreover have "search_slot rt sl k 0 (length ps - 1) = Some (sl_node x)"
    by (rule search_finds [OF r(2,4) _ s(3) r(3)]) (use i s(2) in auto)
  ultimately show ?thesis using k(1) r(1) array_read(2) [OF r(2)] by (simp add: node_get_by_slot_def)
qed

theorem lookups_agree_witness:
  "\<exists>rt a. update_route a_menv a_heap False (array_cell [Some 32]) a_route = Some (True, rt) \<and> node_get_by_table rt 7 = Some a \<and>
    node_get_by_slot rt 7 = Some (Some a)"
proof -
  have g: "\<forall>g \<in> set [a_region 0 9]. good_region g" "disjoint_regions [a_region 0 9]" "[a_region 0 9] \<noteq> []"
    using a_facts(3) by (simp_all add: disjoint_regions_def)
  have "g_covers (a_region 0 9) 7" by (simp add: g_covers_def a_region_def)
  then obtain rt a where "update_route a_menv a_heap False (array_cell [Some 32]) a_route = Some (True, rt)" "route_ok rt"
    "node_get_by_table rt 7 = Some a"
    using update_installs [OF a_facts(1) a_replies(2,4) g(3,1,2) a_facts(2)] by (auto simp del: One_nat_def)
  with lookups_agree [of rt 7 a] show ?thesis by blast
qed

text \<open>C40 A reply in which two regions share a slot makes the update release its iterators a second
  time: they were released before the table of slots is filled, and the error exit releases every
  iterator that is not null.\<close>

theorem overlap_double_free:
  assumes "route_ok rt" "rep (objs h) a (RArray (map region_reply gs))" "objs h a = Some r"
    and "gs \<noteq> []" "\<forall>g \<in> set gs. good_region g" "length gs < 2147483648" "\<not> disjoint_regions gs" "\<forall>n. can_alloc e n"
  shows "update_route e h False r rt = None"
proof -
  have mem: "mem_ok rt" using assms(1) by (simp add: route_ok_def)
  obtain d rt1 zs sl ps where p: "map fst zs = gs"
    "holds (rt_next rt) (rt_next rt1) (rt_node rt1) (rt_slot rt1) (\<lambda>x. None) d zs"
    "mset ps = mset (map snd zs)" "regions_ok rt1 ps"
    and up: "update_route e h False r rt =
       do { t \<leftarrow> fill_table rt1 (map Some ps) (\<lambda>k. None);
            case t of
              None \<Rightarrow> route_error FreedIter FreedIter d (rt_fail REDIS_ERR_OTHER ''Diffent node hold a same slot'' rt1)
            | Some t \<Rightarrow> install_route e d sl t rt1 }"
    by (rule update_prefix [OF mem assms(2-6) assms(8) [rule_format]])
  have "\<not> no_overlap rt1 ps" using no_overlap_regions [OF p(2,3,1)] assms(7) by simp
  then have "fill_table rt1 (map Some ps) (\<lambda>k. None) = Some None" using p(4) by (intro fill_table_clash) simp_all
  then show ?thesis using up by (simp add: route_error_def release_iter_def)
qed

theorem overlap_double_free_witness: "update_route a_menv a_heap False (array_cell [Some 2, Some 12]) a_route = None"
proof -
  have "g_covers (a_region 0 9) 7" "g_covers (a_region 5 12) 7" by (simp_all add: g_covers_def a_region_def)
  then have "\<not> disjoint_regions [a_region 0 9, a_region 5 12]"
    unfolding disjoint_regions_def by (metis length_Cons lessI list.size(3) nth_Cons_0 nth_Cons_Suc zero_less_Suc)
  then show ?thesis
    using overlap_double_free [OF a_facts(1) a_replies(1,3) _ a_facts(3) _ _ a_facts(2)] by simp
qed

end
