(* ===== verification/Signature.thy ===== *)
theory Signature
  imports Prelude "HOL-Library.Word"
begin

unbundle bit_operations_syntax

text \<open>
  Model of \<^verbatim>\<open>utils.cpp\<close>: the file signature, the path of a file by its signature, random names,
  and the creation of directories.  The digest functions of the crypto library and the calls of
  the operating system are parameters.
\<close>

section \<open>The signature of a file\<close>

type_synonym byte = "8 word"

definition reverse_byte_order :: "nat \<Rightarrow> byte list \<Rightarrow> byte list" where
  "reverse_byte_order k buf =
     (let t = buf ! k;
          buf = buf[k := buf ! (k + 3)];
          buf = buf[k + 3 := t];
          t = buf ! (k + 1);
          buf = buf[k + 1 := buf ! (k + 2)] in
      buf[k + 2 := t])"

text \<open>A \<^verbatim>\<open>unsigned int\<close> read from four bytes on a little-endian machine.\<close>

definition load32 :: "byte list \<Rightarrow> nat \<Rightarrow> 32 word" where
  "load32 buf k = ucast (buf ! k) OR push_bit 8 (ucast (buf ! (k + 1))) OR push_bit 16 (ucast (buf ! (k + 2))) OR
     push_bit 24 (ucast (buf ! (k + 3)))"

text \<open>The results of the calls of \<^verbatim>\<open>read\<close>: a negative result is \<^term>\<open>None\<close>, the result 0 is the empty
  list, and the calls behind the end of the list return 0.\<close>

fun digest_loop :: "('m \<Rightarrow> byte list \<Rightarrow> 'm) \<Rightarrow> 'm \<Rightarrow> byte list option list \<Rightarrow> 'm option" where
  "digest_loop upd ctx [] = Some ctx"
| "digest_loop upd ctx (None # rs) = None"
| "digest_loop upd ctx (Some buf # rs) = (if buf = [] then Some ctx else digest_loop upd (upd ctx buf) rs)"

definition calcSig :: "'m \<Rightarrow> ('m \<Rightarrow> byte list \<Rightarrow> 'm) \<Rightarrow> ('m \<Rightarrow> byte list) \<Rightarrow> bool \<Rightarrow> byte list option list \<Rightarrow> (32 word \<times> 32 word) option" where
  "calcSig init upd fin opened reads =
     (if \<not> opened then None
      else
        (case digest_loop upd init reads of
           None \<Rightarrow> None
         | Some ctx \<Rightarrow>
             (let md5val = reverse_byte_order 12 (reverse_byte_order 8 (reverse_byte_order 4 (reverse_byte_order 0 (fin ctx)))) in
              Some (load32 md5val 0 XOR load32 md5val 4, load32 md5val 8 XOR load32 md5val 12))))"

section \<open>Names and paths\<close>

definition fmt_map :: "(string \<times> string) list" where
  "fmt_map = [(''mp3'', ''n''), (''wma'', ''m''), (''mkv'', ''v''), (''wmv'', ''v''), (''ape'', ''s''), (''flac'', ''s''),
     (''aac'', ''a''), (''jpg'', ''p''), (''f4v'', ''v''), (''mp4'', ''m''), (''default'', ''d'')]"

definition sigPath :: "32 word \<Rightarrow> 32 word \<Rightarrow> string \<Rightarrow> string" where
  "sigPath sig1 sig2 fmt =
     (let fmt = map c_tolower fmt;
          d1 = unat (sig2 mod 100);
          d2 = unat (sig2 div 100 mod 100);
          dv = unat ((sig1 XOR sig2) mod 3) + 1;
          p = (case map_of fmt_map fmt of Some p \<Rightarrow> p | None \<Rightarrow> ''d'') in
      p @ dec dv @ ''/'' @ dec d1 @ ''/'' @ dec d2 @ ''/'' @ dec (unat sig1) @ ''.'' @ fmt)"

definition ispunct :: "char \<Rightarrow> bool" where
  "ispunct c \<longleftrightarrow> (let n = ord c in 33 \<le> n \<and> n \<le> 47 \<or> 58 \<le> n \<and> n \<le> 64 \<or> 91 \<le> n \<and> n \<le> 96 \<or> 123 \<le> n \<and> n \<le> 126)"

definition remove_space_punct :: "string \<Rightarrow> string" where
  "remove_space_punct source = filter (\<lambda>c. \<not> isspace c) (filter (\<lambda>c. \<not> ispunct c) source)"

text \<open>The results of \<^verbatim>\<open>rand\<close> are a list, which is long enough.\<close>

definition STR_chars :: string where
  "STR_chars = ''abcdefghijklmnopqrstuvwxyzABCDEFGHIJKLMNOPQRSTUVWXYZ0123456789''"

definition rand_char :: "bool \<Rightarrow> bool \<Rightarrow> nat \<Rightarrow> char" where
  "rand_char isCapital isNum r =
     (if isCapital \<and> isNum then STR_chars ! (r mod length STR_chars)
      else if isCapital \<and> \<not> isNum then STR_chars ! (r mod (length STR_chars - 10))
      else if \<not> isCapital \<and> isNum then
        (let index = r mod length STR_chars;
             index = (if index > 25 \<and> index < 51 then index + 26 else index) in
         STR_chars ! (index mod length STR_chars))
      else STR_chars ! (r mod (length STR_chars - 36)))"

definition randString :: "int \<Rightarrow> bool \<Rightarrow> bool \<Rightarrow> nat list \<Rightarrow> string" where
  "randString len isCapital isNum rs = map (rand_char isCapital isNum) (take (nat len) rs)"

section \<open>Directories and files\<close>

text \<open>\<^verbatim>\<open>rfind\<close> and \<^verbatim>\<open>substr\<close>: the part before the last slash.\<close>

definition dirname :: "string \<Rightarrow> string option" where
  "dirname p = (if CHR ''/'' \<in> set p then Some (rev (tl (dropWhile (\<lambda>c. c \<noteq> CHR ''/'') (rev p)))) else None)"

lemma dirname_shorter: "dirname p = Some q \<Longrightarrow> length q < length p"
proof -
  assume a: "dirname p = Some q"
  let ?d = "dropWhile (\<lambda>c. c \<noteq> CHR ''/'') (rev p)"
  have "CHR ''/'' \<in> set (rev p)" and q: "q = rev (tl ?d)" using a by (auto simp: dirname_def split: if_splits)
  then have "?d \<noteq> []" by (auto simp: dropWhile_eq_Nil_conv)
  then have "length (tl ?d) < length ?d" by simp
  moreover have "length ?d \<le> length p" using length_dropWhile_le [of _ "rev p"] by simp
  ultimately show ?thesis unfolding q by simp
qed

text \<open>The result is whether the call returned 0, with the state of the file system; the mode of
  \<^verbatim>\<open>access\<close> asks for a writable file or for a directory one can enter.\<close>

datatype amode = F_W_OK | F_W_X_OK

function mkdirs :: "('f \<Rightarrow> amode \<Rightarrow> string \<Rightarrow> bool) \<Rightarrow> (string \<Rightarrow> 32 word \<Rightarrow> 'f \<Rightarrow> bool \<times> 'f) \<Rightarrow>
    string \<Rightarrow> 32 word \<Rightarrow> 'f \<Rightarrow> bool \<times> 'f" where
  "mkdirs access mkdir pathname mode fs =
     (case dirname pathname of
        None \<Rightarrow> mkdir pathname mode fs
      | Some subpath \<Rightarrow>
          if subpath \<noteq> [] \<and> \<not> access fs F_W_X_OK subpath then
            (case mkdirs access mkdir subpath mode fs of
               (False, fs) \<Rightarrow> (False, fs)
             | (True, fs) \<Rightarrow> mkdir pathname mode fs)
          else mkdir pathname mode fs)"
  by pat_completeness auto
termination
  by (relation "measure (\<lambda>(access, mkdir, p, mode, fs). length p)") (auto dest: dirname_shorter)

text \<open>\<^verbatim>\<open>S_IRWXU | S_IRWXG | S_IROTH | S_IXOTH\<close>.\<close>

definition mv_mode :: "32 word" where
  "mv_mode = 0x1FD"

definition mvfile :: "('f \<Rightarrow> amode \<Rightarrow> string \<Rightarrow> bool) \<Rightarrow> (string \<Rightarrow> 32 word \<Rightarrow> 'f \<Rightarrow> bool \<times> 'f) \<Rightarrow> (string \<Rightarrow> string \<Rightarrow> 'f \<Rightarrow> bool \<times> 'f) \<Rightarrow>
    string \<Rightarrow> string \<Rightarrow> 'f \<Rightarrow> bool \<times> 'f" where
  "mvfile access mkdir rename src dst fs =
     (if \<not> access fs F_W_OK src then (False, fs)
      else
        (case dirname dst of
           None \<Rightarrow> rename src dst fs
         | Some dst_path \<Rightarrow>
             if \<not> access fs F_W_X_OK dst_path then
               (case mkdirs access mkdir dst_path mv_mode fs of
                  (False, fs) \<Rightarrow> (False, fs)
                | (True, fs) \<Rightarrow> rename src dst fs)
             else rename src dst fs))"

section \<open>Laws of the signature\<close>

definition be32 :: "byte list \<Rightarrow> nat \<Rightarrow> 32 word" where
  "be32 buf k = push_bit 24 (ucast (buf ! k)) OR push_bit 16 (ucast (buf ! (k + 1))) OR push_bit 8 (ucast (buf ! (k + 2))) OR
     ucast (buf ! (k + 3))"

lemma length_reverse [simp]: "length (reverse_byte_order k buf) = length buf"
  by (simp add: reverse_byte_order_def Let_def)

lemma reverse_nth:
  assumes "k + 3 < length buf"
  shows "reverse_byte_order k buf ! j =
    (if j = k then buf ! (k + 3) else if j = k + 1 then buf ! (k + 2) else if j = k + 2 then buf ! (k + 1)
     else if j = k + 3 then buf ! k else buf ! j)"
  using assms by (simp add: reverse_byte_order_def Let_def nth_list_update)

lemma load_reversed: "k + 3 < length buf \<Longrightarrow> load32 (reverse_byte_order k buf) k = be32 buf k"
  by (simp add: load32_def be32_def reverse_nth or.left_commute or.commute)

lemma load_other: "k + 3 < length buf \<Longrightarrow> j + 3 < k \<or> k + 3 < j \<Longrightarrow> load32 (reverse_byte_order k buf) j = load32 buf j"
  by (auto simp: load32_def reverse_nth)

lemma be_other: "k + 3 < length buf \<Longrightarrow> j + 3 < k \<or> k + 3 < j \<Longrightarrow> be32 (reverse_byte_order k buf) j = be32 buf j"
  by (auto simp: be32_def reverse_nth)

lemma read_chunks:
  assumes "\<forall>s a b. upd (upd s a) b = upd s (a @ b)" "\<forall>s. upd s [] = s"
  shows "[] \<notin> set cs \<Longrightarrow> digest_loop upd s (map Some cs @ rs) = digest_loop upd (upd s (concat cs)) rs"
proof (induction cs arbitrary: s)
  case Nil
  then show ?case using assms(2) by simp
next
  case (Cons c cs)
  then show ?case using assms(1) by auto
qed

text \<open>C4 The signature of a file is made of the digest of its contents, read as four big-endian numbers:
  the first number of the signature combines the first two, the second one the last two.  It does
  not depend on how \<^verbatim>\<open>read\<close> cuts the contents into pieces before it returns 0, and a failing \<^verbatim>\<open>read\<close>
  gives no signature.  The digest functions may be fed in pieces and give 16 bytes.\<close>

theorem calcSig_value:
  assumes "\<forall>s a b. upd (upd s a) b = upd s (a @ b)" "\<forall>s. upd s [] = s" "\<forall>s. length (fin s) = 16"
    and "[] \<notin> set chunks"
  shows "calcSig init upd fin True (map Some chunks @ Some [] # rest) =
      (let md5 = fin (upd init (concat chunks)) in Some (be32 md5 0 XOR be32 md5 4, be32 md5 8 XOR be32 md5 12)) \<and>
    calcSig init upd fin True (map Some chunks @ None # rest) = None"
proof -
  have r: "digest_loop upd init (map Some chunks @ Some [] # rest) = Some (upd init (concat chunks))"
    using read_chunks [OF assms(1,2,4), of init "Some [] # rest"] by simp
  have f: "digest_loop upd init (map Some chunks @ None # rest) = None"
    using read_chunks [OF assms(1,2,4), of init "None # rest"] by simp
  show ?thesis
    using assms(3) by (simp add: calcSig_def r f Let_def load_reversed load_other be_other)
qed

theorem calcSig_value_witness:
  "calcSig [] (@) (\<lambda>s. take 16 (s @ replicate 16 0)) True [Some [1, 2], Some [3, 4, 5], Some []] = Some (0x04020304, 0)"
proof -
  let ?fin = "\<lambda>s :: byte list. take 16 (s @ replicate 16 0)"
  have laws: "\<forall>s a b :: byte list. (s @ a) @ b = s @ (a @ b)" "\<forall>s :: byte list. s @ [] = s" "\<forall>s. length (?fin s) = 16"
    "[] \<notin> set [[1, 2], [3, 4, 5 :: byte]]"
    by (simp_all add: min_def)
  have "calcSig [] (@) ?fin True (map Some [[1, 2], [3, 4, 5]] @ [Some []]) =
      (let md5 = ?fin ([] @ concat [[1, 2], [3, 4, 5]]) in Some (be32 md5 0 XOR be32 md5 4, be32 md5 8 XOR be32 md5 12))"
    using calcSig_value [OF laws] by blast
  also have "\<dots> = Some (0x04020304, 0)" by code_simp
  finally show ?thesis by simp
qed

text \<open>The part of a path before the first separator.\<close>

lemma split_first: "a @ c # x = b @ c # y \<Longrightarrow> c \<notin> set a \<Longrightarrow> c \<notin> set b \<Longrightarrow> a = b \<and> x = y"
  by (auto simp: append_eq_append_conv2 append_eq_Cons_conv Cons_eq_append_conv)

lemma dec_no_sep: "CHR ''/'' \<notin> set (dec n)" "CHR ''.'' \<notin> set (dec n)"
proof -
  have "\<not> isdigit (CHR ''/'')" "\<not> isdigit (CHR ''.'')" by code_simp+
  then show "CHR ''/'' \<notin> set (dec n)" "CHR ''.'' \<notin> set (dec n)" using dec_digits by blast+
qed

lemma fmt_letter: "\<exists>c. (case map_of fmt_map f of Some p \<Rightarrow> p | None \<Rightarrow> ''d'') = [c]"
  by (auto simp: fmt_map_def)

text \<open>C5 The path made from a signature identifies it: equal paths come from the same first number, from
  second numbers with the same last four decimal digits, from the same partition, which is 1, 2 or
  3, and from formats that are equal up to case.\<close>

theorem sigPath_identifies:
  assumes "sigPath s1 s2 f = sigPath t1 t2 g"
  shows "s1 = t1 \<and> unat s2 mod 10000 = unat t2 mod 10000 \<and> (s1 XOR s2) mod 3 = (t1 XOR t2) mod 3 \<and>
    map c_tolower f = map c_tolower g"
proof -
  let ?d1 = "\<lambda>s :: 32 word. unat (s mod 100)" and ?d2 = "\<lambda>s :: 32 word. unat (s div 100 mod 100)"
  let ?dv = "\<lambda>s t :: 32 word. unat ((s XOR t) mod 3) + 1"
  obtain c d where cd: "(case map_of fmt_map (map c_tolower f) of Some p \<Rightarrow> p | None \<Rightarrow> ''d'') = [c]"
    "(case map_of fmt_map (map c_tolower g) of Some p \<Rightarrow> p | None \<Rightarrow> ''d'') = [d]" using fmt_letter by metis
  have "dec (?dv s1 s2) @ CHR ''/'' # dec (?d1 s2) @ CHR ''/'' # dec (?d2 s2) @ CHR ''/'' # dec (unat s1) @ CHR ''.'' # map c_tolower f =
      dec (?dv t1 t2) @ CHR ''/'' # dec (?d1 t2) @ CHR ''/'' # dec (?d2 t2) @ CHR ''/'' # dec (unat t1) @ CHR ''.'' # map c_tolower g"
    using assms cd by (simp add: sigPath_def Let_def)
  from split_first [OF this dec_no_sep(1) dec_no_sep(1)]
  have 1: "?dv s1 s2 = ?dv t1 t2" and "dec (?d1 s2) @ CHR ''/'' # dec (?d2 s2) @ CHR ''/'' # dec (unat s1) @ CHR ''.'' # map c_tolower f =
      dec (?d1 t2) @ CHR ''/'' # dec (?d2 t2) @ CHR ''/'' # dec (unat t1) @ CHR ''.'' # map c_tolower g" by simp_all
  from split_first [OF this(2) dec_no_sep(1) dec_no_sep(1)]
  have 2: "?d1 s2 = ?d1 t2" and "dec (?d2 s2) @ CHR ''/'' # dec (unat s1) @ CHR ''.'' # map c_tolower f =
      dec (?d2 t2) @ CHR ''/'' # dec (unat t1) @ CHR ''.'' # map c_tolower g" by simp_all
  from split_first [OF this(2) dec_no_sep(1) dec_no_sep(1)]
  have 3: "?d2 s2 = ?d2 t2" and "dec (unat s1) @ CHR ''.'' # map c_tolower f = dec (unat t1) @ CHR ''.'' # map c_tolower g" by simp_all
  from split_first [OF this(2) dec_no_sep(2) dec_no_sep(2)]
  have 4: "s1 = t1" "map c_tolower f = map c_tolower g" by (auto intro: unsigned_word_eqI)
  have m: "unat s mod 10000 = 100 * unat (s div 100 mod 100) + unat (s mod 100)" for s :: "32 word"
    by (simp add: unat_mod_distrib unat_div_distrib mod_mult2_eq [of "unat s" 100 100, simplified])
  have "unat s2 mod 10000 = unat t2 mod 10000" using 2 3 unfolding m by simp
  moreover have "(s1 XOR s2) mod 3 = (t1 XOR t2) mod 3" using 1 by (auto intro: unsigned_word_eqI)
  ultimately show ?thesis using 4 by blast
qed

theorem sigPath_identifies_witness:
  "sigPath 5 123456 ''MP3'' = sigPath 5 123456 ''mp3'' \<and> sigPath 5 123456 ''MP3'' = ''n3/56/34/5.mp3'' \<and>
    (5 :: 32 word) = 5 \<and> map c_tolower ''MP3'' = map c_tolower ''mp3''"
proof -
  have "sigPath 5 123456 ''MP3'' = sigPath 5 123456 ''mp3''" "sigPath 5 123456 ''MP3'' = ''n3/56/34/5.mp3''" by code_simp+
  with sigPath_identifies [OF this(1)] show ?thesis by blast
qed

section \<open>Laws of directories\<close>

text \<open>Paths whose components are not empty and not \<^verbatim>\<open>.\<close> or \<^verbatim>\<open>..\<close>.\<close>

definition basename :: "string \<Rightarrow> string" where
  "basename p = rev (takeWhile (\<lambda>c. c \<noteq> CHR ''/'') (rev p))"

function good_path :: "string \<Rightarrow> bool" where
  "good_path p = (basename p \<notin> {[], ''.'', ''..''} \<and> (case dirname p of None \<Rightarrow> True | Some q \<Rightarrow> q = [] \<or> good_path q))"
  by pat_completeness auto
termination
  by (relation "measure length") (auto dest: dirname_shorter)

declare good_path.simps [simp del] mkdirs.simps [simp del]

lemma dirname_slash: "dirname (p @ ''/'') = Some p"
  by (simp add: dirname_def)

lemma dirname_basename: "dirname p = Some q \<Longrightarrow> p = q @ CHR ''/'' # basename p"
proof -
  assume a: "dirname p = Some q"
  let ?d = "dropWhile (\<lambda>c. c \<noteq> CHR ''/'') (rev p)"
  have "CHR ''/'' \<in> set (rev p)" and q: "q = rev (tl ?d)" using a by (auto simp: dirname_def split: if_splits)
  then have n: "?d \<noteq> []" by (auto simp: dropWhile_eq_Nil_conv)
  then have "hd ?d = CHR ''/''" using hd_dropWhile by blast
  then have "?d = CHR ''/'' # tl ?d" using n by (metis list.collapse)
  then have "rev p = takeWhile (\<lambda>c. c \<noteq> CHR ''/'') (rev p) @ CHR ''/'' # tl ?d"
    using takeWhile_dropWhile_id [of "\<lambda>c. c \<noteq> CHR ''/''" "rev p"] by simp
  then have "rev (rev p) = rev (takeWhile (\<lambda>c. c \<noteq> CHR ''/'') (rev p) @ CHR ''/'' # tl ?d)" by (rule arg_cong)
  then show ?thesis unfolding q basename_def by simp
qed

lemma good_path_not_empty: "good_path p \<Longrightarrow> p \<noteq> []"
  by (auto simp: good_path.simps [of p] basename_def)

text \<open>What the calls of the system promise, for one mode that lets the owner read, write and enter a
  directory, where whatever is there is accessible and resources do not run out: \<^verbatim>\<open>mkdir\<close> makes a
  directory that is not there when the directory above is; a new directory is accessible and
  empty; and \<^verbatim>\<open>mkdir\<close> fails for a directory that is there, also when it is named with a slash at
  its end.\<close>

definition mkdir_works :: "('f \<Rightarrow> amode \<Rightarrow> string \<Rightarrow> bool) \<Rightarrow> (string \<Rightarrow> 'f \<Rightarrow> bool \<times> 'f) \<Rightarrow> bool" where
  "mkdir_works access mkdir \<longleftrightarrow>
     (\<forall>p fs. good_path p \<longrightarrow> \<not> access fs F_W_X_OK p \<longrightarrow>
        (\<forall>q. dirname p = Some q \<longrightarrow> q = [] \<or> access fs F_W_X_OK q) \<longrightarrow> fst (mkdir p fs))"

definition mkdir_makes :: "('f \<Rightarrow> amode \<Rightarrow> string \<Rightarrow> bool) \<Rightarrow> (string \<Rightarrow> 'f \<Rightarrow> bool \<times> 'f) \<Rightarrow> bool" where
  "mkdir_makes access mkdir \<longleftrightarrow>
     (\<forall>p fs fs'. mkdir p fs = (True, fs') \<longrightarrow> access fs' F_W_X_OK p \<and>
        (\<forall>x. good_path (p @ CHR ''/'' # x) \<longrightarrow> \<not> access fs' F_W_X_OK (p @ CHR ''/'' # x)))"

definition mkdir_exists :: "('f \<Rightarrow> amode \<Rightarrow> string \<Rightarrow> bool) \<Rightarrow> (string \<Rightarrow> 'f \<Rightarrow> bool \<times> 'f) \<Rightarrow> bool" where
  "mkdir_exists access mkdir \<longleftrightarrow>
     (\<forall>p fs. access fs F_W_X_OK p \<longrightarrow> mkdir p fs = (False, fs) \<and> mkdir (p @ ''/'') fs = (False, fs))"

text \<open>The directory \<open>p\<close> is there and empty.\<close>

definition made_dir :: "('f \<Rightarrow> amode \<Rightarrow> string \<Rightarrow> bool) \<Rightarrow> string \<Rightarrow> 'f \<Rightarrow> bool" where
  "made_dir access p fs \<longleftrightarrow> access fs F_W_X_OK p \<and>
     (\<forall>x. good_path (p @ CHR ''/'' # x) \<longrightarrow> \<not> access fs F_W_X_OK (p @ CHR ''/'' # x))"

lemma mkdir_made:
  assumes "mkdir_works access mkdir" "mkdir_makes access mkdir" "good_path p"
    and "\<not> access fs F_W_X_OK p" "\<forall>q. dirname p = Some q \<longrightarrow> q = [] \<or> access fs F_W_X_OK q"
  shows "\<exists>fs'. mkdir p fs = (True, fs') \<and> made_dir access p fs'"
proof -
  have "fst (mkdir p fs)" using assms(1,3-5) unfolding mkdir_works_def by blast
  then obtain fs' where m: "mkdir p fs = (True, fs')" by (cases "mkdir p fs") auto
  then show ?thesis using assms(2) unfolding mkdir_makes_def made_dir_def by blast
qed

lemma mkdirs_ok:
  assumes laws: "mkdir_works access (\<lambda>p. mkdir p mode)" "mkdir_makes access (\<lambda>p. mkdir p mode)"
  shows "good_path p \<Longrightarrow> \<not> access fs F_W_X_OK p \<Longrightarrow> \<exists>fs'. mkdirs access mkdir p mode fs = (True, fs') \<and> made_dir access p fs'"
proof (induction p arbitrary: fs rule: good_path.induct)
  case (1 p)
  show ?case
  proof (cases "\<exists>q. dirname p = Some q \<and> q \<noteq> [] \<and> \<not> access fs F_W_X_OK q")
    case True
    then obtain q where q: "dirname p = Some q" "q \<noteq> []" "\<not> access fs F_W_X_OK q" by blast
    have "good_path q" using "1.prems"(1) q(1,2) by (simp add: good_path.simps [of p])
    then obtain gs where gs: "mkdirs access mkdir q mode fs = (True, gs)" "made_dir access q gs"
      using "1.IH" [OF q(1) _ q(3)] by blast
    have e: "mkdirs access mkdir p mode fs = mkdir p mode gs" using q gs(1) by (simp add: mkdirs.simps [of access mkdir p])
    obtain x where x: "p = q @ CHR ''/'' # x" using dirname_basename [OF q(1)] by blast
    have "\<not> access gs F_W_X_OK p" using gs(2) "1.prems"(1) unfolding made_dir_def x by blast
    moreover have "\<forall>q. dirname p = Some q \<longrightarrow> q = [] \<or> access gs F_W_X_OK q" using gs(2) q(1) by (simp add: made_dir_def)
    ultimately show ?thesis unfolding e using mkdir_made [OF laws "1.prems"(1)] by blast
  next
    case False
    then have e: "mkdirs access mkdir p mode fs = mkdir p mode fs"
      by (auto simp: mkdirs.simps [of access mkdir p] split: option.splits)
    show ?thesis unfolding e using False "1.prems"(2) by (intro mkdir_made [OF laws "1.prems"(1)]) auto
  qed
qed


text \<open>A file system of directories only: a set of paths, in which a new directory is empty.\<close>

definition set_access :: "string set \<Rightarrow> amode \<Rightarrow> string \<Rightarrow> bool" where
  "set_access fs m p \<longleftrightarrow> p \<in> fs"

definition set_mkdir :: "string \<Rightarrow> 32 word \<Rightarrow> string set \<Rightarrow> bool \<times> string set" where
  "set_mkdir p mode fs =
     (if p = [] \<or> last p = CHR ''/'' \<or> p \<in> fs \<or> (case dirname p of None \<Rightarrow> False | Some q \<Rightarrow> q \<noteq> [] \<and> q \<notin> fs)
      then (False, fs) else (True, insert p {q \<in> fs. take (length p + 1) q \<noteq> p @ ''/''}))"

lemma good_path_last: "good_path p \<Longrightarrow> last p \<noteq> CHR ''/''"
  using good_path_not_empty [of p]
  by (cases p rule: rev_cases) (auto simp: good_path.simps [of "_ @ ''/''"] basename_def)


section \<open>Laws of random names\<close>

text \<open>The characters of random names; with numbers and without capitals the last capital is not
  excluded.\<close>

lemma randString_length: "0 \<le> len \<Longrightarrow> nat len \<le> length rs \<Longrightarrow> length (randString len isCapital isNum rs) = nat len"
  by (simp add: randString_def)

lemma randString_letters: "set (randString len True False rs) \<subseteq> set (take 52 STR_chars)"
  "set (randString len False False rs) \<subseteq> set (take 26 STR_chars)" "set (randString len True True rs) \<subseteq> set STR_chars"
proof -
  have l: "length STR_chars = 62" by (simp add: STR_chars_def)
  have sub: "STR_chars ! (r mod n) \<in> set (take n STR_chars)" if "0 < n" "n \<le> 62" for r n
    using that l by (auto simp: in_set_conv_nth intro!: exI [of _ "r mod n"])
  show "set (randString len True False rs) \<subseteq> set (take 52 STR_chars)" "set (randString len False False rs) \<subseteq> set (take 26 STR_chars)"
    "set (randString len True True rs) \<subseteq> set STR_chars"
    using sub [of 52] sub [of 26] sub [of 62] l by (auto simp: randString_def rand_char_def)
qed

lemma randString_capital: "randString 1 False True [51] = ''Z''"
  by code_simp

end
