(* ===== verification/Config.thy ===== *)
theory Config
  imports Prelude
begin

text \<open>
  Model of \<^verbatim>\<open>config.cpp\<close>: the reader of configuration files.  The lines that \<^verbatim>\<open>getline\<close> gives are a
  parameter.  The loop that is to remove spaces may run forever, so the functions that contain it
  return \<^term>\<open>None\<close> when they do not return.
\<close>

section \<open>Strings and maps of the standard library\<close>

fun find_char :: "char \<Rightarrow> string \<Rightarrow> nat option" where
  "find_char c [] = None"
| "find_char c (d # s) = (if d = c then Some 0 else map_option Suc (find_char c s))"

text \<open>\<^verbatim>\<open>erase(index,1)\<close>, which throws behind the end of the string.\<close>

definition erase_one :: "nat \<Rightarrow> string \<Rightarrow> string option" where
  "erase_one i s = (if i > length s then None else Some (take i s @ drop (i + 1) s))"

text \<open>\<^verbatim>\<open>insert\<close> keeps the value of a key that is there.\<close>

definition map_insert :: "'k \<Rightarrow> 'v \<Rightarrow> ('k \<rightharpoonup> 'v) \<Rightarrow> ('k \<rightharpoonup> 'v)" where
  "map_insert k v m = (case m k of None \<Rightarrow> m(k \<mapsto> v) | Some _ \<Rightarrow> m)"

section \<open>The reader\<close>

record parser =
  cur_key :: string
  temp_map :: "string \<rightharpoonup> string"
  config :: "string \<rightharpoonup> (string \<rightharpoonup> string)"

text \<open>The loop over the spaces: \<^term>\<open>None\<close> when it does not end, \<^term>\<open>Some None\<close> when it throws.\<close>

partial_function (option) erase_loop :: "nat option \<Rightarrow> string \<Rightarrow> string option option" where
  "erase_loop index instr =
     (case index of
        None \<Rightarrow> Some (Some instr)
      | Some i \<Rightarrow> (case erase_one i instr of None \<Rightarrow> Some None | Some s \<Rightarrow> erase_loop index s))"

definition del_spaces :: "string \<Rightarrow> string option option" where
  "del_spaces instr = (if instr \<noteq> [] then erase_loop (find_char (CHR '' '') instr) instr else Some (Some instr))"

definition cut_comment :: "string \<Rightarrow> string" where
  "cut_comment instr = (case find_char (CHR ''#'') instr of None \<Rightarrow> instr | Some i \<Rightarrow> take i instr)"

text \<open>\<^verbatim>\<open>substr(index_left+1,index_right-index_left-1)\<close>: a negative length is a huge unsigned one.\<close>

definition section_name :: "nat \<Rightarrow> nat option \<Rightarrow> string \<Rightarrow> string" where
  "section_name l r instr =
     (case r of
        None \<Rightarrow> drop (l + 1) instr
      | Some r \<Rightarrow> if r > l then take (r - l - 1) (drop (l + 1) instr) else drop (l + 1) instr)"

definition flush :: "parser \<Rightarrow> parser" where
  "flush p = p\<lparr>config := map_insert (cur_key p) (temp_map p) (config p)\<rparr>"

text \<open>The rest of the body of the loop over the lines.\<close>

definition load_line :: "string \<Rightarrow> parser \<Rightarrow> parser" where
  "load_line line p =
     (let instr = cut_comment line in
      if instr = [] \<or> find_char (CHR ''#'') instr = Some 0 then p
      else
        (let index_left = find_char (CHR ''['') instr;
             index_right = find_char (CHR '']'') instr;
             index = find_char (CHR ''='') instr in
         if index = None \<and> (index_left = None \<or> index_right = None) then p
         else
           (case index_left of
              Some l \<Rightarrow>
                (let p = (if cur_key p \<noteq> [] then flush p else p) in
                 p\<lparr>cur_key := section_name l index_right instr, temp_map := Map.empty\<rparr>)
            | None \<Rightarrow>
                (case index of
                   None \<Rightarrow> p
                 | Some i \<Rightarrow> p\<lparr>temp_map := map_insert (take i instr) (drop (i + 1) instr) (temp_map p)\<rparr>))))"

fun load_lines :: "string list \<Rightarrow> parser \<Rightarrow> parser option option" where
  "load_lines [] p = Some (Some p)"
| "load_lines (instr # ls) p =
     (case del_spaces instr of
        None \<Rightarrow> None
      | Some None \<Rightarrow> Some None
      | Some (Some instr) \<Rightarrow> load_lines ls (load_line instr p))"

text \<open>The argument is \<^term>\<open>None\<close> for a file that cannot be opened.\<close>

definition loadConfig :: "string list option \<Rightarrow> (string \<rightharpoonup> (string \<rightharpoonup> string)) \<Rightarrow>
    (int \<times> (string \<rightharpoonup> (string \<rightharpoonup> string))) option option" where
  "loadConfig infile c =
     (case infile of
        None \<Rightarrow> Some (Some (-1, c))
      | Some ls \<Rightarrow>
          (case load_lines ls \<lparr>cur_key = [], temp_map = Map.empty, config = c\<rparr> of
             None \<Rightarrow> None
           | Some None \<Rightarrow> Some None
           | Some (Some p) \<Rightarrow> Some (Some (0, config (flush p)))))"

section \<open>Termination\<close>

lemma find_char_None: "find_char c s = None \<longleftrightarrow> c \<notin> set s"
  by (induction s) auto

lemma find_char_append: "c \<notin> set s \<Longrightarrow> find_char c (s @ c # t) = Some (length s)"
  by (induction s) auto

lemma find_char_less: "find_char c s = Some i \<Longrightarrow> i < length s"
  by (induction s arbitrary: i) (auto split: if_splits)

text \<open>The position is not looked up again, so the loop goes on at the end of the string.\<close>

lemma erase_loop_returns:
  assumes "erase_loop index s = Some y"
  shows "index = Some i \<longrightarrow> \<not> i \<le> length s"
proof (rule erase_loop.raw_induct [of "\<lambda>index s y. index = Some i \<longrightarrow> \<not> i \<le> length s", OF _ assms], intro impI notI)
  fix loop index s y
  assume IH: "\<And>index s y. loop index s = Some y \<Longrightarrow> index = Some i \<longrightarrow> \<not> i \<le> length s"
    and r: "(case index of None \<Rightarrow> Some (Some s)
      | Some i \<Rightarrow> (case erase_one i s of None \<Rightarrow> Some None | Some s \<Rightarrow> loop index s)) = Some y"
    and a: "index = Some i" "i \<le> length s"
  have "loop index (take i s @ drop (i + 1) s) = Some y" using r a by (simp add: erase_one_def)
  from IH [OF this] show False using a by auto
qed

lemma del_spaces_value: "del_spaces s = (if CHR '' '' \<in> set s then None else Some (Some s))"
proof (cases "find_char (CHR '' '') s")
  case None
  moreover have "erase_loop None s = Some (Some s)" by (simp add: erase_loop.simps)
  moreover have "CHR '' '' \<notin> set s" using None find_char_None by blast
  ultimately show ?thesis by (simp add: del_spaces_def)
next
  case (Some i)
  then have "erase_loop (Some i) s = None"
    using erase_loop_returns [of "Some i" s _ i] find_char_less [OF Some] by (cases "erase_loop (Some i) s") auto
  moreover have "CHR '' '' \<in> set s" "s \<noteq> []" using Some find_char_None [of "CHR '' ''" s] by auto
  ultimately show ?thesis using Some by (simp add: del_spaces_def)
qed

lemma load_lines_value:
  "load_lines ls p = (if \<exists>l \<in> set ls. CHR '' '' \<in> set l then None else Some (Some (fold load_line ls p)))"
  by (induction ls arbitrary: p) (auto simp: del_spaces_value)

text \<open>C37 Reading a configuration file does not return exactly when some line has a space: the loop that
  is to remove the spaces erases at the place of the first one for ever.  It never throws.\<close>

theorem loadConfig_terminates:
  "(loadConfig (Some ls) c = None \<longleftrightarrow> (\<exists>l \<in> set ls. CHR '' '' \<in> set l)) \<and> loadConfig infile c \<noteq> Some None"
  by (auto simp: loadConfig_def load_lines_value split: option.splits)

section \<open>Files and their values\<close>

type_synonym section_text = "string \<times> (string \<times> string) list"

definition print_section :: "section_text \<Rightarrow> string list" where
  "print_section sec = (CHR ''['' # fst sec @ '']'') # map (\<lambda>(k, v). k @ CHR ''='' # v) (snd sec)"

fun sections_map :: "section_text list \<Rightarrow> (string \<rightharpoonup> (string \<rightharpoonup> string))" where
  "sections_map [] = Map.empty"
| "sections_map (sec # secs) = (sections_map secs)(fst sec \<mapsto> map_of (snd sec))"

definition plain_text :: "string \<Rightarrow> string \<Rightarrow> bool" where
  "plain_text cs s \<longleftrightarrow> (\<forall>c \<in> set cs. c \<notin> set s)"

definition wf_section :: "section_text \<Rightarrow> bool" where
  "wf_section sec \<longleftrightarrow> fst sec \<noteq> [] \<and> plain_text '' #]'' (fst sec) \<and> distinct (map fst (snd sec)) \<and>
     list_all (\<lambda>(k, v). plain_text '' #[='' k \<and> plain_text '' #['' v) (snd sec)"

lemma map_insert_new: "m k = None \<Longrightarrow> map_insert k v m = m(k \<mapsto> v)"
  by (simp add: map_insert_def)

lemma map_add_new: "m k = None \<Longrightarrow> f(k \<mapsto> v) ++ m = f ++ m(k \<mapsto> v)"
  by (auto simp: map_add_def fun_eq_iff split: option.splits)

lemma cut_plain: "CHR ''#'' \<notin> set s \<Longrightarrow> cut_comment s = s"
  using find_char_None [of "CHR ''#''" s] by (simp add: cut_comment_def)

lemma load_header:
  assumes "plain_text '' #]'' n"
  shows "load_line (CHR ''['' # n @ '']'') p = (if cur_key p \<noteq> [] then flush p else p)\<lparr>cur_key := n, temp_map := Map.empty\<rparr>"
proof -
  have r: "find_char (CHR '']'') (n @ '']'') = Some (length n)"
    using assms find_char_append [of "CHR '']''" n "[]"] by (simp add: plain_text_def)
  have h: "CHR ''#'' \<notin> set (CHR ''['' # n @ '']'')" using assms by (simp add: plain_text_def)
  then have "find_char (CHR ''#'') (CHR ''['' # n @ '']'') = None" using find_char_None by blast
  then show ?thesis
    unfolding load_line_def Let_def cut_plain [OF h] using r by (simp add: section_name_def)
qed

lemma load_entry:
  assumes "plain_text '' #[='' k" "plain_text '' #['' v"
  shows "load_line (k @ CHR ''='' # v) p = p\<lparr>temp_map := map_insert k v (temp_map p)\<rparr>"
proof -
  have i: "find_char (CHR ''='') (k @ CHR ''='' # v) = Some (length k)"
    using assms find_char_append [of "CHR ''=''" k v] by (simp add: plain_text_def)
  have h: "CHR ''#'' \<notin> set (k @ CHR ''='' # v)" "CHR ''['' \<notin> set (k @ CHR ''='' # v)" using assms by (simp_all add: plain_text_def)
  then have n: "find_char (CHR ''#'') (k @ CHR ''='' # v) = None" "find_char (CHR ''['') (k @ CHR ''='' # v) = None"
    using find_char_None by blast+
  show ?thesis unfolding load_line_def Let_def cut_plain [OF h(1)] i n by simp
qed

lemma load_entries:
  "distinct (map fst es) \<Longrightarrow> list_all (\<lambda>(k, v). plain_text '' #[='' k \<and> plain_text '' #['' v) es \<Longrightarrow>
    \<forall>k \<in> fst ` set es. temp_map p k = None \<Longrightarrow>
    fold load_line (map (\<lambda>(k, v). k @ CHR ''='' # v) es) p = p\<lparr>temp_map := temp_map p ++ map_of es\<rparr>"
proof (induction es arbitrary: p)
  case (Cons e es)
  obtain k v where e: "e = (k, v)" by (cases e)
  let ?p = "p\<lparr>temp_map := (temp_map p)(k \<mapsto> v)\<rparr>"
  have l: "load_line (k @ CHR ''='' # v) p = ?p"
    using Cons.prems by (simp add: e load_entry map_insert_new)
  have "fold load_line (map (\<lambda>(k, v). k @ CHR ''='' # v) es) ?p = ?p\<lparr>temp_map := temp_map ?p ++ map_of es\<rparr>"
    using Cons.prems by (intro Cons.IH) (auto simp: e)
  moreover have "(temp_map p)(k \<mapsto> v) ++ map_of es = temp_map p ++ map_of (e # es)"
    using Cons.prems(1) by (simp add: e map_add_new map_of_eq_None_iff)
  ultimately show ?case using l by (simp add: e fun_upd_def [symmetric])
qed simp

lemma load_section:
  assumes "wf_section sec"
  shows "fold load_line (print_section sec) p =
    (if cur_key p \<noteq> [] then flush p else p)\<lparr>cur_key := fst sec, temp_map := map_of (snd sec)\<rparr>"
  using assms by (simp add: print_section_def wf_section_def load_header load_entries)

lemma sections_map_None: "n \<notin> fst ` set secs \<Longrightarrow> sections_map secs n = None"
  by (induction secs) auto

lemma load_sections:
  "list_all wf_section secs \<Longrightarrow> cur_key p \<noteq> [] \<Longrightarrow> distinct (cur_key p # map fst secs) \<Longrightarrow>
    \<forall>k \<in> insert (cur_key p) (fst ` set secs). config p k = None \<Longrightarrow>
    config (flush (fold load_line (concat (map print_section secs)) p)) =
      config p ++ (sections_map secs)(cur_key p \<mapsto> temp_map p)"
proof (induction secs arbitrary: p)
  case Nil
  then show ?case by (auto simp: flush_def map_insert_new map_add_def)
next
  case (Cons sec secs)
  let ?p = "(flush p)\<lparr>cur_key := fst sec, temp_map := map_of (snd sec)\<rparr>"
  have c: "config ?p = (config p)(cur_key p \<mapsto> temp_map p)" using Cons.prems(4) by (simp add: flush_def map_insert_new)
  have "fst sec \<noteq> []" using Cons.prems(1) by (simp add: wf_section_def)
  then have IH: "config (flush (fold load_line (concat (map print_section secs)) ?p)) =
      config ?p ++ (sections_map secs)(cur_key ?p \<mapsto> temp_map ?p)"
    using Cons.prems by (intro Cons.IH) (force simp: flush_def map_insert_new)+
  have n: "sections_map (sec # secs) (cur_key p) = None" using Cons.prems(3) by (intro sections_map_None) auto
  have "fold load_line (print_section sec) p = ?p" using Cons.prems(1,2) by (simp add: load_section)
  then have "config (flush (fold load_line (concat (map print_section (sec # secs))) p)) = config ?p ++ sections_map (sec # secs)"
    using IH by simp
  then show ?case unfolding c map_add_new [of "sections_map (sec # secs)" "cur_key p", OF n] .
qed

lemma printed_no_space: "list_all wf_section secs \<Longrightarrow> l \<in> set (concat (map print_section secs)) \<Longrightarrow> CHR '' '' \<notin> set l"
  by (fastforce simp: print_section_def wf_section_def plain_text_def list_all_iff)

text \<open>C6 A file of sections with different names, each with different keys, is read into the map that
  takes the name of every section to the map of its entries.  Names, keys and values have no space,
  no comment and none of the separators in front of which they stand.\<close>

theorem loadConfig_roundtrip:
  assumes "secs \<noteq> []" "list_all wf_section secs" "distinct (map fst secs)"
  shows "loadConfig (Some (concat (map print_section secs))) Map.empty = Some (Some (0, sections_map secs))"
proof -
  obtain s ss where s: "secs = s # ss" using assms(1) by (cases secs) auto
  let ?p = "\<lparr>cur_key = fst s, temp_map = map_of (snd s), config = Map.empty\<rparr>"
  have "fold load_line (print_section s) \<lparr>cur_key = [], temp_map = Map.empty, config = Map.empty\<rparr> = ?p"
    using assms(2) by (simp add: s load_section)
  moreover have "config (flush (fold load_line (concat (map print_section ss)) ?p)) =
      sections_map secs"
    using load_sections [of ss ?p] assms(2,3) by (auto simp: s wf_section_def)
  moreover have "\<not> (\<exists>l \<in> set (concat (map print_section secs)). CHR '' '' \<in> set l)"
    using printed_no_space [OF assms(2)] by blast
  ultimately show ?thesis by (simp add: loadConfig_def load_lines_value s)
qed

theorem loadConfig_roundtrip_witness:
  "loadConfig (Some [''[common]'', ''base_path=/data'', ''[redis]'', ''redis_ip=h'', ''pool_num=4'']) Map.empty =
    Some (Some (0, [''common'' \<mapsto> [''base_path'' \<mapsto> ''/data''],
      ''redis'' \<mapsto> [''redis_ip'' \<mapsto> ''h'', ''pool_num'' \<mapsto> ''4'']]))"
proof -
  let ?secs = "[(''common'', [(''base_path'', ''/data'')]), (''redis'', [(''redis_ip'', ''h''), (''pool_num'', ''4'')])]"
  have "?secs \<noteq> []" "list_all wf_section ?secs" "distinct (map fst ?secs)"
    by (simp_all add: wf_section_def plain_text_def)
  from loadConfig_roundtrip [OF this] show ?thesis
    by (simp add: print_section_def fun_upd_twist)
qed

end
