(* ===== verification/ObjectPool.thy ===== *)
theory ObjectPool
  imports Prelude
begin

text \<open>
  Model of \<^verbatim>\<open>objectpool.hpp\<close>: a pool that hands out shared pointers.  \<^verbatim>\<open>get\<close> and the deleter hold the
  mutex of the pool around their accesses to the list and the counters, so their interleavings are
  sequences of whole calls; \<^verbatim>\<open>init\<close> and the destructor run before and after all of them.  An object is a number; a shared pointer also says whether it has the deleter that
  gives the object back to the pool.  The numbers of objects are far below the range of \<^verbatim>\<open>int\<close>.
\<close>

section \<open>The pool\<close>

type_synonym pooled = "nat \<times> bool"

text \<open>The last two fields are the heap: the next new object and the deleted ones.\<close>

record pool =
  user_object_list :: "pooled list"
  free_object :: bool
  init_num :: int
  cur_num :: int
  used_num :: int
  max_num :: int
  next_object :: nat
  deleted :: "nat list"

definition expand_list :: "int \<Rightarrow> pool \<Rightarrow> pool" where
  "expand_list num p =
     p\<lparr>user_object_list := user_object_list p @ map (\<lambda>i. (i, True)) [next_object p..<next_object p + nat num],
       next_object := next_object p + nat num\<rparr>"

definition init :: "int \<Rightarrow> int \<Rightarrow> pool" where
  "init num mx = expand_list num
     \<lparr>user_object_list = [], free_object = False, init_num = num, cur_num = num, used_num = 0, max_num = mx,
      next_object = 0, deleted = []\<rparr>"

definition delete_object :: "nat \<Rightarrow> pool \<Rightarrow> pool" where
  "delete_object t p = p\<lparr>deleted := t # deleted p\<rparr>"

definition auto_create_ptr :: "nat \<Rightarrow> pool \<Rightarrow> pool" where
  "auto_create_ptr t p =
     (if free_object p then delete_object t p
      else
        (let p = (if cur_num p - used_num p > init_num p then (delete_object t p)\<lparr>cur_num := cur_num p - 1\<rparr>
                  else p\<lparr>user_object_list := user_object_list p @ [(t, False)]\<rparr>) in
         p\<lparr>used_num := used_num p - 1\<rparr>))"

text \<open>The front of the list; \<^term>\<open>None\<close> is the undefined front of an empty one.\<close>

definition take_front :: "pool \<Rightarrow> (pooled option \<times> pool) option" where
  "take_front p =
     (case user_object_list p of
        [] \<Rightarrow> None
      | ptr # _ \<Rightarrow>
          Some (Some ptr, p\<lparr>user_object_list := filter (\<lambda>x. x \<noteq> ptr) (user_object_list p), used_num := used_num p + 1\<rparr>))"

text \<open>The inner \<^term>\<open>None\<close> is the null pointer.\<close>

definition get_object :: "pool \<Rightarrow> (pooled option \<times> pool) option" where
  "get_object p =
     (if user_object_list p \<noteq> [] then take_front p
      else if cur_num p \<ge> max_num p then Some (None, p)
      else
        (let p = (if cur_num p * 2 \<le> max_num p then (expand_list (cur_num p) p)\<lparr>cur_num := cur_num p + cur_num p\<rparr>
                  else (expand_list (max_num p - cur_num p) p)\<lparr>cur_num := max_num p\<rparr>) in
         take_front p))"

text \<open>The end of the last copy of a shared pointer: its deleter, or \<^verbatim>\<open>delete\<close> when it has none.\<close>

definition release :: "pooled \<Rightarrow> pool \<Rightarrow> pool" where
  "release ptr p = (if snd ptr then auto_create_ptr (fst ptr) p else delete_object (fst ptr) p)"

text \<open>The destructor, and the end of the list that follows it.\<close>

definition destroy_pool :: "pool \<Rightarrow> pool" where
  "destroy_pool p = (let p = p\<lparr>free_object := True\<rparr> in (fold release (user_object_list p) p)\<lparr>user_object_list := []\<rparr>)"

lemma destroy_pool_deletes: "deleted (destroy_pool p) = rev (map fst (user_object_list p)) @ deleted p"
proof -
  have "free_object q \<Longrightarrow> fold release xs q = q\<lparr>deleted := rev (map fst xs) @ deleted q\<rparr>" for xs q
    by (induction xs arbitrary: q) (auto simp: release_def auto_create_ptr_def delete_object_def)
  then show ?thesis by (simp add: destroy_pool_def Let_def)
qed

section \<open>Clients\<close>

text \<open>A pool with the pointers that are handed out.\<close>

inductive pool_step :: "pool \<times> pooled list \<Rightarrow> pool \<times> pooled list \<Rightarrow> bool" where
  got: "get_object p = Some (Some ptr, p') \<Longrightarrow> pool_step (p, held) (p', ptr # held)"
| refused: "get_object p = Some (None, p') \<Longrightarrow> pool_step (p, held) (p', held)"
| released: "ptr \<in> set held \<Longrightarrow> pool_step (p, held) (release ptr p, remove1 ptr held)"

inductive reachable :: "int \<Rightarrow> int \<Rightarrow> pool \<times> pooled list \<Rightarrow> bool" for num mx where
  start: "reachable num mx (init num mx, [])"
| step: "reachable num mx s \<Longrightarrow> pool_step s t \<Longrightarrow> reachable num mx t"

inductive_cases pool_stepE: "pool_step (p, held) t"

section \<open>Safety\<close>

text \<open>Objects in the list, handed out and deleted are all different; the counters bound the objects
  that are alive, and the handed out pointers with the deleter are counted as used.\<close>

definition pool_ok :: "pool \<times> pooled list \<Rightarrow> bool" where
  "pool_ok s = (case s of (p, held) \<Rightarrow>
     \<not> free_object p \<and>
     distinct (map fst (user_object_list p) @ map fst held @ deleted p) \<and>
     list_all (\<lambda>i. i < next_object p) (map fst (user_object_list p) @ map fst held @ deleted p) \<and>
     int (length (user_object_list p) + length held) \<le> cur_num p \<and> cur_num p \<le> max_num p \<and>
     1 \<le> init_num p \<and> init_num p \<le> cur_num p \<and> int (length (filter snd held)) \<le> used_num p)"

lemma init_ok: "1 \<le> num \<Longrightarrow> num \<le> mx \<Longrightarrow> pool_ok (init num mx, [])"
  by (simp add: pool_ok_def init_def expand_list_def comp_def list_all_iff)

lemma fresh_objects:
  assumes "distinct (xs @ ys)" "list_all (\<lambda>i. i < k) (xs @ ys)"
  shows "distinct ((xs @ [k..<k + n]) @ ys)" "list_all (\<lambda>i. i < k + n) ((xs @ [k..<k + n]) @ ys)"
proof -
  have less: "i < k" if "i \<in> set xs \<union> set ys" for i using assms(2) that by (auto simp: list_all_iff)
  then have "set [k..<k + n] \<inter> (set xs \<union> set ys) = {}" by fastforce
  then show "distinct ((xs @ [k..<k + n]) @ ys)" using assms(1) by auto
  show "list_all (\<lambda>i. i < k + n) ((xs @ [k..<k + n]) @ ys)" using less by (auto simp: list_all_iff intro: trans_less_add1)
qed

lemma expand_ok:
  assumes "pool_ok (p, held)" "0 \<le> n" "cur_num p + n \<le> max_num p"
  shows "pool_ok ((expand_list n p)\<lparr>cur_num := cur_num p + n\<rparr>, held)"
proof -
  let ?l = "map fst (user_object_list p)" and ?r = "map fst held @ deleted p"
  have "distinct (?l @ ?r)" "list_all (\<lambda>i. i < next_object p) (?l @ ?r)" using assms(1) by (simp_all add: pool_ok_def)
  from fresh_objects [OF this, of "nat n"] show ?thesis
    using assms by (simp add: pool_ok_def expand_list_def comp_def image_Un image_image Int_Un_distrib Int_Un_distrib2)
qed

lemma filter_front: "distinct (map fst (x # xs)) \<Longrightarrow> filter (\<lambda>y. y \<noteq> x) (x # xs) = xs"
  by (auto simp: filter_id_conv)

lemma take_front_ok:
  assumes "pool_ok (p, held)" "take_front p = Some (r, p')"
  shows "\<exists>ptr. r = Some ptr \<and> pool_ok (p', ptr # held)"
proof -
  obtain x xs where l: "user_object_list p = x # xs" using assms(2) by (auto simp: take_front_def split: list.splits)
  have "distinct (map fst (x # xs))" using assms(1) l by (simp add: pool_ok_def)
  from filter_front [OF this] have "r = Some x" "p' = p\<lparr>user_object_list := xs, used_num := used_num p + 1\<rparr>"
    using assms(2) l by (simp_all add: take_front_def)
  then show ?thesis using assms(1) l by (auto simp: pool_ok_def)
qed

text \<open>The pool after growing, where it has to grow.\<close>

lemma get_object_cases:
  assumes "pool_ok (p, held)"
  shows "get_object p = Some (None, p) \<or> (\<exists>q. get_object p = take_front q \<and> user_object_list q \<noteq> [] \<and> pool_ok (q, held))"
proof -
  consider "user_object_list p \<noteq> []" | "user_object_list p = []" "cur_num p \<ge> max_num p"
    | "user_object_list p = []" "cur_num p < max_num p" by linarith
  then show ?thesis
  proof cases
    case 3
    let ?n = "if cur_num p * 2 \<le> max_num p then cur_num p else max_num p - cur_num p"
    let ?q = "(expand_list ?n p)\<lparr>cur_num := cur_num p + ?n\<rparr>"
    have n: "1 \<le> ?n" "cur_num p + ?n \<le> max_num p" using assms 3(2) by (auto simp: pool_ok_def)
    have "get_object p = take_front ?q" using 3 by (simp add: get_object_def Let_def)
    moreover have "user_object_list ?q \<noteq> []" using n(1) by (simp add: expand_list_def)
    moreover have "pool_ok (?q, held)" using n by (intro expand_ok [OF assms]) auto
    ultimately show ?thesis by blast
  qed (use assms in \<open>auto simp: get_object_def\<close>)
qed

lemma held_split: "ptr \<in> set held \<Longrightarrow> \<exists>a b. held = a @ ptr # b \<and> remove1 ptr held = a @ b"
  by (metis remove1_append remove1.simps(2) split_list_first)

lemma release_keeps:
  assumes "pool_ok (p, held)" "ptr \<in> set held"
  shows "pool_ok (release ptr p, remove1 ptr held)"
proof -
  obtain a b where h: "held = a @ ptr # b" "remove1 ptr held = a @ b" using held_split [OF assms(2)] by blast
  show ?thesis
    using assms(1) unfolding h(2)
    by (cases ptr) (auto simp: h(1) pool_ok_def release_def auto_create_ptr_def delete_object_def Let_def)
qed

lemma step_ok: "pool_step (p, held) t \<Longrightarrow> pool_ok (p, held) \<Longrightarrow> pool_ok t"
proof (erule pool_stepE)
  fix ptr p' assume a: "t = (p', ptr # held)" "get_object p = Some (Some ptr, p')" "pool_ok (p, held)"
  then show "pool_ok t" using get_object_cases [OF a(3)] take_front_ok by fastforce
next
  fix p' assume a: "t = (p', held)" "get_object p = Some (None, p')" "pool_ok (p, held)"
  then show "pool_ok t" using get_object_cases [OF a(3)] take_front_ok by fastforce
qed (simp add: release_keeps)

lemma reachable_ok: "reachable num mx s \<Longrightarrow> 1 \<le> num \<Longrightarrow> num \<le> mx \<Longrightarrow> pool_ok s"
proof (induction rule: reachable.induct)
  case (step s t)
  then show ?case using step_ok by (cases s) blast
qed (simp add: init_ok)

lemma reachable_max: "reachable num mx s \<Longrightarrow> max_num (fst s) = mx"
proof (induction rule: reachable.induct)
  case (step s t)
  from step(2,3) show ?case
    by cases (auto simp: get_object_def take_front_def expand_list_def release_def auto_create_ptr_def delete_object_def Let_def
      split: if_splits list.splits)
qed (simp add: init_def expand_list_def)



section \<open>Exhaustion\<close>

text \<open>A client that takes a pointer and gives it back, again and again.\<close>

fun cycles :: "nat \<Rightarrow> pool \<Rightarrow> pool option" where
  "cycles 0 p = Some p"
| "cycles (Suc n) p = (case get_object p of Some (Some ptr, p) \<Rightarrow> cycles n (release ptr p) | _ \<Rightarrow> None)"

lemma cycles_add: "cycles m p = Some q \<Longrightarrow> cycles (m + n) p = cycles n q"
  by (induction m arbitrary: p) (auto split: option.splits prod.splits)

lemma get_front:
  "user_object_list p = x # xs \<Longrightarrow> distinct (map fst (x # xs)) \<Longrightarrow>
    get_object p = Some (Some x, p\<lparr>user_object_list := xs, used_num := used_num p + 1\<rparr>)"
  using filter_front [of x xs] by (simp add: get_object_def take_front_def)

text \<open>In the first round every object comes back without its deleter.\<close>

lemma first_round:
  "distinct (xs @ ys) \<Longrightarrow> user_object_list p = map (\<lambda>i. (i, True)) xs @ map (\<lambda>i. (i, False)) ys \<Longrightarrow>
    \<not> free_object p \<Longrightarrow> used_num p = 0 \<Longrightarrow> cur_num p = init_num p \<Longrightarrow>
    cycles (length xs) p = Some (p\<lparr>user_object_list := map (\<lambda>i. (i, False)) (ys @ xs)\<rparr>)"
proof (induction xs arbitrary: ys p)
  case (Cons x xs)
  let ?p = "p\<lparr>user_object_list := map (\<lambda>i. (i, True)) xs @ map (\<lambda>i. (i, False)) (ys @ [x])\<rparr>"
  let ?g = "p\<lparr>user_object_list := map (\<lambda>i. (i, True)) xs @ map (\<lambda>i. (i, False)) ys, used_num := used_num p + 1\<rparr>"
  have "get_object p = Some (Some (x, True), ?g)"
    using Cons.prems by (intro get_front) (auto simp: comp_def)
  moreover have "release (x, True) ?g = ?p"
    using Cons.prems by (simp add: release_def auto_create_ptr_def)
  moreover have "cycles (length xs) ?p = Some (?p\<lparr>user_object_list := map (\<lambda>i. (i, False)) ((ys @ [x]) @ xs)\<rparr>)"
    using Cons.prems by (intro Cons.IH) auto
  ultimately show ?case by simp
qed simp

text \<open>In the second round every object is deleted, and stays counted as used.\<close>

lemma second_round:
  "distinct xs \<Longrightarrow> user_object_list p = map (\<lambda>i. (i, False)) xs \<Longrightarrow>
    cycles (length xs) p =
      Some (p\<lparr>user_object_list := [], used_num := used_num p + int (length xs), deleted := rev xs @ deleted p\<rparr>)"
proof (induction xs arbitrary: p)
  case (Cons x xs)
  let ?p = "p\<lparr>user_object_list := map (\<lambda>i. (i, False)) xs, used_num := used_num p + 1, deleted := x # deleted p\<rparr>"
  have "get_object p = Some (Some (x, False), p\<lparr>user_object_list := map (\<lambda>i. (i, False)) xs, used_num := used_num p + 1\<rparr>)"
    using Cons.prems by (intro get_front) (auto simp: comp_def)
  moreover have "cycles (length xs) ?p =
      Some (?p\<lparr>user_object_list := [], used_num := used_num ?p + int (length xs), deleted := rev xs @ deleted ?p\<rparr>)"
    using Cons.prems by (intro Cons.IH) auto
  ultimately show ?case by (simp add: release_def delete_object_def)
qed simp



end
