(* ===== verification/Spec2Isabelle.thy ===== *)
theory Spec2Isabelle
  imports ConnectionLaws AdList ClusterFragmentLaws ClusterRouteLaws Signature Config ObjectPool
begin

text \<open>
  Verification library for the calcsig server and the Redis client library it ships.

  The program.  The server (\<^verbatim>\<open>src/src\<close>) takes the address of a file, downloads the file, computes
  its signature and moves it to a path made from the signature; it reads its settings with the
  configuration reader and names and places files with the helpers of \<^verbatim>\<open>src/utils\<close>.  The indexers
  and connection pools use the object pool and the client library \<^verbatim>\<open>src/hiredis-vip-master\<close>.  The
  client formats a command, sends it over a connection and reads the reply incrementally.  Its
  cluster layer parses the formatted command to find the keys, hashes each key to a slot, splits a
  command with keys in several slots, looks up the node of a slot in a route made from a reply of
  the cluster, and makes one reply of the replies to the parts.

  Theories and sources.  Paths are under \<^verbatim>\<open>src/hiredis-vip-master\<close> unless they start with \<^verbatim>\<open>src\<close>.
  Definitions have the names of the functions they model, and records those of the structures.

  \<^item> \<open>Prelude\<close>: bytes, character classes, the C integer conversions, decimal numerals.
    \<open>Protocol\<close>: the wire format, as specification.
  \<^item> \<open>Crc16\<close>: \<^verbatim>\<open>crc16.c\<close> and \<^verbatim>\<open>keyHashSlot\<close>.  The table is the one of the bit-serial polynomial
    division, and the slot of a key depends on its hash tag only.
  \<^item> \<open>HiUtil\<close>, \<open>HiArray\<close>: the number and transfer helpers of \<^verbatim>\<open>hiutil.c\<close>; the growable array of
    \<^verbatim>\<open>hiarray.c\<close>, with the interface \<open>grow_array\<close>.
  \<^item> \<open>CmdTypes\<close>, \<open>CmdNames\<close>, \<open>Command\<close>, \<open>CommandSafety\<close>, \<open>CommandFormat\<close>: the request parser
    \<^verbatim>\<open>redis_parse_cmd\<close> of \<^verbatim>\<open>command.c\<close>, one definition per state.  It returns and stays inside its
    buffers on any bytes; on well-formed requests it decides by name and arity and records exactly
    the key arguments.
  \<^item> \<open>Sds\<close>, \<open>SdsText\<close>: the dynamic strings of \<^verbatim>\<open>sds.c\<close> with their 32-bit length fields, refining
    byte lists, with the interface \<open>byte_string\<close>; splitting, joining and quoting are round trips.
  \<^item> \<open>Reply\<close>, \<open>Reader\<close>: the reply objects of \<^verbatim>\<open>hiredis.c\<close> on a store and the reader of \<^verbatim>\<open>read.c\<close>.
    \<open>ReaderSpec\<close> refines the reader to a function of the bytes left; \<open>ReplyValue\<close> and \<open>Decode\<close>
    relate objects to reply values; \<open>ReaderApi\<close> has the interface \<open>incremental\<close>; \<open>ReaderLaws\<close>
    has the results: decoding inverts encoding however the stream is cut, asking always returns,
    replies are released completely, protocol errors.
  \<^item> \<open>Format\<close>: the command formatters of \<^verbatim>\<open>hiredis.c\<close>.  \<open>Connection\<close>, \<open>ConnectionLaws\<close>: the buffers and
    the blocking exchange of \<^verbatim>\<open>hiredis.c\<close>, which delivers commands and replies completely and in
    order, or reports the lost connection.
  \<^item> \<open>Dict\<close>: the hash table of \<^verbatim>\<open>dict.c\<close>, refining finite maps through the interfaces \<open>kv_table\<close> and
    \<open>kv_table_free\<close>.  \<open>AdList\<close>: the linked lists of \<^verbatim>\<open>adlist.c\<close> on a store of nodes, refining lists.
  \<^item> \<open>ClusterFragment\<close>, \<open>ClusterFragmentLaws\<close>, \<open>ClusterReply\<close>: splitting a command by slot and combining
    the replies (\<^verbatim>\<open>command_pre_fragment\<close>, \<^verbatim>\<open>command_format_by_slot\<close> and \<^verbatim>\<open>command_post_fragment\<close> of
    \<^verbatim>\<open>hircluster.c\<close>).  The parts are the requests of their slots, and the combined reply has the
    values in the order of the keys.
  \<^item> \<open>ClusterRoute\<close>, \<open>ClusterRouteLaws\<close>: the route of \<^verbatim>\<open>hircluster.c\<close> made from \<^verbatim>\<open>CLUSTER SLOTS\<close>, its
    replacement of the old one, and the two lookups, which agree.
  \<^item> \<open>Signature\<close>: \<^verbatim>\<open>src/utils/utils.cpp\<close>.  The signature is a function of the digest of the contents; the
    path identifies the signature up to the digits it shows; creation of directories.
  \<^item> \<open>Config\<close>: \<^verbatim>\<open>src/utils/config.cpp\<close>.  Reading inverts printing, and ends exactly when no line has a
    space.
  \<^item> \<open>ObjectPool\<close>: \<^verbatim>\<open>src/objectpool/objectpool.hpp\<close>.  The pool as a step relation with its clients: it is
    safe in every reachable state, and a pool of fixed size runs dry.

  Errors and memory.  An access outside a block, a failed assertion and a null or dangling pointer
  are values of their own (\<open>Stuck\<close>, \<open>Crash\<close>, \<open>DBad\<close> or \<^term>\<open>None\<close>, as each theory says), error
  returns of the code are other values, and the allocator is a parameter that may refuse.

  Integers, loops and fuel.  C integers are numbers with explicit conversions at their width, or
  words.  Loops whose end is not structural are partial functions to an option type, where
  \<^term>\<open>None\<close> is a loop that does not return: that the parser, the reader and the growth of the hash
  table return is proved, the loops over a socket return as long as the list of results of its
  system calls lasts, and the loop of \<open>Config\<close> does not return on a line with a space.  The only
  fuel is that of freeing a reply: the number of objects ever made, which bounds the depth.

  Parameters.  The results of \<^verbatim>\<open>read\<close>, \<^verbatim>\<open>write\<close>, \<^verbatim>\<open>send\<close> and \<^verbatim>\<open>recv\<close>, the texts of error numbers and of
  floating point conversions, the digest functions, \<^verbatim>\<open>access\<close>, \<^verbatim>\<open>mkdir\<close> and \<^verbatim>\<open>rename\<close>, the results of
  \<^verbatim>\<open>rand\<close> and the lines of a file are arguments of the definitions that use them.

  Not modelled.  The socket layer (\<^verbatim>\<open>net.c\<close>) and connecting are system calls.  The asynchronous
  client (\<^verbatim>\<open>async.c\<close> and the asynchronous part of \<^verbatim>\<open>hircluster.c\<close>) is driven by an event loop.  Of the
  rest of \<^verbatim>\<open>hircluster.c\<close>, the older text format \<^verbatim>\<open>CLUSTER NODES\<close>, the option setters, redirection
  and pipelining over several live connections are left out.  The server, the indexers and the
  wrappers of the pools mostly call libevent, libcurl, jsoncpp, glog and the MySQL client, of
  which the repository has headers at most.  The thread pools rest on thread creation and condition
  variables.  Functions that only free memory, \<^verbatim>\<open>hiarray_sort\<close> (a call of \<^verbatim>\<open>qsort\<close>), \<^verbatim>\<open>formatStr\<close> (a
  wrapper of \<^verbatim>\<open>vsprintf\<close>) and all printing and logging are left out, too.
\<close>

end
